(* ===== verification/Prelude.thy ===== *)
theory Prelude
  imports Main "HOL-Library.Word"
begin

text \<open>
  What every component shares: bytes, the error values a C++ operation of the library can end
  with, results that are either an error or a value, \<open>size_t\<close> arithmetic with its wrap-around
  written out, and the generic lemmas on results and on byte ranges of a vector.

  A result \<open>Inl e\<close> stands for an execution that does not return normally. A failed \<open>assert\<close>
  (the build never defines \<open>NDEBUG\<close>; the one of \<open>~Channel\<close> is told apart as \<open>ChannelInUse\<close>) and a \<open>FATAL\<close>/\<open>SYSFATAL\<close> log line abort the process,
  a C++ exception unwinds, and \<open>UndefinedBehaviour\<close> marks an access that the language leaves
  undefined (a freed object, a range outside its container).
\<close>

subsection \<open>Bytes and results\<close>

type_synonym byte = "8 word"

datatype error =
    AssertFailed
  | ChannelInUse
  | LengthError
  | BadFunctionCall
  | UndefinedBehaviour
  | Aborted
  | OutOfRange

type_synonym 'a result = "error + 'a"

definition bindR :: "'a result \<Rightarrow> ('a \<Rightarrow> 'b result) \<Rightarrow> 'b result" where
  "bindR m f = (case m of Inl e \<Rightarrow> Inl e | Inr x \<Rightarrow> f x)"

definition assertR :: "bool \<Rightarrow> 'a result \<Rightarrow> 'a result" where
  "assertR P k = (if P then k else Inl AssertFailed)"

fun foldR :: "('a \<Rightarrow> 's \<Rightarrow> 's result) \<Rightarrow> 'a list \<Rightarrow> 's \<Rightarrow> 's result" where
  "foldR f [] s = Inr s"
| "foldR f (x # xs) s = bindR (f x s) (foldR f xs)"

named_theorems leven_defs \<open>definitions of the modelled operations, for unfolding\<close>

lemma bindR_simps [simp]:
  "bindR (Inl e) f = Inl e"
  "bindR (Inr x) f = f x"
  by (simp_all add: bindR_def)

lemma bindR_Inr_iff: "bindR m f = Inr y \<longleftrightarrow> (\<exists>x. m = Inr x \<and> f x = Inr y)"
  by (cases m) auto

lemma bindR_Inl_iff: "bindR m f = Inl e \<longleftrightarrow> m = Inl e \<or> (\<exists>x. m = Inr x \<and> f x = Inl e)"
  by (cases m) auto

lemma bindR_InrE:
  assumes "bindR m f = Inr y"
  obtains x where "m = Inr x" "f x = Inr y"
  using assms by (auto simp: bindR_Inr_iff)

lemma assertR_True [simp]: "P \<Longrightarrow> assertR P k = k"
  by (simp add: assertR_def)

lemma assertR_False [simp]: "\<not> P \<Longrightarrow> assertR P k = Inl AssertFailed"
  by (simp add: assertR_def)

lemma assertR_Inr_iff: "assertR P k = Inr y \<longleftrightarrow> P \<and> k = Inr y"
  by (simp add: assertR_def)

lemmas result_iffs = bindR_Inr_iff bindR_Inl_iff assertR_Inr_iff

lemma foldR_append: "foldR f (xs @ ys) s = bindR (foldR f xs s) (foldR f ys)"
proof (induction xs arbitrary: s)
  case Nil
  then show ?case by simp
next
  case (Cons x xs)
  then show ?case by (cases "f x s") simp_all
qed

lemma foldR_invariant:
  assumes "\<And>x s s'. x \<in> set xs \<Longrightarrow> P s \<Longrightarrow> f x s = Inr s' \<Longrightarrow> P s'"
    and "P s" and "foldR f xs s = Inr s'"
  shows "P s'"
  using assms
proof (induction xs arbitrary: s)
  case Nil
  then show ?case by simp
next
  case (Cons x xs)
  from Cons.prems(3) obtain t where t: "f x s = Inr t" "foldR f xs t = Inr s'"
    by (auto simp: bindR_Inr_iff)
  have "P t" using Cons.prems(1)[OF _ Cons.prems(2) t(1)] by simp
  with t(2) Cons.prems(1) show ?case by (intro Cons.IH) auto
qed

lemma foldR_total:
  assumes "\<And>x s. x \<in> set xs \<Longrightarrow> P s \<Longrightarrow> \<exists>s'. f x s = Inr s' \<and> P s'" and "P s"
  shows "\<exists>s'. foldR f xs s = Inr s' \<and> P s'"
  using assms
proof (induction xs arbitrary: s)
  case Nil
  then show ?case by simp
next
  case (Cons x xs)
  from Cons.prems obtain t where t: "f x s = Inr t" "P t" by (meson list.set_intros(1))
  have "\<exists>s'. foldR f xs t = Inr s' \<and> P s'"
    using Cons.prems(1) t(2) by (intro Cons.IH) auto
  with t show ?case by simp
qed

text \<open>
  An operation that \<open>ends_in P\<close> returns with a state in \<open>P\<close>, unless a vector had to grow beyond its
  maximal size; it does not fail an assertion and has no undefined behaviour.
\<close>

definition ends_in :: "('a \<Rightarrow> bool) \<Rightarrow> 'a result \<Rightarrow> bool" where
  "ends_in P r = (case r of Inl e \<Rightarrow> e = LengthError | Inr x \<Rightarrow> P x)"

lemma ends_in_simps [simp]:
  "ends_in P (Inr x) = P x" "ends_in P (Inl e) = (e = LengthError)"
  by (simp_all add: ends_in_def)

lemma ends_in_bindR: "ends_in Q m \<Longrightarrow> (\<And>x. Q x \<Longrightarrow> ends_in P (f x)) \<Longrightarrow> ends_in P (bindR m f)"
  by (cases m) simp_all

lemma ends_in_mono: "ends_in Q m \<Longrightarrow> (\<And>x. Q x \<Longrightarrow> P x) \<Longrightarrow> ends_in P m"
  by (cases m) simp_all

lemma ends_in_Inr: "ends_in P m \<Longrightarrow> m = Inr x \<Longrightarrow> P x"
  by simp

lemma ends_in_foldR:
  assumes "\<And>x s. x \<in> set xs \<Longrightarrow> P s \<Longrightarrow> ends_in P (f x s)" and "P s"
  shows "ends_in P (foldR f xs s)"
  using assms
proof (induction xs arbitrary: s)
  case Nil
  then show ?case by simp
next
  case (Cons x xs)
  then show ?case by (auto intro: ends_in_bindR)
qed

text \<open>
  \<open>ends_but b P\<close> also allows, when \<open>b\<close> holds, that the operation destroys a channel that is handling
  events.
\<close>

definition ends_but :: "bool \<Rightarrow> ('a \<Rightarrow> bool) \<Rightarrow> 'a result \<Rightarrow> bool" where
  "ends_but b P r \<longleftrightarrow> ends_in P r \<or> (b \<and> r = Inl ChannelInUse)"

lemma ends_but_simps [simp]:
  "ends_but b P (Inr x) = P x" "ends_but b P (Inl e) = (e = LengthError \<or> (b \<and> e = ChannelInUse))" "ends_but False P r = ends_in P r"
  by (auto simp: ends_but_def)

lemma ends_in_but: "ends_in P r \<Longrightarrow> ends_but b P r"
  by (simp add: ends_but_def)

lemma ends_but_bindR:
  "ends_but a Q m \<Longrightarrow> (\<And>x. Q x \<Longrightarrow> ends_but b P (f x)) \<Longrightarrow> ends_but (a \<or> b) P (bindR m f)"
  by (cases m) (auto simp: ends_but_def)

lemma ends_but_mono: "ends_but a Q m \<Longrightarrow> (\<And>x. Q x \<Longrightarrow> P x) \<Longrightarrow> (a \<Longrightarrow> b) \<Longrightarrow> ends_but b P m"
  by (cases m) auto

subsection \<open>\<open>size_t\<close>\<close>

text \<open>
  \<open>size_t\<close> is unsigned and 64 bits wide; its values are natural numbers below \<open>2 ^ 64\<close> and its
  sums and differences are taken modulo \<open>2 ^ 64\<close>. Where the operands show that nothing wraps,
  the two lemmas below turn them into the plain operations on \<open>nat\<close>.
\<close>

definition size_mod :: nat where
  "size_mod = 2 ^ 64"

definition szadd :: "nat \<Rightarrow> nat \<Rightarrow> nat" where
  "szadd a b = (a + b) mod size_mod"

definition szsub :: "nat \<Rightarrow> nat \<Rightarrow> nat" where
  "szsub a b = (a + (size_mod - b)) mod size_mod"

lemma size_mod_pos [simp]: "0 < size_mod"
  by (simp add: size_mod_def)

lemma szadd_exact: "a + b < size_mod \<Longrightarrow> szadd a b = a + b"
  by (simp add: szadd_def)

lemma szsub_exact: "b \<le> a \<Longrightarrow> a < size_mod \<Longrightarrow> szsub a b = a - b"
proof -
  assume le: "b \<le> a" and lt: "a < size_mod"
  then have "a + (size_mod - b) = size_mod + (a - b)" by simp
  moreover have "a - b < size_mod" using lt by simp
  ultimately show ?thesis by (simp add: szsub_def)
qed

text \<open>The largest size of a \<open>std::vector<char>\<close>: \<open>PTRDIFF_MAX\<close> elements.\<close>

definition vec_max :: nat where
  "vec_max = 2 ^ 63 - 1"

lemma vec_max_size_mod: "vec_max + vec_max < size_mod" "vec_max < size_mod"
  by (simp_all add: vec_max_def size_mod_def)

lemma vec_max_ge: "131072 < vec_max"
  by (simp add: vec_max_def)

subsection \<open>Ranges of a vector\<close>

text \<open>
  \<open>range_of xs i n\<close> reads \<open>n\<close> elements from index \<open>i\<close>; \<open>overwrite xs i ys\<close> is
  \<open>std::copy\<close> of \<open>ys\<close> to index \<open>i\<close>.
\<close>

definition range_of :: "'a list \<Rightarrow> nat \<Rightarrow> nat \<Rightarrow> 'a list" where
  "range_of xs i n = take n (drop i xs)"

definition overwrite :: "'a list \<Rightarrow> nat \<Rightarrow> 'a list \<Rightarrow> 'a list" where
  "overwrite xs i ys = take i xs @ ys @ drop (i + length ys) xs"

lemma length_overwrite [simp]:
  "i + length ys \<le> length xs \<Longrightarrow> length (overwrite xs i ys) = length xs"
  by (simp add: overwrite_def)

lemma length_range_of [simp]:
  "i + n \<le> length xs \<Longrightarrow> length (range_of xs i n) = n"
  by (simp add: range_of_def)

lemma range_of_0 [simp]: "range_of xs i 0 = []"
  by (simp add: range_of_def)

lemma range_of_overwrite_same:
  "i + length ys \<le> length xs \<Longrightarrow> range_of (overwrite xs i ys) i (length ys) = ys"
  by (simp add: range_of_def overwrite_def)

lemma range_of_overwrite_before:
  "j + n \<le> i \<Longrightarrow> i \<le> length xs \<Longrightarrow> range_of (overwrite xs i ys) j n = range_of xs j n"
  by (simp add: range_of_def overwrite_def drop_take)

lemma range_of_overwrite_after:
  "i + length ys \<le> j \<Longrightarrow> i + length ys \<le> length xs \<Longrightarrow>
   range_of (overwrite xs i ys) j n = range_of xs j n"
  by (simp add: range_of_def overwrite_def)

lemma range_of_split: "range_of xs i (m + n) = range_of xs i m @ range_of xs (i + m) n"
  by (simp add: range_of_def take_add drop_drop add.commute)

lemma drop_range_of: "drop k (range_of xs i n) = range_of xs (i + k) (n - k)"
  by (simp add: range_of_def drop_take drop_drop add.commute)

lemma take_range_of: "take k (range_of xs i n) = range_of xs i (min k n)"
  by (simp add: range_of_def min.commute)

lemma range_of_append_pad:
  "i + n \<le> length xs \<Longrightarrow> range_of (xs @ ys) i n = range_of xs i n"
  by (simp add: range_of_def)

end
