(* ===== verification/Endian.thy ===== *)
theory Endian
  imports Prelude
begin

unbundle bit_operations_syntax

text \<open>
  The integers of \<open>leven/util/Buffer.h\<close> on the wire. The library is built for a little-endian
  host (\<open>-march=native\<close> on x86): the object representation of an \<open>n\<close>-byte integer, which
  \<open>memcpy\<close> and \<open>append(&x, sizeof x)\<close> see, is \<open>le_bytes n\<close>, and \<open>htobe64\<close>, \<open>be64toh\<close> and
  their 32- and 16-bit versions reverse the bytes of the value (\<open>bswap\<close>). Signed and unsigned
  integers share the word; \<open>sint\<close> reads it as signed.
\<close>

definition le_bytes :: "nat \<Rightarrow> 'a::len word \<Rightarrow> byte list" where
  "le_bytes n w = map (\<lambda>i. ucast (drop_bit (8 * i) w)) [0..<n]"

fun of_le_bytes :: "byte list \<Rightarrow> 'a::len word" where
  "of_le_bytes [] = 0"
| "of_le_bytes (b # bs) = ucast b OR push_bit 8 (of_le_bytes bs)"

definition bswap :: "nat \<Rightarrow> 'a::len word \<Rightarrow> 'a word" where
  "bswap n w = of_le_bytes (rev (le_bytes n w))"

definition be_bytes :: "nat \<Rightarrow> 'a::len word \<Rightarrow> byte list" where
  "be_bytes n w = map (\<lambda>i. ucast (drop_bit (8 * (n - 1 - i)) w)) [0..<n]"

lemma length_le_bytes [simp]: "length (le_bytes n w) = n"
  by (simp add: le_bytes_def)

lemma length_be_bytes [simp]: "length (be_bytes n w) = n"
  by (simp add: be_bytes_def)

lemma bit_of_le_bytes:
  "bit (of_le_bytes bs :: 'a::len word) i \<longleftrightarrow>
     i < LENGTH('a) \<and> i < 8 * length bs \<and> bit (bs ! (i div 8)) (i mod 8)"
proof (induction bs arbitrary: i)
  case Nil
  then show ?case by simp
next
  case (Cons b bs)
  show ?case
  proof (cases "i < 8")
    case True
    then show ?thesis by (auto simp: bit_simps)
  next
    case False
    then obtain j where j: "i = 8 + j" using le_Suc_ex by (metis not_less)
    have dv: "(8 + j) div 8 = Suc (j div 8)" by simp
    have "\<not> bit b i" using False bit_imp_le_length[of b i] by auto
    with Cons.IH[of j] j show ?thesis by (auto simp: bit_simps dv)
  qed
qed

lemma bit_le_bytes_nth:
  fixes w :: "'a::len word"
  assumes "k < n"
  shows "bit (le_bytes n w ! k) m \<longleftrightarrow> m < 8 \<and> bit w (8 * k + m)"
  using assms by (auto simp: le_bytes_def bit_simps dest: bit_imp_le_length)

lemma of_le_bytes_le_bytes:
  fixes w :: "'a::len word"
  assumes "LENGTH('a) \<le> 8 * n"
  shows "of_le_bytes (le_bytes n w) = w"
proof (rule bit_word_eqI)
  fix i assume i: "i < LENGTH('a)"
  with assms have "i div 8 < n" by auto
  then show "bit (of_le_bytes (le_bytes n w) :: 'a word) i = bit w i"
    using i assms by (simp add: bit_of_le_bytes bit_le_bytes_nth)
qed

lemma le_bytes_of_le_bytes:
  assumes "8 * length bs \<le> LENGTH('a::len)"
  shows "le_bytes (length bs) (of_le_bytes bs :: 'a word) = bs"
proof (rule nth_equalityI)
  fix k assume k: "k < length (le_bytes (length bs) (of_le_bytes bs :: 'a word))"
  then have k': "k < length bs" by simp
  show "le_bytes (length bs) (of_le_bytes bs :: 'a word) ! k = bs ! k"
  proof (rule bit_word_eqI)
    fix m assume "m < LENGTH(8)"
    then have m: "m < 8" by simp
    have "8 * k + m < 8 * length bs" using k' m by linarith
    with assms m k' show "bit (le_bytes (length bs) (of_le_bytes bs :: 'a word) ! k) m = bit (bs ! k) m"
      by (simp add: bit_le_bytes_nth bit_of_le_bytes)
  qed
qed simp

lemma rev_le_bytes: "rev (le_bytes n w) = be_bytes n w"
  by (rule nth_equalityI) (simp_all add: le_bytes_def be_bytes_def rev_nth)

lemma le_bytes_bswap:
  fixes w :: "'a::len word"
  assumes "LENGTH('a) = 8 * n"
  shows "le_bytes n (bswap n w) = be_bytes n w"
  using le_bytes_of_le_bytes[of "rev (le_bytes n w)", where 'a = 'a] assms
  by (simp add: bswap_def rev_le_bytes)

lemma bswap_bswap:
  fixes w :: "'a::len word"
  assumes "LENGTH('a) = 8 * n"
  shows "bswap n (bswap n w) = w"
proof -
  have "bswap n (bswap n w) = of_le_bytes (rev (be_bytes n w))"
    unfolding bswap_def[of n "bswap n w"] le_bytes_bswap[OF assms] ..
  also have "rev (be_bytes n w) = le_bytes n w"
    by (simp flip: rev_le_bytes)
  finally show ?thesis by (simp add: of_le_bytes_le_bytes assms)
qed

definition htobe64 :: "64 word \<Rightarrow> 64 word" where "htobe64 x = bswap 8 x"
definition htobe32 :: "32 word \<Rightarrow> 32 word" where "htobe32 x = bswap 4 x"
definition htobe16 :: "16 word \<Rightarrow> 16 word" where "htobe16 x = bswap 2 x"
definition be64toh :: "64 word \<Rightarrow> 64 word" where "be64toh x = bswap 8 x"
definition be32toh :: "32 word \<Rightarrow> 32 word" where "be32toh x = bswap 4 x"
definition be16toh :: "16 word \<Rightarrow> 16 word" where "be16toh x = bswap 2 x"

lemma le_bytes_htobe [simp]:
  "le_bytes 8 (htobe64 x) = be_bytes 8 x"
  "le_bytes 4 (htobe32 y) = be_bytes 4 y"
  "le_bytes 2 (htobe16 z) = be_bytes 2 z"
  by (simp_all add: htobe64_def htobe32_def htobe16_def le_bytes_bswap)

lemma betoh_of_le_bytes_be [simp]:
  "be64toh (of_le_bytes (be_bytes 8 x)) = x"
  "be32toh (of_le_bytes (be_bytes 4 y)) = y"
  "be16toh (of_le_bytes (be_bytes 2 z)) = z"
proof -
  have *: "of_le_bytes (be_bytes n w) = bswap n w" for n and w :: "'b::len word"
    by (simp add: bswap_def rev_le_bytes)
  show "be64toh (of_le_bytes (be_bytes 8 x)) = x"
    "be32toh (of_le_bytes (be_bytes 4 y)) = y"
    "be16toh (of_le_bytes (be_bytes 2 z)) = z"
    by (simp_all add: * be64toh_def be32toh_def be16toh_def bswap_bswap)
qed

end
