(* ===== verification/Byte_Stream.thy ===== *)
theory Byte_Stream
  imports Prelude
begin

text \<open>
  The interface between a connection and its buffers: a first-in first-out store of bytes, as an
  abstract type with a view (the stored bytes), a measure \<open>used\<close> bounded by a capacity, and two
  operations. The laws are what \<open>leven/TcpConnection.cc\<close> relies on; the locale proves once that
  any sequence of operations moves the stream of bytes through unchanged. \<open>Buffer\<close> provides the
  operations.
\<close>

datatype fifo_op = Push "byte list" | Pop nat

fun pushed :: "fifo_op list \<Rightarrow> byte list" where
  "pushed [] = []"
| "pushed (Push d # ops) = d @ pushed ops"
| "pushed (Pop n # ops) = pushed ops"

fun pops_fit :: "fifo_op list \<Rightarrow> nat \<Rightarrow> bool" where
  "pops_fit [] avail = True"
| "pops_fit (Push d # ops) avail = pops_fit ops (avail + length d)"
| "pops_fit (Pop n # ops) avail = (n \<le> avail \<and> pops_fit ops (avail - n))"

fun fifo_run :: "(byte list \<Rightarrow> 'b \<Rightarrow> 'b result) \<Rightarrow> (nat \<Rightarrow> 'b \<Rightarrow> (byte list \<times> 'b) result)
    \<Rightarrow> fifo_op list \<Rightarrow> 'b \<Rightarrow> (byte list \<times> 'b) result" where
  "fifo_run push pop [] b = Inr ([], b)"
| "fifo_run push pop (Push d # ops) b = bindR (push d b) (fifo_run push pop ops)"
| "fifo_run push pop (Pop n # ops) b =
     bindR (pop n b) (\<lambda>(out, b'). bindR (fifo_run push pop ops b') (\<lambda>(rest, b''). Inr (out @ rest, b'')))"

locale byte_fifo =
  fixes ok :: "'b \<Rightarrow> bool"
    and view :: "'b \<Rightarrow> byte list"
    and used :: "'b \<Rightarrow> nat"
    and cap :: nat
    and push :: "byte list \<Rightarrow> 'b \<Rightarrow> 'b result"
    and pop :: "nat \<Rightarrow> 'b \<Rightarrow> (byte list \<times> 'b) result"
  assumes push_law: "ok b \<Longrightarrow> used b + length d \<le> cap \<Longrightarrow>
      \<exists>b'. push d b = Inr b' \<and> ok b' \<and> view b' = view b @ d \<and> used b' \<le> used b + length d"
    and pop_law: "ok b \<Longrightarrow> n \<le> length (view b) \<Longrightarrow>
      \<exists>b'. pop n b = Inr (take n (view b), b') \<and> ok b' \<and> view b' = drop n (view b) \<and> used b' \<le> used b"
    and pop_overrun: "ok b \<Longrightarrow> length (view b) < n \<Longrightarrow> pop n b = Inl AssertFailed"
begin

lemma run_stream:
  assumes "ok b" "used b + length (pushed ops) \<le> cap" "pops_fit ops (length (view b))"
  shows "\<exists>out b'. fifo_run push pop ops b = Inr (out, b') \<and> ok b' \<and> out @ view b' = view b @ pushed ops"
  using assms
proof (induction ops arbitrary: b)
  case Nil
  then show ?case by simp
next
  case (Cons op ops)
  show ?case
  proof (cases op)
    case (Push d)
    with Cons.prems have "used b + length d \<le> cap" by simp
    from push_law[OF Cons.prems(1) this] obtain b1 where b1: "push d b = Inr b1" "ok b1"
      "view b1 = view b @ d" "used b1 \<le> used b + length d" by blast
    from b1 Cons.prems Push have "used b1 + length (pushed ops) \<le> cap"
      "pops_fit ops (length (view b1))" by simp_all
    from Cons.IH[OF b1(2) this] b1 Push show ?thesis by auto
  next
    case (Pop n)
    with Cons.prems have "n \<le> length (view b)" by simp
    from pop_law[OF Cons.prems(1) this] obtain b1 where b1: "pop n b = Inr (take n (view b), b1)"
      "ok b1" "view b1 = drop n (view b)" "used b1 \<le> used b" by blast
    from b1 Cons.prems Pop have fit: "used b1 + length (pushed ops) \<le> cap"
      "pops_fit ops (length (view b1))" by simp_all
    from Cons.IH[OF b1(2) fit] obtain out b' where "fifo_run push pop ops b1 = Inr (out, b')" "ok b'"
      "out @ view b' = view b1 @ pushed ops" by blast
    with b1 Pop show ?thesis by simp
  qed
qed

lemma run_pops_fit:
  assumes "ok b" "used b + length (pushed ops) \<le> cap" "fifo_run push pop ops b = Inr r"
  shows "pops_fit ops (length (view b))"
  using assms
proof (induction ops arbitrary: b r)
  case Nil
  then show ?case by simp
next
  case (Cons op ops)
  show ?case
  proof (cases op)
    case (Push d)
    with Cons.prems have "used b + length d \<le> cap" by simp
    from push_law[OF Cons.prems(1) this] Cons Push show ?thesis by fastforce
  next
    case (Pop n)
    have le: "n \<le> length (view b)"
      using pop_overrun[OF Cons.prems(1), of n] Cons.prems(3) Pop by (cases "n \<le> length (view b)") auto
    from pop_law[OF Cons.prems(1) le] obtain b1 where b1: "pop n b = Inr (take n (view b), b1)"
      "ok b1" "view b1 = drop n (view b)" "used b1 \<le> used b" by blast
    from Cons.prems(3) Pop b1 obtain r' where "fifo_run push pop ops b1 = Inr r'"
      by (auto simp: bindR_Inr_iff)
    moreover have "used b1 + length (pushed ops) \<le> cap" using b1 Cons.prems Pop by simp
    ultimately have "pops_fit ops (length (view b1))" using Cons.IH b1 by blast
    with le Pop b1 show ?thesis by simp
  qed
qed

end

end
