(* ===== verification/Buffer.thy ===== *)
theory Buffer
  imports Endian Byte_Stream
begin

text \<open>
  \<open>leven/util/Buffer.h\<close> and \<open>Buffer.cc\<close>: a growable byte vector with a read and a write index.
  \<^verbatim>\<open>
  +-------------------+------------------+------------------+
  | prependable bytes |  readable bytes  |  writable bytes  |
  +-------------------+------------------+------------------+
  0      <=      readerIndex   <=   writerIndex    <=     size
  \<close>
  The fields drop the trailing underscore of the C++ members; \<open>bytes\<close> is \<open>buffer_\<close>.
  A pointer into the buffer (\<open>peek\<close>, \<open>beginWrite\<close>, the result of \<open>findCRLF\<close>) is its offset
  from \<open>begin()\<close>. Every \<open>assert\<close> of the code is an \<open>assertR\<close>; growing the vector beyond
  \<open>max_size()\<close> is the \<open>length_error\<close> of \<open>std::vector\<close>; running out of memory is not modelled.
\<close>

record buffer =
  bytes :: "byte list"
  readerIndex :: nat
  writerIndex :: nat

definition kCheapPrepend :: nat where "kCheapPrepend = 8"
definition kInitialSize :: nat where "kInitialSize = 1024"
definition kCRLF :: "byte list" where "kCRLF = [13, 10]"

declare kCheapPrepend_def [simp] kInitialSize_def [simp]

subsection \<open>Sizes and pointers\<close>

definition readableBytes :: "buffer \<Rightarrow> nat" where
  "readableBytes b = szsub (writerIndex b) (readerIndex b)"

definition writableBytes :: "buffer \<Rightarrow> nat" where
  "writableBytes b = szsub (length (bytes b)) (writerIndex b)"

definition prependableBytes :: "buffer \<Rightarrow> nat" where
  "prependableBytes b = readerIndex b"

definition peek :: "buffer \<Rightarrow> nat" where
  "peek b = readerIndex b"

definition beginWrite :: "buffer \<Rightarrow> nat" where
  "beginWrite b = writerIndex b"

text \<open>The vector operations of the standard library the code uses.\<close>

definition vec_resize :: "nat \<Rightarrow> byte list \<Rightarrow> byte list result" where
  "vec_resize n xs =
     (if vec_max < n then Inl LengthError
      else Inr (take n xs @ replicate (n - length xs) 0))"

definition std_copy_in :: "byte list \<Rightarrow> nat \<Rightarrow> byte list \<Rightarrow> byte list result" where
  "std_copy_in data d xs =
     (if d + length data \<le> length xs then Inr (overwrite xs d data)
      else Inl UndefinedBehaviour)"

fun copy_loop :: "'a list \<Rightarrow> nat \<Rightarrow> nat \<Rightarrow> nat \<Rightarrow> 'a list" where
  "copy_loop xs i d 0 = xs"
| "copy_loop xs i d (Suc n) = copy_loop (xs[d := xs ! i]) (Suc i) (Suc d) n"

definition std_copy_within :: "nat \<Rightarrow> nat \<Rightarrow> nat \<Rightarrow> byte list \<Rightarrow> byte list result" where
  "std_copy_within i e d xs =
     (if i \<le> e \<and> e \<le> length xs \<and> d + (e - i) \<le> length xs \<and> \<not> (i \<le> d \<and> d < e)
      then Inr (copy_loop xs i d (e - i))
      else Inl UndefinedBehaviour)"

fun std_search :: "byte list \<Rightarrow> byte list \<Rightarrow> nat" where
  "std_search pat [] = 0"
| "std_search pat (x # xs) =
     (if take (length pat) (x # xs) = pat then 0 else Suc (std_search pat xs))"

fun std_memchr :: "byte \<Rightarrow> byte list \<Rightarrow> nat option" where
  "std_memchr c [] = None"
| "std_memchr c (x # xs) = (if x = c then Some 0 else map_option Suc (std_memchr c xs))"

subsection \<open>Constructor and searching\<close>

definition Buffer_new :: "nat \<Rightarrow> buffer result" where
  "Buffer_new initialSize =
     (if vec_max < szadd kCheapPrepend initialSize then Inl LengthError
      else let b = \<lparr>bytes = replicate (szadd kCheapPrepend initialSize) 0,
                    readerIndex = kCheapPrepend, writerIndex = kCheapPrepend\<rparr>
           in assertR (readableBytes b = 0)
               (assertR (writableBytes b = initialSize)
                 (assertR (prependableBytes b = kCheapPrepend) (Inr b))))"

definition swap_buffers :: "buffer \<Rightarrow> buffer \<Rightarrow> buffer \<times> buffer" where
  "swap_buffers a b =
     (a\<lparr>bytes := bytes b, readerIndex := readerIndex b, writerIndex := writerIndex b\<rparr>,
      b\<lparr>bytes := bytes a, readerIndex := readerIndex a, writerIndex := writerIndex a\<rparr>)"

definition findCRLF_from :: "nat \<Rightarrow> buffer \<Rightarrow> nat option result" where
  "findCRLF_from start b =
     assertR (peek b \<le> start) (assertR (start \<le> beginWrite b)
       (let crlf = start + std_search kCRLF (range_of (bytes b) start (beginWrite b - start))
        in Inr (if crlf = beginWrite b then None else Some crlf)))"

definition findCRLF :: "buffer \<Rightarrow> nat option" where
  "findCRLF b =
     (let crlf = peek b + std_search kCRLF (range_of (bytes b) (peek b) (beginWrite b - peek b))
      in if crlf = beginWrite b then None else Some crlf)"

definition findEOL_from :: "nat \<Rightarrow> buffer \<Rightarrow> nat option result" where
  "findEOL_from start b =
     assertR (peek b \<le> start) (assertR (start \<le> beginWrite b)
       (Inr (map_option (\<lambda>k. start + k)
              (std_memchr 10 (range_of (bytes b) start (beginWrite b - start))))))"

definition findEOL :: "buffer \<Rightarrow> nat option" where
  "findEOL b =
     map_option (\<lambda>k. peek b + k) (std_memchr 10 (range_of (bytes b) (peek b) (readableBytes b)))"

subsection \<open>Retrieving\<close>

definition retrieveAll :: "buffer \<Rightarrow> buffer" where
  "retrieveAll b = b\<lparr>readerIndex := kCheapPrepend, writerIndex := kCheapPrepend\<rparr>"

definition retrieve :: "nat \<Rightarrow> buffer \<Rightarrow> buffer result" where
  "retrieve len b =
     assertR (len \<le> readableBytes b)
       (Inr (if len < readableBytes b then b\<lparr>readerIndex := szadd (readerIndex b) len\<rparr>
             else retrieveAll b))"

definition retrieveUntil :: "nat \<Rightarrow> buffer \<Rightarrow> buffer result" where
  "retrieveUntil e b =
     assertR (peek b \<le> e) (assertR (e \<le> beginWrite b) (retrieve (e - peek b) b))"

definition retrieveInt64 :: "buffer \<Rightarrow> buffer result" where "retrieveInt64 b = retrieve 8 b"
definition retrieveInt32 :: "buffer \<Rightarrow> buffer result" where "retrieveInt32 b = retrieve 4 b"
definition retrieveInt16 :: "buffer \<Rightarrow> buffer result" where "retrieveInt16 b = retrieve 2 b"
definition retrieveInt8 :: "buffer \<Rightarrow> buffer result" where "retrieveInt8 b = retrieve 1 b"

definition retrieveAsString :: "nat \<Rightarrow> buffer \<Rightarrow> (byte list \<times> buffer) result" where
  "retrieveAsString len b =
     assertR (len \<le> readableBytes b)
       (bindR (retrieve len b) (\<lambda>b'. Inr (range_of (bytes b) (peek b) len, b')))"

definition retrieveAllAsString :: "buffer \<Rightarrow> (byte list \<times> buffer) result" where
  "retrieveAllAsString b = retrieveAsString (readableBytes b) b"

subsection \<open>Appending and prepending\<close>

definition makeSpace :: "nat \<Rightarrow> buffer \<Rightarrow> buffer result" where
  "makeSpace len b =
     (if szadd (writableBytes b) (prependableBytes b) < szadd len kCheapPrepend
      then bindR (vec_resize (szadd (writerIndex b) len) (bytes b))
             (\<lambda>xs. Inr (b\<lparr>bytes := xs\<rparr>))
      else assertR (kCheapPrepend < readerIndex b)
        (let readable = readableBytes b
         in bindR (std_copy_within (readerIndex b) (writerIndex b) kCheapPrepend (bytes b))
              (\<lambda>xs. let b' = b\<lparr>bytes := xs, readerIndex := kCheapPrepend,
                               writerIndex := szadd kCheapPrepend readable\<rparr>
                    in assertR (readable = readableBytes b') (Inr b'))))"

definition ensureWritableBytes :: "nat \<Rightarrow> buffer \<Rightarrow> buffer result" where
  "ensureWritableBytes len b =
     bindR (if writableBytes b < len then makeSpace len b else Inr b)
       (\<lambda>b'. assertR (len \<le> writableBytes b') (Inr b'))"

definition hasWritten :: "nat \<Rightarrow> buffer \<Rightarrow> buffer result" where
  "hasWritten len b =
     assertR (len \<le> writableBytes b) (Inr (b\<lparr>writerIndex := szadd (writerIndex b) len\<rparr>))"

definition append_bytes :: "byte list \<Rightarrow> buffer \<Rightarrow> buffer result" where
  "append_bytes data b =
     bindR (ensureWritableBytes (length data) b)
       (\<lambda>b1. bindR (std_copy_in data (beginWrite b1) (bytes b1))
         (\<lambda>xs. hasWritten (length data) (b1\<lparr>bytes := xs\<rparr>)))"

definition prepend :: "byte list \<Rightarrow> buffer \<Rightarrow> buffer result" where
  "prepend data b =
     assertR (length data \<le> prependableBytes b)
       (let b1 = b\<lparr>readerIndex := szsub (readerIndex b) (length data)\<rparr>
        in bindR (std_copy_in data (readerIndex b1) (bytes b1))
             (\<lambda>xs. Inr (b1\<lparr>bytes := xs\<rparr>)))"

definition appendInt64 :: "64 word \<Rightarrow> buffer \<Rightarrow> buffer result" where
  "appendInt64 x b = append_bytes (le_bytes 8 (htobe64 x)) b"
definition appendInt32 :: "32 word \<Rightarrow> buffer \<Rightarrow> buffer result" where
  "appendInt32 x b = append_bytes (le_bytes 4 (htobe32 x)) b"
definition appendInt16 :: "16 word \<Rightarrow> buffer \<Rightarrow> buffer result" where
  "appendInt16 x b = append_bytes (le_bytes 2 (htobe16 x)) b"
definition appendInt8 :: "8 word \<Rightarrow> buffer \<Rightarrow> buffer result" where
  "appendInt8 x b = append_bytes (le_bytes 1 x) b"

definition prependInt64 :: "64 word \<Rightarrow> buffer \<Rightarrow> buffer result" where
  "prependInt64 x b = prepend (le_bytes 8 (htobe64 x)) b"
definition prependInt32 :: "32 word \<Rightarrow> buffer \<Rightarrow> buffer result" where
  "prependInt32 x b = prepend (le_bytes 4 (htobe32 x)) b"
definition prependInt16 :: "16 word \<Rightarrow> buffer \<Rightarrow> buffer result" where
  "prependInt16 x b = prepend (le_bytes 2 (htobe16 x)) b"
definition prependInt8 :: "8 word \<Rightarrow> buffer \<Rightarrow> buffer result" where
  "prependInt8 x b = prepend (le_bytes 1 x) b"

subsection \<open>Reading integers\<close>

definition peekInt64 :: "buffer \<Rightarrow> 64 word result" where
  "peekInt64 b = assertR (8 \<le> readableBytes b)
     (Inr (be64toh (of_le_bytes (range_of (bytes b) (peek b) 8))))"
definition peekInt32 :: "buffer \<Rightarrow> 32 word result" where
  "peekInt32 b = assertR (4 \<le> readableBytes b)
     (Inr (be32toh (of_le_bytes (range_of (bytes b) (peek b) 4))))"
definition peekInt16 :: "buffer \<Rightarrow> 16 word result" where
  "peekInt16 b = assertR (2 \<le> readableBytes b)
     (Inr (be16toh (of_le_bytes (range_of (bytes b) (peek b) 2))))"
definition peekInt8 :: "buffer \<Rightarrow> 8 word result" where
  "peekInt8 b = assertR (1 \<le> readableBytes b)
     (Inr (of_le_bytes (range_of (bytes b) (peek b) 1)))"

definition readInt64 :: "buffer \<Rightarrow> (64 word \<times> buffer) result" where
  "readInt64 b = bindR (peekInt64 b) (\<lambda>x. bindR (retrieveInt64 b) (\<lambda>b'. Inr (x, b')))"
definition readInt32 :: "buffer \<Rightarrow> (32 word \<times> buffer) result" where
  "readInt32 b = bindR (peekInt32 b) (\<lambda>x. bindR (retrieveInt32 b) (\<lambda>b'. Inr (x, b')))"
definition readInt16 :: "buffer \<Rightarrow> (16 word \<times> buffer) result" where
  "readInt16 b = bindR (peekInt16 b) (\<lambda>x. bindR (retrieveInt16 b) (\<lambda>b'. Inr (x, b')))"
definition readInt8 :: "buffer \<Rightarrow> (8 word \<times> buffer) result" where
  "readInt8 b = bindR (peekInt8 b) (\<lambda>x. bindR (retrieveInt8 b) (\<lambda>b'. Inr (x, b')))"

subsection \<open>Reading from a file descriptor\<close>

text \<open>
  \<open>readv\<close> is the system call: given the total length of the two vectors it returns the bytes it
  stored (first in \<open>vec[0]\<close>, the writable part of the buffer, then in \<open>extrabuf\<close>) or an \<open>errno\<close>.
  Its documented bound, at most as many bytes as the vectors hold, is a hypothesis of the theorems.
  The result is the return value \<open>n\<close>, the buffer, and the \<open>errno\<close> stored in \<open>*savedErrno\<close>.
\<close>

datatype sysread = ReadFail int | ReadOk "byte list"

definition readv_capacity :: "buffer \<Rightarrow> nat" where
  "readv_capacity b = (if writableBytes b < 65536 then writableBytes b + 65536 else writableBytes b)"

definition readFd :: "(nat \<Rightarrow> sysread) \<Rightarrow> buffer \<Rightarrow> (int \<times> buffer \<times> int option) result" where
  "readFd readv b =
     (let writable = writableBytes b in
      case readv (readv_capacity b) of
        ReadFail e \<Rightarrow> Inr (-1, b, Some e)
      | ReadOk bs \<Rightarrow>
          bindR (std_copy_in (take writable bs) (writerIndex b) (bytes b)) (\<lambda>xs.
            let b1 = b\<lparr>bytes := xs\<rparr>; n = length bs in
            if n \<le> writable
            then Inr (int n, b1\<lparr>writerIndex := szadd (writerIndex b1) n\<rparr>, None)
            else bindR (append_bytes (drop writable bs) (b1\<lparr>writerIndex := length (bytes b1)\<rparr>))
                   (\<lambda>b2. Inr (int n, b2, None))))"


subsection \<open>Invariant and abstraction\<close>

text \<open>
  \<open>buf_ok\<close> is the representation invariant, \<open>content\<close> the sequence of readable bytes, which is
  all a client of the buffer observes.
\<close>

definition buf_ok :: "buffer \<Rightarrow> bool" where
  "buf_ok b \<longleftrightarrow> kCheapPrepend \<le> writerIndex b \<and> readerIndex b \<le> writerIndex b
     \<and> writerIndex b \<le> length (bytes b) \<and> length (bytes b) \<le> vec_max"

definition content :: "buffer \<Rightarrow> byte list" where
  "content b = range_of (bytes b) (readerIndex b) (writerIndex b - readerIndex b)"

lemma buf_okD:
  assumes "buf_ok b"
  shows "8 \<le> writerIndex b" "readerIndex b \<le> writerIndex b" "writerIndex b \<le> length (bytes b)"
    "length (bytes b) \<le> vec_max" "writerIndex b < size_mod" "length (bytes b) < size_mod"
  using assms vec_max_size_mod by (auto simp: buf_ok_def)

lemma buf_sizes:
  assumes "buf_ok b"
  shows "readableBytes b = writerIndex b - readerIndex b"
    "writableBytes b = length (bytes b) - writerIndex b"
    "prependableBytes b = readerIndex b"
  using buf_okD[OF assms]
  by (simp_all add: readableBytes_def writableBytes_def prependableBytes_def szsub_exact)

lemma length_content: "buf_ok b \<Longrightarrow> length (content b) = writerIndex b - readerIndex b"
  by (simp add: buf_ok_def content_def)

lemma readable_content: "buf_ok b \<Longrightarrow> readableBytes b = length (content b)"
  by (simp add: buf_sizes length_content)

lemma range_content:
  assumes "buf_ok b" "len \<le> length (content b)"
  shows "range_of (bytes b) (readerIndex b) len = take len (content b)"
proof -
  have "min len (writerIndex b - readerIndex b) = len"
    using assms by (simp add: length_content)
  then show ?thesis by (simp add: content_def take_range_of)
qed

text \<open>An overlapping copy to the left, element by element, is the copy of the old range.\<close>

lemma length_copy_loop [simp]: "length (copy_loop xs i d n) = length xs"
  by (induction xs i d n rule: copy_loop.induct) simp_all

lemma nth_copy_loop:
  assumes "d \<le> i" "i + n \<le> length xs" "k < length xs"
  shows "copy_loop xs i d n ! k = (if d \<le> k \<and> k < d + n then xs ! (i + (k - d)) else xs ! k)"
  using assms
proof (induction xs i d n rule: copy_loop.induct)
  case (1 xs i d)
  then show ?case by auto
next
  case (2 xs i d n)
  have "copy_loop (xs[d := xs ! i]) (Suc i) (Suc d) n ! k =
      (if Suc d \<le> k \<and> k < Suc d + n then xs[d := xs ! i] ! (Suc i + (k - Suc d))
       else xs[d := xs ! i] ! k)"
    using 2 by (intro "2.IH") simp_all
  moreover have "Suc (i + k - Suc d) = i + k - d" if "Suc d \<le> k"
    using that by linarith
  ultimately show ?case using 2 by (auto simp: nth_list_update not_less_eq_eq le_Suc_eq)
qed

lemma copy_loop_overwrite:
  assumes "d \<le> i" "i + n \<le> length xs"
  shows "copy_loop xs i d n = overwrite xs d (range_of xs i n)"
proof (rule nth_equalityI)
  show "length (copy_loop xs i d n) = length (overwrite xs d (range_of xs i n))"
    using assms by simp
  fix k assume "k < length (copy_loop xs i d n)"
  then show "copy_loop xs i d n ! k = overwrite xs d (range_of xs i n) ! k"
    using assms by (auto simp: nth_copy_loop overwrite_def range_of_def nth_append min_def)
qed

subsection \<open>Each operation keeps the invariant and acts on the content\<close>

lemma Buffer_new_ok:
  assumes "n + 8 \<le> vec_max"
  shows "\<exists>b. Buffer_new n = Inr b \<and> buf_ok b \<and> content b = [] \<and> writerIndex b = 8
           \<and> writableBytes b = n"
proof -
  have "n + 8 < size_mod" using assms vec_max_size_mod by linarith
  then show ?thesis
    using assms by (simp add: Buffer_new_def szadd_exact Let_def readableBytes_def writableBytes_def
        prependableBytes_def szsub_exact buf_ok_def content_def)
qed

lemma retrieveAll_ok:
  "buf_ok b \<Longrightarrow> buf_ok (retrieveAll b)"
  "content (retrieveAll b) = []"
  "buf_ok b \<Longrightarrow> writerIndex (retrieveAll b) \<le> writerIndex b"
  by (simp_all add: retrieveAll_def buf_ok_def content_def)

lemma retrieve_ok:
  assumes "buf_ok b" "len \<le> length (content b)"
  shows "\<exists>b'. retrieve len b = Inr b' \<and> buf_ok b' \<and> content b' = drop len (content b)
           \<and> writerIndex b' \<le> writerIndex b"
proof (cases "len < length (content b)")
  case True
  have "szadd (readerIndex b) len = readerIndex b + len"
    using True buf_okD[OF assms(1)] by (simp add: length_content assms(1) szadd_exact)
  with True assms show ?thesis
    by (simp add: retrieve_def readable_content)
       (simp add: buf_ok_def content_def drop_range_of length_content)
next
  case False
  with assms show ?thesis
    by (simp add: retrieve_def readable_content retrieveAll_ok)
qed

lemma retrieve_overrun:
  "buf_ok b \<Longrightarrow> length (content b) < len \<Longrightarrow> retrieve len b = Inl AssertFailed"
  by (simp add: retrieve_def readable_content)

lemma retrieveAsString_ok:
  assumes "buf_ok b" "len \<le> length (content b)"
  shows "\<exists>b'. retrieveAsString len b = Inr (take len (content b), b') \<and> buf_ok b'
           \<and> content b' = drop len (content b) \<and> writerIndex b' \<le> writerIndex b"
  using retrieve_ok[OF assms] assms
  by (auto simp: retrieveAsString_def readable_content peek_def range_content)

lemma retrieveAsString_overrun:
  "buf_ok b \<Longrightarrow> length (content b) < len \<Longrightarrow> retrieveAsString len b = Inl AssertFailed"
  by (simp add: retrieveAsString_def readable_content)

text \<open>
  Making room: either the readable bytes move to the front, or the vector grows; in both cases the
  content is the same and the room is there. The code's \<open>assert(kCheapPrepend < readerIndex_)\<close>
  holds whenever the second branch is taken.
\<close>

lemma makeSpace_grow:
  assumes "buf_ok b" "writableBytes b < len" "writerIndex b + len \<le> vec_max"
    and "length (bytes b) - writerIndex b + readerIndex b < len + 8"
  shows "\<exists>b'. makeSpace len b = Inr b' \<and> buf_ok b' \<and> content b' = content b
           \<and> len \<le> writableBytes b' \<and> writerIndex b' \<le> writerIndex b"
proof -
  note ok = buf_okD[OF assms(1)]
  have eqs: "szadd (writableBytes b) (prependableBytes b) = length (bytes b) - writerIndex b + readerIndex b"
    "szadd len 8 = len + 8" "szadd (writerIndex b) len = writerIndex b + len"
    using ok assms vec_max_size_mod vec_max_ge
    by (simp_all add: szadd_exact buf_sizes)
  define xs where "xs = bytes b @ replicate (writerIndex b + len - length (bytes b)) (0::byte)"
  have len_lt: "length (bytes b) < writerIndex b + len" using assms(2) ok by (simp add: buf_sizes assms(1))
  have mk: "makeSpace len b = Inr (b\<lparr>bytes := xs\<rparr>)"
    using assms(3,4) len_lt by (simp add: makeSpace_def eqs vec_resize_def xs_def)
  have lxs: "length xs = writerIndex b + len" using len_lt by (simp add: xs_def)
  then have ok': "buf_ok (b\<lparr>bytes := xs\<rparr>)" using ok assms(3) by (simp add: buf_ok_def)
  moreover have "content (b\<lparr>bytes := xs\<rparr>) = content b"
    using ok by (simp add: content_def xs_def range_of_append_pad)
  moreover have "writableBytes (b\<lparr>bytes := xs\<rparr>) = len"
    using lxs by (simp add: buf_sizes(2)[OF ok'])
  ultimately show ?thesis using mk by simp
qed

lemma makeSpace_move:
  assumes "buf_ok b" "writableBytes b < len" "len \<le> vec_max"
    and "\<not> length (bytes b) - writerIndex b + readerIndex b < len + 8"
  shows "\<exists>b'. makeSpace len b = Inr b' \<and> buf_ok b' \<and> content b' = content b
           \<and> len \<le> writableBytes b' \<and> writerIndex b' \<le> writerIndex b"
proof -
  note ok = buf_okD[OF assms(1)]
  have eqs: "szadd (writableBytes b) (prependableBytes b) = length (bytes b) - writerIndex b + readerIndex b"
    "szadd len 8 = len + 8"
    using ok assms vec_max_size_mod vec_max_ge by (simp_all add: szadd_exact buf_sizes)
  have r8: "8 < readerIndex b" using assms(2,4) by (simp add: buf_sizes[OF assms(1)])
  define n where "n = writerIndex b - readerIndex b"
  define xs where "xs = overwrite (bytes b) 8 (range_of (bytes b) (readerIndex b) n)"
  define b' where "b' = b\<lparr>bytes := xs, readerIndex := 8, writerIndex := 8 + n\<rparr>"
  have rn: "readerIndex b + n \<le> length (bytes b)" "8 + n \<le> length (bytes b)"
    using ok r8 by (simp_all add: n_def)
  have lxs: "length xs = length (bytes b)" using rn by (simp add: xs_def)
  have copy: "std_copy_within (readerIndex b) (writerIndex b) 8 (bytes b) = Inr xs"
    using ok r8 rn by (simp add: std_copy_within_def copy_loop_overwrite xs_def n_def)
  have n8: "szadd 8 (readableBytes b) = 8 + n"
    using rn ok by (simp add: buf_sizes assms(1) n_def szadd_exact)
  have ok': "buf_ok b'" using ok rn lxs by (simp add: b'_def buf_ok_def)
  have "readableBytes b' = n" by (simp add: buf_sizes(1)[OF ok']) (simp add: b'_def)
  then have mk: "makeSpace len b = Inr b'"
    using assms(4) r8 n8 copy
    by (simp add: makeSpace_def eqs Let_def b'_def[symmetric] buf_sizes(1)[OF assms(1)])
       (simp add: n_def)
  have "content b' = content b"
    using rn range_of_overwrite_same[of 8 "range_of (bytes b) (readerIndex b) n" "bytes b"]
    by (simp add: content_def b'_def xs_def n_def)
  moreover have "len \<le> writableBytes b'"
    using assms(4) r8 ok by (simp add: buf_sizes(2)[OF ok'], simp add: b'_def lxs n_def)
  ultimately show ?thesis using mk ok' r8 ok by (simp add: b'_def n_def)
qed

lemma ensureWritableBytes_ok:
  assumes "buf_ok b" "writerIndex b + len \<le> vec_max"
  shows "\<exists>b'. ensureWritableBytes len b = Inr b' \<and> buf_ok b' \<and> content b' = content b
           \<and> len \<le> writableBytes b' \<and> writerIndex b' \<le> writerIndex b"
proof (cases "writableBytes b < len")
  case True
  have "\<exists>b'. makeSpace len b = Inr b' \<and> buf_ok b' \<and> content b' = content b
           \<and> len \<le> writableBytes b' \<and> writerIndex b' \<le> writerIndex b"
  proof (cases "length (bytes b) - writerIndex b + readerIndex b < len + 8")
    case less: True
    show ?thesis by (rule makeSpace_grow[OF assms(1) True assms(2) less])
  next
    case more: False
    have "len \<le> vec_max" using assms(2) by simp
    then show ?thesis by (rule makeSpace_move[OF assms(1) True _ more])
  qed
  with True show ?thesis by (auto simp: ensureWritableBytes_def)
next
  case False
  with assms show ?thesis by (simp add: ensureWritableBytes_def)
qed

lemma append_fitting:
  assumes "buf_ok b" "length data \<le> writableBytes b"
  shows "bindR (std_copy_in data (beginWrite b) (bytes b))
           (\<lambda>xs. hasWritten (length data) (b\<lparr>bytes := xs\<rparr>))
         = Inr (b\<lparr>bytes := overwrite (bytes b) (writerIndex b) data,
                  writerIndex := writerIndex b + length data\<rparr>)" (is "?lhs = Inr ?b'")
    and "buf_ok (b\<lparr>bytes := overwrite (bytes b) (writerIndex b) data,
                  writerIndex := writerIndex b + length data\<rparr>)"
    and "content (b\<lparr>bytes := overwrite (bytes b) (writerIndex b) data,
                  writerIndex := writerIndex b + length data\<rparr>) = content b @ data"
proof -
  note ok = buf_okD[OF assms(1)]
  have fits: "writerIndex b + length data \<le> length (bytes b)"
    using assms(2) ok by (simp add: buf_sizes assms(1))
  let ?xs = "overwrite (bytes b) (writerIndex b) data"
  have ok1: "buf_ok (b\<lparr>bytes := ?xs\<rparr>)" using assms(1) fits by (simp add: buf_ok_def)
  have "szadd (writerIndex b) (length data) = writerIndex b + length data"
    using fits ok by (simp add: szadd_exact)
  moreover have "length data \<le> writableBytes (b\<lparr>bytes := ?xs\<rparr>)"
    using fits by (simp add: buf_sizes(2)[OF ok1])
  ultimately show "?lhs = Inr ?b'"
    using fits by (simp add: std_copy_in_def beginWrite_def hasWritten_def)
  show "buf_ok ?b'" using ok fits by (simp add: buf_ok_def)
  obtain n where "writerIndex b = readerIndex b + n" using ok(2) le_Suc_ex by blast
  then show "content ?b' = content b @ data"
    using ok fits
    by (simp add: content_def range_of_split range_of_overwrite_before range_of_overwrite_same)
qed

lemma append_bytes_ok:
  assumes "buf_ok b" "writerIndex b + length data \<le> vec_max"
  shows "\<exists>b'. append_bytes data b = Inr b' \<and> buf_ok b' \<and> content b' = content b @ data
           \<and> writerIndex b' \<le> writerIndex b + length data"
proof -
  from ensureWritableBytes_ok[OF assms] obtain b1 where
    b1: "ensureWritableBytes (length data) b = Inr b1" "buf_ok b1" "content b1 = content b"
      "length data \<le> writableBytes b1" "writerIndex b1 \<le> writerIndex b" by auto
  note fit = append_fitting[OF b1(2,4)]
  show ?thesis
    by (rule exI, rule conjI, simp add: append_bytes_def b1(1) fit(1))
       (use fit b1 in simp)
qed

text \<open>
  Making room for, and appending, any data a C++ object can hold succeeds or ends in the vector's
  \<open>length_error\<close>.
\<close>

lemma ensureWritableBytes_safe:
  assumes "buf_ok b" "len \<le> vec_max"
  shows "ends_in (\<lambda>b'. buf_ok b' \<and> content b' = content b \<and> len \<le> writableBytes b') (ensureWritableBytes len b)"
proof (cases "writerIndex b + len \<le> vec_max")
  case True
  from ensureWritableBytes_ok[OF assms(1) this] show ?thesis by auto
next
  case False
  note ok = buf_okD[OF assms(1)] and sz = buf_sizes[OF assms(1)]
  have short: "writableBytes b < len" using False ok sz by linarith
  show ?thesis
  proof (cases "length (bytes b) - writerIndex b + readerIndex b < len + 8")
    case True
    have "szadd (writerIndex b) len = writerIndex b + len"
      using ok(3,4) assms(2) vec_max_size_mod by (intro szadd_exact) linarith
    moreover have "szadd (length (bytes b) - writerIndex b) (readerIndex b) = length (bytes b) - writerIndex b + readerIndex b"
      using ok vec_max_size_mod by (intro szadd_exact) linarith
    moreover have "szadd len 8 = len + 8"
      using assms(2) vec_max_size_mod vec_max_ge by (intro szadd_exact) linarith
    ultimately have "makeSpace len b = Inl LengthError"
      using True False sz by (simp add: makeSpace_def vec_resize_def)
    then show ?thesis using short by (simp add: ensureWritableBytes_def)
  next
    case nospace: False
    from makeSpace_move[OF assms(1) short assms(2) nospace] short show ?thesis
      by (auto simp: ensureWritableBytes_def)
  qed
qed

lemma append_bytes_safe:
  assumes "buf_ok b" "length data \<le> vec_max"
  shows "ends_in (\<lambda>b'. buf_ok b' \<and> content b' = content b @ data) (append_bytes data b)"
  unfolding append_bytes_def
proof (rule ends_in_bindR[OF ensureWritableBytes_safe[OF assms]])
  fix b1 assume b1: "buf_ok b1 \<and> content b1 = content b \<and> length data \<le> writableBytes b1"
  then have "buf_ok b1" "length data \<le> writableBytes b1" by blast+
  note fit = append_fitting[OF this]
  show "ends_in (\<lambda>b'. buf_ok b' \<and> content b' = content b @ data)
      (bindR (std_copy_in data (beginWrite b1) (bytes b1)) (\<lambda>xs. hasWritten (length data) (b1\<lparr>bytes := xs\<rparr>)))"
    unfolding fit(1) using fit(2,3) b1 by simp
qed

lemma prepend_ok:
  assumes "buf_ok b" "length data \<le> readerIndex b"
  shows "\<exists>b'. prepend data b = Inr b' \<and> buf_ok b' \<and> content b' = data @ content b
           \<and> writerIndex b' = writerIndex b"
proof -
  note ok = buf_okD[OF assms(1)]
  define r where "r = readerIndex b - length data"
  define xs where "xs = overwrite (bytes b) r data"
  define b' where "b' = b\<lparr>bytes := xs, readerIndex := r\<rparr>"
  have r: "szsub (readerIndex b) (length data) = r" "r + length data = readerIndex b"
    using assms(2) ok by (simp_all add: szsub_exact r_def)
  have fits: "r + length data \<le> length (bytes b)" using r ok by simp
  have "prepend data b = Inr b'"
    using assms r fits
    by (simp add: prepend_def prependableBytes_def Let_def std_copy_in_def b'_def xs_def)
  moreover have "buf_ok b'" using ok fits r by (simp add: b'_def buf_ok_def xs_def)
  moreover have "writerIndex b - r = length data + (writerIndex b - readerIndex b)"
    using r ok by simp
  then have "content b' = data @ content b"
    using r fits by (simp add: content_def b'_def xs_def range_of_split range_of_overwrite_same
        range_of_overwrite_after)
  ultimately show ?thesis by (simp add: b'_def)
qed


subsection \<open>The buffer as a byte stream\<close>

interpretation bufq: byte_fifo buf_ok content writerIndex vec_max append_bytes retrieveAsString
  by unfold_locales
     (simp_all only: append_bytes_ok retrieveAsString_ok retrieveAsString_overrun)

text \<open>
  C1. The buffer is a byte queue: starting from a newly built buffer, any sequence of \<open>append\<close> and
  \<open>retrieveAsString\<close> calls that never asks for more than is readable runs without a failed
  assertion or an exception as long as it appends fewer than \<open>2 ^ 63 - 9\<close> bytes in all, and the
  bytes it handed out followed by the bytes still readable are exactly the bytes appended, in order.
\<close>

theorem buffer_byte_queue:
  assumes "Buffer_new n = Inr b" "n + 8 \<le> vec_max" "8 + length (pushed ops) \<le> vec_max" "pops_fit ops 0"
  shows "\<exists>out b'. fifo_run append_bytes retrieveAsString ops b = Inr (out, b') \<and> buf_ok b'
           \<and> out @ content b' = pushed ops"
proof -
  have "buf_ok b" "content b = []" "writerIndex b = 8"
    using Buffer_new_ok[OF assms(2)] assms(1) by auto
  then show ?thesis using bufq.run_stream[of b ops] assms by simp
qed

theorem buffer_byte_queue_witness:
  "\<exists>b out b'. Buffer_new 4 = Inr b \<and>
     fifo_run append_bytes retrieveAsString [Push [1,2,3], Pop 2, Push [4,5,6,7], Pop 5] b = Inr (out, b')
     \<and> out @ content b' = [1,2,3,4,5,6,7]"
proof -
  have le: "4 + 8 \<le> vec_max" using vec_max_ge by simp
  from Buffer_new_ok[OF le] obtain b where b: "Buffer_new 4 = Inr b" by blast
  have "8 + length (pushed [Push [1,2,3], Pop 2, Push [4,5,6,7], Pop 5]) \<le> vec_max"
    using vec_max_ge by simp
  from buffer_byte_queue[OF b le this] b show ?thesis by auto
qed


subsection \<open>Integers in network byte order\<close>

lemma range_prefix:
  assumes "buf_ok b" "content b = xs @ rest"
  shows "range_of (bytes b) (readerIndex b) (length xs) = xs"
  using range_content[OF assms(1), of "length xs"] assms(2) by simp

lemma readInt64_front:
  assumes "buf_ok b" "content b = be_bytes 8 x @ rest"
  shows "\<exists>b'. readInt64 b = Inr (x, b') \<and> buf_ok b' \<and> content b' = rest \<and> writerIndex b' \<le> writerIndex b"
  using retrieve_ok[OF assms(1), of 8] range_prefix[OF assms] assms
  by (auto simp: readInt64_def peekInt64_def retrieveInt64_def readable_content peek_def)

lemma readInt32_front:
  assumes "buf_ok b" "content b = be_bytes 4 x @ rest"
  shows "\<exists>b'. readInt32 b = Inr (x, b') \<and> buf_ok b' \<and> content b' = rest \<and> writerIndex b' \<le> writerIndex b"
  using retrieve_ok[OF assms(1), of 4] range_prefix[OF assms] assms
  by (auto simp: readInt32_def peekInt32_def retrieveInt32_def readable_content peek_def)

lemma readInt16_front:
  assumes "buf_ok b" "content b = be_bytes 2 x @ rest"
  shows "\<exists>b'. readInt16 b = Inr (x, b') \<and> buf_ok b' \<and> content b' = rest \<and> writerIndex b' \<le> writerIndex b"
  using retrieve_ok[OF assms(1), of 2] range_prefix[OF assms] assms
  by (auto simp: readInt16_def peekInt16_def retrieveInt16_def readable_content peek_def)

lemma le_bytes_1: "le_bytes 1 x = be_bytes 1 x"
  by (simp add: le_bytes_def be_bytes_def)

lemma readInt8_front:
  assumes "buf_ok b" "content b = be_bytes 1 x @ rest"
  shows "\<exists>b'. readInt8 b = Inr (x, b') \<and> buf_ok b' \<and> content b' = rest \<and> writerIndex b' \<le> writerIndex b"
proof -
  have "of_le_bytes (be_bytes 1 x) = x"
    using of_le_bytes_le_bytes[of 1 x] le_bytes_1[of x] by simp
  then show ?thesis
    using retrieve_ok[OF assms(1), of 1] range_prefix[OF assms] assms
    by (auto simp: readInt8_def peekInt8_def retrieveInt8_def readable_content peek_def)
qed

text \<open>
  The typed fields of a message, written and read with the methods of their width.
\<close>

datatype wire_int = W64 "64 word" | W32 "32 word" | W16 "16 word" | W8 "8 word"

fun wire_bytes :: "wire_int \<Rightarrow> byte list" where
  "wire_bytes (W64 x) = be_bytes 8 x"
| "wire_bytes (W32 x) = be_bytes 4 x"
| "wire_bytes (W16 x) = be_bytes 2 x"
| "wire_bytes (W8 x) = be_bytes 1 x"

fun append_wire :: "wire_int \<Rightarrow> buffer \<Rightarrow> buffer result" where
  "append_wire (W64 x) b = appendInt64 x b"
| "append_wire (W32 x) b = appendInt32 x b"
| "append_wire (W16 x) b = appendInt16 x b"
| "append_wire (W8 x) b = appendInt8 x b"

fun prepend_wire :: "wire_int \<Rightarrow> buffer \<Rightarrow> buffer result" where
  "prepend_wire (W64 x) b = prependInt64 x b"
| "prepend_wire (W32 x) b = prependInt32 x b"
| "prepend_wire (W16 x) b = prependInt16 x b"
| "prepend_wire (W8 x) b = prependInt8 x b"

text \<open>\<open>read_like w\<close> calls the read method of the width of \<open>w\<close>.\<close>

fun read_like :: "wire_int \<Rightarrow> buffer \<Rightarrow> (wire_int \<times> buffer) result" where
  "read_like (W64 _) b = bindR (readInt64 b) (\<lambda>(x, b'). Inr (W64 x, b'))"
| "read_like (W32 _) b = bindR (readInt32 b) (\<lambda>(x, b'). Inr (W32 x, b'))"
| "read_like (W16 _) b = bindR (readInt16 b) (\<lambda>(x, b'). Inr (W16 x, b'))"
| "read_like (W8 _) b = bindR (readInt8 b) (\<lambda>(x, b'). Inr (W8 x, b'))"

fun read_all_like :: "wire_int list \<Rightarrow> buffer \<Rightarrow> (wire_int list \<times> buffer) result" where
  "read_all_like [] b = Inr ([], b)"
| "read_all_like (w # ws) b =
     bindR (read_like w b) (\<lambda>(v, b1). bindR (read_all_like ws b1) (\<lambda>(vs, b2). Inr (v # vs, b2)))"

lemma append_wire_bytes: "append_wire w b = append_bytes (wire_bytes w) b"
  by (cases w) (simp_all only: append_wire.simps wire_bytes.simps appendInt64_def appendInt32_def
      appendInt16_def appendInt8_def le_bytes_htobe le_bytes_1)

lemma prepend_wire_bytes: "prepend_wire w b = prepend (wire_bytes w) b"
  by (cases w) (simp_all only: prepend_wire.simps wire_bytes.simps prependInt64_def prependInt32_def
      prependInt16_def prependInt8_def le_bytes_htobe le_bytes_1)

lemma read_like_front:
  assumes "buf_ok b" "content b = wire_bytes w @ rest"
  shows "\<exists>b'. read_like w b = Inr (w, b') \<and> buf_ok b' \<and> content b' = rest \<and> writerIndex b' \<le> writerIndex b"
  using assms readInt64_front readInt32_front readInt16_front readInt8_front
  by (cases w) fastforce+

lemma append_all_wire:
  assumes "buf_ok b" "writerIndex b + length (concat (map wire_bytes ws)) \<le> vec_max"
  shows "\<exists>b'. foldR append_wire ws b = Inr b' \<and> buf_ok b'
           \<and> content b' = content b @ concat (map wire_bytes ws)"
  using assms
proof (induction ws arbitrary: b)
  case Nil
  then show ?case by simp
next
  case (Cons w ws)
  then have "writerIndex b + length (wire_bytes w) \<le> vec_max" by simp
  from append_bytes_ok[OF Cons.prems(1) this] obtain b1 where
    b1: "append_wire w b = Inr b1" "buf_ok b1" "content b1 = content b @ wire_bytes w"
      "writerIndex b1 \<le> writerIndex b + length (wire_bytes w)" by (auto simp: append_wire_bytes)
  from Cons.IH[OF b1(2)] b1 Cons.prems(2) show ?case by auto
qed

lemma read_all_front:
  assumes "buf_ok b" "content b = concat (map wire_bytes ws) @ rest"
  shows "\<exists>b'. read_all_like ws b = Inr (ws, b') \<and> buf_ok b' \<and> content b' = rest"
  using assms
proof (induction ws arbitrary: b)
  case Nil
  then show ?case by simp
next
  case (Cons w ws)
  from Cons.prems have "content b = wire_bytes w @ (concat (map wire_bytes ws) @ rest)" by simp
  from read_like_front[OF Cons.prems(1) this] obtain b1 where
    "read_like w b = Inr (w, b1)" "buf_ok b1" "content b1 = concat (map wire_bytes ws) @ rest" by blast
  with Cons.IH[of b1] show ?case by auto
qed

text \<open>
  C2. Round trip of a message of integers: whatever is in the buffer, once it is empty of other
  bytes, appending any sequence of 64-, 32-, 16- and 8-bit integers puts their big-endian bytes on
  the wire, and reading the same widths back returns the same integers and leaves the buffer empty.
\<close>

theorem wire_ints_roundtrip:
  assumes "buf_ok b" "content b = []" "writerIndex b + length (concat (map wire_bytes ws)) \<le> vec_max"
  shows "\<exists>b1 b2. foldR append_wire ws b = Inr b1 \<and> content b1 = concat (map wire_bytes ws)
           \<and> read_all_like ws b1 = Inr (ws, b2) \<and> content b2 = []"
proof -
  from append_all_wire[OF assms(1,3)] assms(2) obtain b1 where
    b1: "foldR append_wire ws b = Inr b1" "buf_ok b1" "content b1 = concat (map wire_bytes ws)" by auto
  with read_all_front[OF b1(2), of ws "[]"] show ?thesis by auto
qed

theorem wire_ints_roundtrip_witness:
  "\<exists>b b1 b2. Buffer_new 1024 = Inr b \<and> foldR append_wire [W32 258, W8 7] b = Inr b1
     \<and> content b1 = [0, 0, 1, 2, 7] \<and> read_all_like [W32 258, W8 7] b1 = Inr ([W32 258, W8 7], b2)"
proof -
  have le: "1024 + 8 \<le> vec_max" using vec_max_ge by simp
  from Buffer_new_ok[OF le] obtain b where
    b: "Buffer_new 1024 = Inr b" "buf_ok b" "content b = []" "writerIndex b = 8" by blast
  have bs: "concat (map wire_bytes [W32 258, W8 7]) = [0, 0, 1, 2, 7]"
    by (simp add: be_bytes_def upt_rec drop_bit_eq_div)
  have "writerIndex b + length (concat (map wire_bytes [W32 258, W8 7])) \<le> vec_max"
    using vec_max_ge b(4) by simp
  from wire_ints_roundtrip[OF b(2,3) this] show ?thesis using b(1) bs by auto
qed

text \<open>
  The reserved header space: in a buffer that still has its eight prependable bytes, a message
  body followed by a prepended integer header of at most eight bytes is the header's big-endian
  bytes and the body, and a reader that takes the header gets the integer and leaves the body.
\<close>

theorem prepend_header_roundtrip:
  assumes "buf_ok b" "length (wire_bytes hdr) \<le> readerIndex b"
  shows "\<exists>b1 b2. prepend_wire hdr b = Inr b1 \<and> content b1 = wire_bytes hdr @ content b
           \<and> read_like hdr b1 = Inr (hdr, b2) \<and> content b2 = content b"
proof -
  from prepend_ok[OF assms] obtain b1 where
    b1: "prepend_wire hdr b = Inr b1" "buf_ok b1" "content b1 = wire_bytes hdr @ content b"
    by (auto simp: prepend_wire_bytes)
  with read_like_front[OF b1(2,3)] show ?thesis by auto
qed

theorem prepend_header_roundtrip_witness:
  "\<exists>b b1 b2. append_bytes [1, 2] b = Inr b1 \<and> content b1 = [1, 2] \<and> prepend_wire (W16 2) b1 = Inr b2
     \<and> content b2 = [0, 2, 1, 2]"
proof -
  let ?b = "\<lparr>bytes = replicate 16 0, readerIndex = 8, writerIndex = 8\<rparr>"
  have ok: "buf_ok ?b" and c: "content ?b = []" using vec_max_ge by (simp_all add: buf_ok_def content_def)
  have w: "length [1, 2::byte] \<le> writableBytes ?b" by (simp add: buf_sizes(2)[OF ok])
  have "ensureWritableBytes (length [1, 2::byte]) ?b = Inr ?b" using w by (simp add: ensureWritableBytes_def)
  then obtain b1 where b1: "append_bytes [1, 2] ?b = Inr b1" "buf_ok b1" "content b1 = [1, 2]"
    "readerIndex b1 = 8"
    using append_fitting[OF ok w] c by (simp add: append_bytes_def)
  have "length (wire_bytes (W16 2)) \<le> readerIndex b1" using b1 by simp
  from prepend_header_roundtrip[OF b1(2) this] b1 show ?thesis
    by (auto simp: be_bytes_def upt_rec)
qed


subsection \<open>\<open>readFd\<close>\<close>

lemma readFd_fits:
  assumes "buf_ok b" "readv (readv_capacity b) = ReadOk bs" "length bs \<le> writableBytes b"
  shows "\<exists>b'. readFd readv b = Inr (int (length bs), b', None) \<and> buf_ok b' \<and> content b' = content b @ bs
           \<and> writerIndex b' = writerIndex b + length bs"
proof -
  note ok = buf_okD[OF assms(1)]
  have fits: "writerIndex b + length bs \<le> length (bytes b)"
    using assms(3) ok by (simp add: buf_sizes assms(1))
  then have "szadd (writerIndex b) (length bs) = writerIndex b + length bs" using ok by (simp add: szadd_exact)
  with fits assms(2,3) show ?thesis
    using append_fitting(2,3)[OF assms(1,3)] by (simp add: readFd_def std_copy_in_def Let_def)
qed

lemma readFd_spill_step:
  assumes "buf_ok b" "readv (readv_capacity b) = ReadOk bs" "writableBytes b < length bs"
  shows "\<exists>b1. buf_ok b1 \<and> content b1 = content b @ take (writableBytes b) bs \<and> writerIndex b1 = length (bytes b)
     \<and> readFd readv b = bindR (append_bytes (drop (writableBytes b) bs) b1) (\<lambda>b2. Inr (int (length bs), b2, None))"
proof -
  note ok = buf_okD[OF assms(1)]
  let ?w = "writableBytes b"
  have w: "?w = length (bytes b) - writerIndex b" by (simp add: buf_sizes assms(1))
  have lt: "length (take ?w bs) \<le> ?w" "length (take ?w bs) = ?w" using assms(3) by simp_all
  define xs where "xs = overwrite (bytes b) (writerIndex b) (take ?w bs)"
  define b1 where "b1 = b\<lparr>bytes := xs, writerIndex := length xs\<rparr>"
  have lxs: "length xs = length (bytes b)" using lt ok w by (simp add: xs_def)
  have "length xs = writerIndex b + length (take ?w bs)" using lxs lt(2) ok w by simp
  then have "buf_ok b1" "content b1 = content b @ take ?w bs"
    using append_fitting(2,3)[OF assms(1) lt(1)] by (simp_all add: b1_def xs_def)
  moreover have "writerIndex b1 = length (bytes b)" by (simp add: b1_def lxs)
  moreover have "std_copy_in (take ?w bs) (writerIndex b) (bytes b) = Inr xs"
    using lt ok w by (simp add: std_copy_in_def xs_def)
  then have "readFd readv b = bindR (append_bytes (drop ?w bs) b1) (\<lambda>b2. Inr (int (length bs), b2, None))"
    using assms(2,3) by (simp add: readFd_def Let_def b1_def)
  ultimately show ?thesis by blast
qed

lemma readFd_spills:
  assumes "buf_ok b" "readv (readv_capacity b) = ReadOk bs" "writableBytes b < length bs"
    and "length (bytes b) + length bs \<le> vec_max"
  shows "\<exists>b'. readFd readv b = Inr (int (length bs), b', None) \<and> buf_ok b' \<and> content b' = content b @ bs
           \<and> writerIndex b' \<le> writerIndex b + length bs"
proof -
  from readFd_spill_step[where readv = readv, OF assms(1-3)] obtain b1 where
    b1: "buf_ok b1" "content b1 = content b @ take (writableBytes b) bs" "writerIndex b1 = length (bytes b)" and
    rd: "readFd readv b = bindR (append_bytes (drop (writableBytes b) bs) b1) (\<lambda>b2. Inr (int (length bs), b2, None))"
    by blast
  have "writerIndex b1 + length (drop (writableBytes b) bs) \<le> vec_max" using assms(4) b1(3) by simp
  from append_bytes_ok[OF b1(1) this] obtain b2 where
    b2: "append_bytes (drop (writableBytes b) bs) b1 = Inr b2" "buf_ok b2"
      "content b2 = content b1 @ drop (writableBytes b) bs"
      "writerIndex b2 \<le> writerIndex b1 + length (drop (writableBytes b) bs)" by blast
  have "writerIndex b2 \<le> writerIndex b + length bs"
    using b2(4) b1(3) assms(3) buf_okD(3)[OF assms(1)] by (simp add: buf_sizes(2)[OF assms(1)])
  then show ?thesis using rd b2(1-3) b1(2) by simp
qed

text \<open>Without the bound on the buffer's size, \<open>readFd\<close> may also end in \<open>length_error\<close>.\<close>

lemma readFd_safe:
  assumes "buf_ok b" "\<And>n bs. readv n = ReadOk bs \<Longrightarrow> length bs \<le> n"
  shows "ends_in (\<lambda>(n, b', e). buf_ok b' \<and> (n = -1 \<and> b' = b
           \<or> (\<exists>bs. n = int (length bs) \<and> content b' = content b @ bs))) (readFd readv b)"
proof (cases "readv (readv_capacity b)")
  case (ReadFail e)
  then show ?thesis using assms(1) by (simp add: readFd_def)
next
  case (ReadOk bs)
  show ?thesis
  proof (cases "length bs \<le> writableBytes b")
    case True
    from readFd_fits[where readv = readv, OF assms(1) ReadOk this] show ?thesis by auto
  next
    case False
    then have "writableBytes b < length bs" by simp
    from readFd_spill_step[where readv = readv, OF assms(1) ReadOk this] obtain b1 where
      b1: "buf_ok b1" "content b1 = content b @ take (writableBytes b) bs" and
      rd: "readFd readv b = bindR (append_bytes (drop (writableBytes b) bs) b1) (\<lambda>b2. Inr (int (length bs), b2, None))"
      by blast
    have "length (drop (writableBytes b) bs) \<le> vec_max"
      using assms(2)[OF ReadOk] vec_max_ge by (auto simp: readv_capacity_def split: if_splits)
    from append_bytes_safe[OF b1(1) this] show ?thesis unfolding rd using b1(2)
      by (auto intro!: ends_in_bindR)
  qed
qed

lemma readFd_ok:
  assumes "buf_ok b" "readv (readv_capacity b) = ReadOk bs" "length (bytes b) + length bs \<le> vec_max"
  shows "\<exists>b'. readFd readv b = Inr (int (length bs), b', None) \<and> buf_ok b' \<and> content b' = content b @ bs
           \<and> writerIndex b' \<le> writerIndex b + length bs"
proof (cases "length bs \<le> writableBytes b")
  case True
  from readFd_fits[where readv = readv, OF assms(1,2) True] show ?thesis by auto
next
  case False
  then have "writableBytes b < length bs" by simp
  from readFd_spills[where readv = readv, OF assms(1,2) this assms(3)] show ?thesis .
qed

lemma readFd_fail: "readv (readv_capacity b) = ReadFail e \<Longrightarrow> readFd readv b = Inr (-1, b, Some e)"
  by (simp add: readFd_def)

text \<open>
  C3. \<open>readFd\<close> with any number of bytes the system call may deliver, in the buffer's own space or
  spilling into the stack buffer: it returns that number, appends exactly those bytes to the
  readable content, keeps the buffer well formed, and never offers the kernel fewer than 65536 bytes
  of space nor, when the stack buffer is used, more than 128k - 1; when the call fails it returns
  -1, reports the \<open>errno\<close> and leaves the buffer as it was.
\<close>

theorem readFd_appends:
  assumes "buf_ok b" "length (bytes b) + 131071 \<le> vec_max"
    and "\<And>n bs. readv n = ReadOk bs \<Longrightarrow> length bs \<le> n"
  shows "(case readv (readv_capacity b) of
      ReadFail e \<Rightarrow> readFd readv b = Inr (-1, b, Some e)
    | ReadOk bs \<Rightarrow> \<exists>b'. readFd readv b = Inr (int (length bs), b', None) \<and> buf_ok b'
        \<and> content b' = content b @ bs)
    \<and> 65536 \<le> readv_capacity b \<and> (writableBytes b < 65536 \<longrightarrow> readv_capacity b \<le> 128 * 1024 - 1)"
proof (cases "readv (readv_capacity b)")
  case (ReadFail e)
  then show ?thesis by (auto simp: readFd_fail readv_capacity_def)
next
  case (ReadOk bs)
  have le: "length bs \<le> readv_capacity b" using assms(3)[OF ReadOk] .
  have "\<exists>b'. readFd readv b = Inr (int (length bs), b', None) \<and> buf_ok b' \<and> content b' = content b @ bs"
  proof (cases "length bs \<le> writableBytes b")
    case True
    from readFd_fits[where readv = readv, OF assms(1) ReadOk True] show ?thesis by auto
  next
    case False
    then have "length bs \<le> 131071" using le by (auto simp: readv_capacity_def split: if_splits)
    with assms(2) have "length (bytes b) + length bs \<le> vec_max" by simp
    from readFd_ok[where readv = readv, OF assms(1) ReadOk this] show ?thesis by auto
  qed
  with ReadOk show ?thesis by (simp add: readv_capacity_def)
qed

theorem readFd_appends_witness:
  "\<exists>b b'. Buffer_new 2 = Inr b
     \<and> readFd (\<lambda>n. ReadOk [104, 101, 108]) b = Inr (3, b', None) \<and> content b' = [104, 101, 108]"
proof -
  have le: "2 + 8 \<le> vec_max" using vec_max_ge by simp
  from Buffer_new_ok[OF le] obtain b where b: "Buffer_new 2 = Inr b" "buf_ok b" "content b = []"
    "writerIndex b = 8" "writableBytes b = 2" by blast
  let ?r = "\<lambda>n::nat. if 3 \<le> n then ReadOk [104, 101, 108] else ReadFail 11"
  have len: "length (bytes b) = 10"
    using b(4,5) buf_okD(3)[OF b(2)] buf_sizes(2)[OF b(2)] by simp
  have cap: "length (bytes b) + 131071 \<le> vec_max" using len by (simp add: vec_max_def)
  have "\<And>n bs. ?r n = ReadOk bs \<Longrightarrow> length bs \<le> n" by (auto split: if_splits)
  from readFd_appends[where readv = ?r, OF b(2) cap this] have
    "\<exists>b'. readFd ?r b = Inr (3, b', None) \<and> content b' = [104, 101, 108]"
    by (auto simp: readv_capacity_def b(3,5))
  moreover have "readFd ?r b = readFd (\<lambda>n. ReadOk [104, 101, 108]) b"
    by (simp add: readFd_def readv_capacity_def b(5))
  ultimately show ?thesis using b(1) by auto
qed

subsection \<open>Searching for line ends\<close>

lemma std_search_le: "std_search pat xs \<le> length xs"
  by (induction xs) auto

lemma std_search_found:
  "std_search pat xs < length xs \<Longrightarrow> take (length pat) (drop (std_search pat xs) xs) = pat"
  by (induction xs) (auto split: if_splits)

lemma std_search_first:
  "k < std_search pat xs \<Longrightarrow> take (length pat) (drop k xs) \<noteq> pat"
proof (induction xs arbitrary: k)
  case Nil
  then show ?case by simp
next
  case (Cons x xs)
  then show ?case by (cases k) (auto split: if_splits)
qed

lemma std_memchr_Some:
  "std_memchr c xs = Some k \<longleftrightarrow> k < length xs \<and> xs ! k = c \<and> (\<forall>j<k. xs ! j \<noteq> c)"
proof (induction xs arbitrary: k)
  case Nil
  then show ?case by simp
next
  case (Cons x xs)
  then show ?case by (cases k) (auto simp: All_less_Suc2)
qed

lemma std_memchr_None: "std_memchr c xs = None \<longleftrightarrow> c \<notin> set xs"
  by (induction xs) auto

text \<open>
  C4. \<open>findCRLF\<close> and \<open>findEOL\<close>: each returns a null pointer exactly when the readable bytes hold no
  carriage-return line-feed pair (no line feed), and otherwise the position of the first one, so
  the bytes before it and the terminator are readable and \<open>retrieveUntil\<close> may be given the result.
\<close>

theorem find_line_end:
  assumes "buf_ok b"
  shows "(case findCRLF b of
      None \<Rightarrow> \<forall>k. take 2 (drop k (content b)) \<noteq> [13, 10]
    | Some p \<Rightarrow> peek b \<le> p \<and> p + 2 \<le> beginWrite b \<and> take 2 (drop (p - peek b) (content b)) = [13, 10]
        \<and> (\<forall>k<p - peek b. take 2 (drop k (content b)) \<noteq> [13, 10])
        \<and> (\<exists>b'. retrieveUntil p b = Inr b' \<and> content b' = drop (p - peek b) (content b)))
    \<and> (case findEOL b of
      None \<Rightarrow> 10 \<notin> set (content b)
    | Some p \<Rightarrow> peek b \<le> p \<and> p < beginWrite b \<and> content b ! (p - peek b) = 10
        \<and> 10 \<notin> set (take (p - peek b) (content b)))"
proof (rule conjI)
  note ok = buf_okD[OF assms]
  have len: "length (content b) = writerIndex b - readerIndex b" by (rule length_content[OF assms])
  let ?k = "std_search [13, 10] (content b)"
  have crlf: "findCRLF b = (if readerIndex b + ?k = writerIndex b then None else Some (readerIndex b + ?k))"
    by (simp add: findCRLF_def Let_def peek_def beginWrite_def content_def kCRLF_def)
  show "case findCRLF b of
      None \<Rightarrow> \<forall>k. take 2 (drop k (content b)) \<noteq> [13, 10]
    | Some p \<Rightarrow> peek b \<le> p \<and> p + 2 \<le> beginWrite b \<and> take 2 (drop (p - peek b) (content b)) = [13, 10]
        \<and> (\<forall>k<p - peek b. take 2 (drop k (content b)) \<noteq> [13, 10])
        \<and> (\<exists>b'. retrieveUntil p b = Inr b' \<and> content b' = drop (p - peek b) (content b))"
  proof (cases "?k < length (content b)")
    case True
    have hit: "take 2 (drop ?k (content b)) = [13, 10]"
      using std_search_found[OF True] by (simp add: numeral_2_eq_2)
    then have "length (take 2 (drop ?k (content b))) = 2" by simp
    then have "?k + 2 \<le> length (content b)" by simp
    moreover have "\<forall>k<?k. take 2 (drop k (content b)) \<noteq> [13, 10]"
      using std_search_first[of _ "[13, 10]" "content b"] by (simp add: numeral_2_eq_2)
    moreover have "\<exists>b'. retrieve ?k b = Inr b' \<and> content b' = drop ?k (content b)"
      using retrieve_ok[OF assms, of ?k] True by auto
    ultimately show ?thesis
      using hit True len ok by (auto simp: crlf peek_def beginWrite_def retrieveUntil_def)
  next
    case False
    then have eq: "?k = length (content b)" using std_search_le[of "[13, 10]" "content b"] by simp
    have "take 2 (drop k (content b)) \<noteq> [13, 10]" for k
      using std_search_first[of k "[13, 10]" "content b"] eq by (cases "k < ?k") (auto simp: numeral_2_eq_2)
    with eq ok show ?thesis by (simp add: crlf len)
  qed
  have eol: "findEOL b = map_option (\<lambda>k. readerIndex b + k) (std_memchr 10 (content b))"
    by (simp add: findEOL_def peek_def content_def buf_sizes(1)[OF assms])
  show "case findEOL b of
      None \<Rightarrow> 10 \<notin> set (content b)
    | Some p \<Rightarrow> peek b \<le> p \<and> p < beginWrite b \<and> content b ! (p - peek b) = 10
        \<and> 10 \<notin> set (take (p - peek b) (content b))"
  proof (cases "std_memchr 10 (content b)")
    case None
    then show ?thesis by (simp add: eol std_memchr_None[symmetric])
  next
    case (Some k)
    then have "k < length (content b)" "content b ! k = 10" "10 \<notin> set (take k (content b))"
      by (auto simp: std_memchr_Some in_set_conv_nth)
    with len ok show ?thesis by (simp add: eol Some peek_def beginWrite_def)
  qed
qed

theorem find_line_end_witness:
  "\<exists>b. buf_ok b \<and> content b = [65, 13, 10, 66] \<and> findCRLF b = Some 9 \<and> findEOL b = Some 10
     \<and> (\<exists>b'. retrieveUntil 9 b = Inr b' \<and> content b' = [13, 10, 66])"
proof -
  let ?b = "\<lparr>bytes = replicate 8 0 @ [65, 13, 10, 66], readerIndex = 8, writerIndex = 12\<rparr>"
  have ok: "buf_ok ?b" using vec_max_ge by (simp add: buf_ok_def)
  have c: "content ?b = [65, 13, 10, 66]" by (simp add: content_def range_of_def)
  have f: "findCRLF ?b = Some 9"
    by (simp add: findCRLF_def peek_def beginWrite_def range_of_def kCRLF_def)
  have "readableBytes ?b = 4" by (simp add: buf_sizes(1)[OF ok])
  then have "findEOL ?b = Some 10" by (simp add: findEOL_def peek_def range_of_def)
  with f c ok find_line_end[OF ok] show ?thesis by (auto simp: peek_def)
qed

end
