(* ===== verification/Buffer_Calls.thy ===== *)
theory Buffer_Calls
  imports Buffer
begin

text \<open>
  All public methods of the buffer together: \<open>run_call\<close> runs one of them and forgets its value,
  \<open>misuse\<close> says when a call asks for more than the buffer has (the conditions of the code's
  assertions, on the abstract content), and the property is that nothing else can go wrong.
\<close>

datatype buf_call =
    Append "byte list" | AppendWire wire_int | PrependData "byte list" | PrependWire wire_int
  | EnsureWritable nat | HasWritten nat
  | Retrieve nat | RetrieveUntil nat | RetrieveAll | AsString nat | AllAsString
  | PeekLike wire_int | ReadLike wire_int
  | FindCRLF | FindCRLFFrom nat | FindEOL | FindEOLFrom nat
  | ReadFd "nat \<Rightarrow> sysread" | Swap buffer

fun peek_like :: "wire_int \<Rightarrow> buffer \<Rightarrow> wire_int result" where
  "peek_like (W64 _) b = bindR (peekInt64 b) (\<lambda>x. Inr (W64 x))"
| "peek_like (W32 _) b = bindR (peekInt32 b) (\<lambda>x. Inr (W32 x))"
| "peek_like (W16 _) b = bindR (peekInt16 b) (\<lambda>x. Inr (W16 x))"
| "peek_like (W8 _) b = bindR (peekInt8 b) (\<lambda>x. Inr (W8 x))"

fun run_call :: "buf_call \<Rightarrow> buffer \<Rightarrow> buffer result" where
  "run_call (Append data) b = append_bytes data b"
| "run_call (AppendWire w) b = append_wire w b"
| "run_call (PrependData data) b = prepend data b"
| "run_call (PrependWire w) b = prepend_wire w b"
| "run_call (EnsureWritable n) b = ensureWritableBytes n b"
| "run_call (HasWritten n) b = hasWritten n b"
| "run_call (Retrieve n) b = retrieve n b"
| "run_call (RetrieveUntil e) b = retrieveUntil e b"
| "run_call RetrieveAll b = Inr (retrieveAll b)"
| "run_call (AsString n) b = bindR (retrieveAsString n b) (\<lambda>(s, b'). Inr b')"
| "run_call AllAsString b = bindR (retrieveAllAsString b) (\<lambda>(s, b'). Inr b')"
| "run_call (PeekLike w) b = bindR (peek_like w b) (\<lambda>_. Inr b)"
| "run_call (ReadLike w) b = bindR (read_like w b) (\<lambda>(v, b'). Inr b')"
| "run_call FindCRLF b = (let _ = findCRLF b in Inr b)"
| "run_call (FindCRLFFrom i) b = bindR (findCRLF_from i b) (\<lambda>_. Inr b)"
| "run_call FindEOL b = (let _ = findEOL b in Inr b)"
| "run_call (FindEOLFrom i) b = bindR (findEOL_from i b) (\<lambda>_. Inr b)"
| "run_call (ReadFd readv) b = bindR (readFd readv b) (\<lambda>(n, b', e). Inr b')"
| "run_call (Swap other) b = Inr (fst (swap_buffers b other))"

text \<open>
  Arguments a C++ caller can have: data and lengths no longer than an object can be, \<open>readv\<close> within its
  documented bound, and another buffer that is itself well-formed.
\<close>

fun call_ok :: "buf_call \<Rightarrow> bool" where
  "call_ok (Append data) = (length data \<le> vec_max)"
| "call_ok (EnsureWritable n) = (n \<le> vec_max)"
| "call_ok (ReadFd readv) = (\<forall>n bs. readv n = ReadOk bs \<longrightarrow> length bs \<le> n)"
| "call_ok (Swap other) = buf_ok other"
| "call_ok _ = True"

fun misuse :: "buf_call \<Rightarrow> buffer \<Rightarrow> bool" where
  "misuse (PrependData data) b = (readerIndex b < length data)"
| "misuse (PrependWire w) b = (readerIndex b < length (wire_bytes w))"
| "misuse (HasWritten n) b = (length (bytes b) < writerIndex b + n)"
| "misuse (Retrieve n) b = (length (content b) < n)"
| "misuse (RetrieveUntil e) b = (e < readerIndex b \<or> writerIndex b < e)"
| "misuse (AsString n) b = (length (content b) < n)"
| "misuse (PeekLike w) b = (length (content b) < length (wire_bytes w))"
| "misuse (ReadLike w) b = (length (content b) < length (wire_bytes w))"
| "misuse (FindCRLFFrom i) b = (i < readerIndex b \<or> writerIndex b < i)"
| "misuse (FindEOLFrom i) b = (i < readerIndex b \<or> writerIndex b < i)"
| "misuse _ b = False"

lemma wire_bytes_length: "length (wire_bytes w) \<le> 8"
  by (cases w) simp_all

lemma read_like_overrun:
  assumes "buf_ok b" "length (content b) < length (wire_bytes w)"
  shows "read_like w b = Inl AssertFailed" "peek_like w b = Inl AssertFailed"
  using assms by (cases w; simp add: readInt64_def readInt32_def readInt16_def readInt8_def
      peekInt64_def peekInt32_def peekInt16_def peekInt8_def readable_content)+

lemma peek_like_total:
  assumes "buf_ok b" "length (wire_bytes w) \<le> length (content b)"
  shows "\<exists>v. peek_like w b = Inr v"
  using assms by (cases w) (simp_all add: peekInt64_def peekInt32_def peekInt16_def peekInt8_def readable_content)

lemma read_like_ok:
  assumes "buf_ok b" "length (wire_bytes w) \<le> length (content b)"
  shows "\<exists>v b'. read_like w b = Inr (v, b') \<and> buf_ok b'"
proof -
  have r: "\<exists>b'. retrieve (length (wire_bytes w)) b = Inr b' \<and> buf_ok b'" using retrieve_ok[OF assms] by blast
  show ?thesis using r peek_like_total[OF assms]
    by (cases w) (auto simp: readInt64_def readInt32_def readInt16_def readInt8_def retrieveInt64_def retrieveInt32_def
        retrieveInt16_def retrieveInt8_def bindR_Inr_iff)
qed

text \<open>One call: it fails an assertion exactly when it is a misuse, and otherwise keeps the invariant.\<close>

lemma run_call_cases:
  assumes "buf_ok b" "call_ok c"
  shows "if misuse c b then run_call c b = Inl AssertFailed else ends_in buf_ok (run_call c b)"
proof -
  note ok = buf_okD[OF assms(1)] and sz = buf_sizes[OF assms(1)] and len = length_content[OF assms(1)]
  show ?thesis
  proof (cases c)
    case (Append data)
    then show ?thesis using append_bytes_safe[OF assms(1), of data] assms(2) by (auto elim: ends_in_mono)
  next
    case (AppendWire w)
    have "length (wire_bytes w) \<le> vec_max" using wire_bytes_length[of w] vec_max_ge by linarith
    from append_bytes_safe[OF assms(1) this] AppendWire show ?thesis
      by (auto simp: append_wire_bytes elim: ends_in_mono)
  next
    case (PrependData data)
    then show ?thesis using prepend_ok[OF assms(1), of data] sz(3) by (auto simp: prepend_def)
  next
    case (PrependWire w)
    then show ?thesis using prepend_ok[OF assms(1), of "wire_bytes w"] sz(3)
      by (auto simp: prepend_wire_bytes prepend_def)
  next
    case (EnsureWritable n)
    then show ?thesis using ensureWritableBytes_safe[OF assms(1), of n] assms(2) by (auto elim: ends_in_mono)
  next
    case (HasWritten n)
    have "szadd (writerIndex b) n = writerIndex b + n" if "writerIndex b + n \<le> length (bytes b)"
      using that ok(6) by (simp add: szadd_exact)
    then show ?thesis using HasWritten ok sz(2) assms(1) by (auto simp: hasWritten_def buf_ok_def not_less)
  next
    case (Retrieve n)
    then show ?thesis using retrieve_ok[OF assms(1), of n] retrieve_overrun[OF assms(1), of n] by (auto simp: not_less)
  next
    case (RetrieveUntil e)
    have "e - readerIndex b \<le> length (content b)" if "e \<le> writerIndex b" using that len by simp
    then show ?thesis using RetrieveUntil retrieve_ok[OF assms(1), of "e - readerIndex b"]
      by (auto simp: retrieveUntil_def peek_def beginWrite_def assertR_def not_less)
  next
    case RetrieveAll
    then show ?thesis using retrieveAll_ok(1)[OF assms(1)] by simp
  next
    case (AsString n)
    then show ?thesis using retrieveAsString_ok[OF assms(1), of n] retrieveAsString_overrun[OF assms(1), of n]
      by (auto simp: not_less)
  next
    case AllAsString
    then show ?thesis using retrieveAsString_ok[OF assms(1), of "length (content b)"]
      by (auto simp: retrieveAllAsString_def readable_content assms(1))
  next
    case (PeekLike w)
    then show ?thesis using peek_like_total[OF assms(1), of w] read_like_overrun(2)[OF assms(1), of w] assms(1)
      by (auto simp: not_less)
  next
    case (ReadLike w)
    then show ?thesis using read_like_ok[OF assms(1), of w] read_like_overrun(1)[OF assms(1), of w]
      by (auto simp: not_less)
  next
    case (FindCRLFFrom i)
    then show ?thesis using assms(1) by (auto simp: findCRLF_from_def peek_def beginWrite_def assertR_def Let_def)
  next
    case (FindEOLFrom i)
    then show ?thesis using assms(1) by (auto simp: findEOL_from_def peek_def beginWrite_def assertR_def)
  next
    case (ReadFd readv)
    have "length bs \<le> n" if "readv n = ReadOk bs" for n bs using that assms(2) ReadFd by auto
    from readFd_safe[where readv = readv, OF assms(1) this] show ?thesis using ReadFd
      by (auto intro!: ends_in_bindR)
  next
    case (Swap other)
    then show ?thesis using assms(2) by (simp add: swap_buffers_def buf_ok_def)
  qed (use assms(1) in simp_all)
qed

text \<open>
  C38. The buffer is safe. After any sequence of calls of its methods on a newly built buffer, with
  arguments a C++ caller can have, the two indices are well-formed; and the next call fails an
  assertion exactly when it asks for more than there is (bytes to read, room in front, room reserved
  behind, a position outside the readable range). Otherwise it keeps the buffer well-formed or ends
  in the vector's \<open>length_error\<close>; no access is ever outside the vector.
\<close>

theorem buffer_calls_safe:
  assumes "Buffer_new n = Inr b0" "n + 8 \<le> vec_max" "foldR run_call cs b0 = Inr b" "list_all call_ok cs" "call_ok c"
  shows "buf_ok b \<and> (if misuse c b then run_call c b = Inl AssertFailed else ends_in buf_ok (run_call c b))"
proof -
  have "buf_ok b0" using Buffer_new_ok[OF assms(2)] assms(1) by auto
  moreover have "buf_ok s'" if "x \<in> set cs" "buf_ok s" "run_call x s = Inr s'" for x s s'
    using run_call_cases[OF that(2), of x] that(1,3) assms(4) by (auto simp: list_all_iff split: if_splits)
  ultimately have "buf_ok b" by (rule foldR_invariant[where P = buf_ok and f = run_call, rotated 1, OF _ assms(3)])
  with run_call_cases[OF this assms(5)] show ?thesis by simp
qed

theorem buffer_calls_safe_witness:
  "\<exists>b0 b. Buffer_new 4 = Inr b0 \<and> foldR run_call [Append [1, 2], AppendWire (W32 7), Retrieve 3] b0 = Inr b \<and> buf_ok b
     \<and> run_call (ReadLike (W32 0)) b = Inl AssertFailed"
proof -
  have le: "4 + 8 \<le> vec_max" using vec_max_ge by simp
  from Buffer_new_ok[OF le] obtain b0 where b0: "Buffer_new 4 = Inr b0" "buf_ok b0" "content b0 = []" "writerIndex b0 = 8" by blast
  let ?cs = "[Append [1, 2], AppendWire (W32 7), Retrieve 3]"
  have "writerIndex b0 + length [1, 2 :: byte] \<le> vec_max" using b0(4) vec_max_ge by simp
  from append_bytes_ok[OF b0(2) this] obtain b1 where
    b1: "append_bytes [1, 2] b0 = Inr b1" "buf_ok b1" "content b1 = [1, 2]" "writerIndex b1 \<le> 10" using b0(3,4) by auto
  have "writerIndex b1 + length (be_bytes 4 (7 :: 32 word)) \<le> vec_max" using b1(4) vec_max_ge by simp
  from append_bytes_ok[OF b1(2) this] obtain b2 where
    b2: "append_wire (W32 7) b1 = Inr b2" "buf_ok b2" "length (content b2) = 6" using b1(3) by (auto simp: append_wire_bytes)
  have "3 \<le> length (content b2)" using b2(3) by simp
  from retrieve_ok[OF b2(2) this] obtain b where b: "retrieve 3 b2 = Inr b" "content b = drop 3 (content b2)" by blast
  have run: "foldR run_call ?cs b0 = Inr b" using b1(1) b2(1) b(1) by simp
  have "list_all call_ok ?cs" "call_ok (ReadLike (W32 0))" using vec_max_ge by simp_all
  from buffer_calls_safe[OF b0(1) le run this] have "buf_ok b" "run_call (ReadLike (W32 0)) b = Inl AssertFailed"
    using b(2) b2(3) by simp_all
  then show ?thesis using b0(1) run by blast
qed

text \<open>
  The sum in the constructor is not checked: for one of the eight largest initial sizes it wraps, the
  vector has fewer than eight bytes, and yet all three assertions of the constructor hold.
\<close>

lemma Buffer_new_wraps:
  assumes "n < size_mod" "size_mod \<le> n + 8"
  shows "\<exists>b. Buffer_new n = Inr b \<and> length (bytes b) < writerIndex b \<and> writableBytes b = n"
proof -
  have s: "szadd 8 n = n + 8 - size_mod"
  proof -
    have "(8 + n) mod size_mod = (8 + n - size_mod) mod size_mod" using assms(2) by (metis add.commute le_mod_geq)
    moreover have "8 + n - size_mod < size_mod" using assms(1) by (simp add: size_mod_def)
    ultimately show ?thesis by (simp add: szadd_def add.commute)
  qed
  have "szsub (n + 8 - size_mod) 8 = n" using assms by (simp add: szsub_def size_mod_def)
  moreover have "n + 8 - size_mod < 8" using assms(1) by simp
  moreover have "szsub 8 8 = 0" by (simp add: szsub_exact size_mod_def)
  ultimately show ?thesis using s vec_max_ge
    by (simp add: Buffer_new_def Let_def readableBytes_def writableBytes_def prependableBytes_def szsub_exact)
qed

end
