(* ===== verification/Channel.thy ===== *)
theory Channel
  imports Prelude
begin

unbundle bit_operations_syntax

text \<open>
  \<open>leven/Channel.h\<close> and \<open>Channel.cc\<close>: a file descriptor, the events it is interested in, the
  events the poller reported, and four callbacks. The record keeps whether each callback is set;
  what a callback does belongs to the channel's owner and is the argument \<open>cb\<close> of
  \<open>handleEvents\<close>, which works on the owner's state through \<open>get\<close> and \<open>upd\<close>; a channel that a
  callback destroyed is \<open>None\<close>, and touching it is undefined behaviour. The operations that
  end in \<open>update()\<close> are in \<open>EventLoop\<close>, as \<open>update()\<close> calls the loop.
\<close>

type_synonym mask = "32 word"

definition EPOLLIN :: mask where "EPOLLIN = 0x001"
definition EPOLLPRI :: mask where "EPOLLPRI = 0x002"
definition EPOLLOUT :: mask where "EPOLLOUT = 0x004"
definition EPOLLERR :: mask where "EPOLLERR = 0x008"
definition EPOLLHUP :: mask where "EPOLLHUP = 0x010"
definition EPOLLRDHUP :: mask where "EPOLLRDHUP = 0x2000"

lemmas epoll_bits = EPOLLIN_def EPOLLPRI_def EPOLLOUT_def EPOLLERR_def EPOLLHUP_def EPOLLRDHUP_def

datatype cbkind = ReadCb | WriteCb | ErrorCb | CloseCb

record channel =
  polling :: bool
  chfd :: int
  events :: mask
  revents :: mask
  tied :: bool
  handlingEvents :: bool
  callbacks :: "cbkind list"

definition Channel_new :: "int \<Rightarrow> channel" where
  "Channel_new fd = \<lparr>polling = False, chfd = fd, events = 0, revents = 0, tied = False,
                     handlingEvents = False, callbacks = []\<rparr>"

definition Channel_delete :: "channel \<Rightarrow> unit result" where
  "Channel_delete ch = (if handlingEvents ch then Inl ChannelInUse else Inr ())"

definition setCallBack :: "cbkind \<Rightarrow> channel \<Rightarrow> channel" where
  "setCallBack k ch = ch\<lparr>callbacks := List.insert k (callbacks ch)\<rparr>"

definition hasNoneEvents :: "channel \<Rightarrow> bool" where
  "hasNoneEvents ch \<longleftrightarrow> events ch = 0"

definition setRevents :: "mask \<Rightarrow> channel \<Rightarrow> channel" where
  "setRevents m ch = ch\<lparr>revents := m\<rparr>"

definition isReading :: "channel \<Rightarrow> bool" where
  "isReading ch \<longleftrightarrow> events ch AND EPOLLIN \<noteq> 0"

definition isWriting :: "channel \<Rightarrow> bool" where
  "isWriting ch \<longleftrightarrow> events ch AND EPOLLOUT \<noteq> 0"

definition Channel_tie :: "channel \<Rightarrow> channel" where
  "Channel_tie ch = ch\<lparr>tied := True\<rparr>"

text \<open>
  The new interest of the operations, before \<open>update()\<close>; \<open>disableRead\<close> leaves \<open>EPOLLPRI\<close> set.
\<close>

datatype chan_op = EnableRead | EnableWrite | DisableRead | DisableWrite | DisableAll

fun new_events :: "chan_op \<Rightarrow> mask \<Rightarrow> mask" where
  "new_events EnableRead m = m OR (EPOLLIN OR EPOLLPRI)"
| "new_events EnableWrite m = m OR EPOLLOUT"
| "new_events DisableRead m = m AND NOT EPOLLIN"
| "new_events DisableWrite m = m AND NOT EPOLLOUT"
| "new_events DisableAll m = 0"

subsection \<open>Dispatching the reported events\<close>

definition with_chan :: "('w \<Rightarrow> channel option) \<Rightarrow> 'w \<Rightarrow> (channel \<Rightarrow> 'a result) \<Rightarrow> 'a result" where
  "with_chan get w k = (case get w of None \<Rightarrow> Inl UndefinedBehaviour | Some ch \<Rightarrow> k ch)"

definition call_if :: "(mask \<Rightarrow> bool) \<Rightarrow> cbkind \<Rightarrow> ('w \<Rightarrow> channel option) \<Rightarrow> (cbkind \<Rightarrow> 'w \<Rightarrow> 'w result)
    \<Rightarrow> 'w \<Rightarrow> 'w result" where
  "call_if c k get cb w =
     with_chan get w (\<lambda>ch. if c (revents ch) then (if k \<in> set (callbacks ch) then cb k w else Inr w)
                           else Inr w)"

definition wants_close :: "mask \<Rightarrow> bool" where
  "wants_close m \<longleftrightarrow> m AND EPOLLHUP \<noteq> 0 \<and> \<not> m AND EPOLLIN \<noteq> 0"

definition wants_error :: "mask \<Rightarrow> bool" where
  "wants_error m \<longleftrightarrow> m AND EPOLLERR \<noteq> 0"

definition wants_read :: "mask \<Rightarrow> bool" where
  "wants_read m \<longleftrightarrow> m AND (EPOLLIN OR EPOLLPRI OR EPOLLRDHUP) \<noteq> 0"

definition wants_write :: "mask \<Rightarrow> bool" where
  "wants_write m \<longleftrightarrow> m AND EPOLLOUT \<noteq> 0"

definition handleEventsWithGuard ::
  "('w \<Rightarrow> channel option) \<Rightarrow> ((channel \<Rightarrow> channel) \<Rightarrow> 'w \<Rightarrow> 'w) \<Rightarrow> (cbkind \<Rightarrow> 'w \<Rightarrow> 'w result)
    \<Rightarrow> 'w \<Rightarrow> 'w result" where
  "handleEventsWithGuard get upd cb w =
     with_chan get w (\<lambda>_.
     bindR (call_if wants_close CloseCb get cb (upd (\<lambda>ch. ch\<lparr>handlingEvents := True\<rparr>) w)) (\<lambda>w1.
     bindR (call_if wants_error ErrorCb get cb w1) (\<lambda>w2.
     bindR (call_if wants_read ReadCb get cb w2) (\<lambda>w3.
     bindR (call_if wants_write WriteCb get cb w3) (\<lambda>w4.
     with_chan get w4 (\<lambda>_. Inr (upd (\<lambda>ch. ch\<lparr>handlingEvents := False\<rparr>) w4)))))))"

text \<open>
  The order of the callbacks. Instantiated with a callback that only records its kind, the dispatch
  shows which callbacks a set of reported events calls, and in which order.
\<close>

fun dispatch_order :: "cbkind list \<Rightarrow> mask \<Rightarrow> cbkind list" where
  "dispatch_order cbs m = filter (\<lambda>k. k \<in> set cbs)
     ((if wants_close m then [CloseCb] else []) @ (if wants_error m then [ErrorCb] else [])
      @ (if wants_read m then [ReadCb] else []) @ (if wants_write m then [WriteCb] else []))"

definition log_call :: "cbkind \<Rightarrow> channel \<times> cbkind list \<Rightarrow> (channel \<times> cbkind list) result" where
  "log_call k w = Inr (fst w, snd w @ [k])"

subsection \<open>Lemmas\<close>

lemma with_chan_Inr_iff: "with_chan get w k = Inr y \<longleftrightarrow> (\<exists>ch. get w = Some ch \<and> k ch = Inr y)"
  by (auto simp: with_chan_def split: option.splits)

text \<open>
  Two dispatchers whose callbacks agree, but for those of the first that end in the error \<open>e\<close>, which
  they do only if \<open>b\<close> holds. \<open>J\<close> holds while the events \<open>m\<close> are being handled.
\<close>

lemma call_if_agree:
  assumes "J w \<Longrightarrow> c m \<Longrightarrow> g k w = cb k w \<or> (b \<and> g k w = Inl e)" "J w"
    and "\<And>ch. get w = Some ch \<Longrightarrow> revents ch = m"
  shows "call_if c k get g w = call_if c k get cb w \<or> (b \<and> call_if c k get g w = Inl e)"
  using assms by (auto simp: call_if_def with_chan_def split: option.split)

lemma call_if_keeps:
  assumes "call_if c k get cb w = Inr w'" "J w" "\<And>ch. get w = Some ch \<Longrightarrow> revents ch = m"
    and "c m \<Longrightarrow> cb k w = Inr w' \<Longrightarrow> J w'"
  shows "J w'"
  using assms by (auto simp: call_if_def with_chan_def split: option.splits if_splits)

lemma dispatch_agree:
  assumes J: "J (upd (\<lambda>ch. ch\<lparr>handlingEvents := True\<rparr>) w)"
    and m: "\<And>w ch. J w \<Longrightarrow> get w = Some ch \<Longrightarrow> revents ch = m"
    and keep: "\<And>k w w'. J w \<Longrightarrow> called k m \<Longrightarrow> k \<noteq> WriteCb \<Longrightarrow> cb k w = Inr w' \<Longrightarrow> J w'"
    and agree: "\<And>k w. J w \<Longrightarrow> called k m \<Longrightarrow> g k w = cb k w \<or> (b \<and> g k w = Inl e)"
    and called: "called CloseCb m = wants_close m" "called ErrorCb m = wants_error m" "called ReadCb m = wants_read m"
      "called WriteCb m = wants_write m"
  shows "handleEventsWithGuard get upd g w = handleEventsWithGuard get upd cb w \<or> (b \<and> handleEventsWithGuard get upd g w = Inl e)"
proof -
  have bind: "bindR x f = bindR y h \<or> (b \<and> bindR x f = Inl e)"
    if "x = y \<or> (b \<and> x = Inl e)" "\<And>v. y = Inr v \<Longrightarrow> f v = h v \<or> (b \<and> f v = Inl e)" for x y :: "'a result" and f h :: "'a \<Rightarrow> 'a result"
    using that by (cases y) auto
  have stage: "call_if c k get g v = call_if c k get cb v \<or> (b \<and> call_if c k get g v = Inl e)"
    "k \<noteq> WriteCb \<Longrightarrow> call_if c k get cb v = Inr v' \<Longrightarrow> J v'" if "J v" "called k m = c m" for c k v v'
  proof -
    note mm = m[OF that(1)]
    show "call_if c k get g v = call_if c k get cb v \<or> (b \<and> call_if c k get g v = Inl e)"
      by (rule call_if_agree[where J = J and m = m]) (use agree[OF that(1), of k] that mm in auto)
    show "J v'" if "k \<noteq> WriteCb" "call_if c k get cb v = Inr v'"
      by (rule call_if_keeps[where J = J and m = m, OF that(2)]) (use that(1) keep[OF \<open>J v\<close>, of k v'] \<open>called k m = c m\<close> \<open>J v\<close> mm in auto)
  qed
  let ?clear = "\<lambda>w4. with_chan get w4 (\<lambda>_. Inr (upd (\<lambda>ch. ch\<lparr>handlingEvents := False\<rparr>) w4))"
  let ?wr = "\<lambda>f w3. bindR (call_if wants_write WriteCb get f w3) ?clear"
  let ?rd = "\<lambda>f w2. bindR (call_if wants_read ReadCb get f w2) (?wr f)"
  let ?er = "\<lambda>f w1. bindR (call_if wants_error ErrorCb get f w1) (?rd f)"
  note stg = stage[where c = wants_write and k = WriteCb] stage[where c = wants_read and k = ReadCb]
    stage[where c = wants_error and k = ErrorCb] stage[where c = wants_close and k = CloseCb]
  have wr: "?wr g v = ?wr cb v \<or> (b \<and> ?wr g v = Inl e)" if "J v" for v
    by (rule bind) (use stg(1)[OF that called(4)] in simp_all)
  have rd: "?rd g v = ?rd cb v \<or> (b \<and> ?rd g v = Inl e)" if "J v" for v
    by (rule bind[OF stg(3)[OF that called(3)] wr]) (rule stg(4)[OF that called(3)]; simp)
  have er: "?er g v = ?er cb v \<or> (b \<and> ?er g v = Inl e)" if "J v" for v
    by (rule bind[OF stg(5)[OF that called(2)] rd]) (rule stg(6)[OF that called(2)]; simp)
  let ?w = "upd (\<lambda>ch. ch\<lparr>handlingEvents := True\<rparr>) w"
  have "bindR (call_if wants_close CloseCb get g ?w) (?er g) = bindR (call_if wants_close CloseCb get cb ?w) (?er cb)
      \<or> (b \<and> bindR (call_if wants_close CloseCb get g ?w) (?er g) = Inl e)"
    by (rule bind[OF stg(7)[OF J called(1)] er]) (rule stg(8)[OF J called(1)]; simp)
  then show ?thesis by (simp add: handleEventsWithGuard_def with_chan_def split: option.split)
qed

text \<open>When the dispatch returns, the channel is not handling events any more.\<close>

lemma dispatch_idle:
  assumes "handleEventsWithGuard get upd cb w = Inr w'"
  shows "\<exists>v. w' = upd (\<lambda>ch. ch\<lparr>handlingEvents := False\<rparr>) v"
  using assms by (auto simp: handleEventsWithGuard_def with_chan_Inr_iff bindR_Inr_iff)

text \<open>A channel that has a read callback only.\<close>

lemma dispatch_read:
  assumes upd: "\<And>b v. get (upd (\<lambda>ch. ch\<lparr>handlingEvents := b\<rparr>) v) = map_option (\<lambda>ch. ch\<lparr>handlingEvents := b\<rparr>) (get v)"
    and ch: "get w = Some ch" "callbacks ch = [ReadCb]"
    and cb: "\<And>w'. cb ReadCb (upd (\<lambda>ch. ch\<lparr>handlingEvents := True\<rparr>) w) = Inr w' \<Longrightarrow> \<exists>ch'. get w' = Some ch' \<and> callbacks ch' = [ReadCb]"
  shows "handleEventsWithGuard get upd cb w =
     bindR (if wants_read (revents ch) then cb ReadCb (upd (\<lambda>ch. ch\<lparr>handlingEvents := True\<rparr>) w)
            else Inr (upd (\<lambda>ch. ch\<lparr>handlingEvents := True\<rparr>) w))
       (\<lambda>w'. Inr (upd (\<lambda>ch. ch\<lparr>handlingEvents := False\<rparr>) w'))"
proof (cases "wants_read (revents ch)")
  case True
  then show ?thesis using upd ch cb
    by (cases "cb ReadCb (upd (\<lambda>ch. ch\<lparr>handlingEvents := True\<rparr>) w)")
      (auto simp: handleEventsWithGuard_def with_chan_def call_if_def)
next
  case False
  then show ?thesis using upd ch by (simp add: handleEventsWithGuard_def with_chan_def call_if_def)
qed

lemma call_if_invariant:
  assumes "call_if c k get cb w = Inr w'" "I w" "\<And>w'. cb k w = Inr w' \<Longrightarrow> I w'"
  shows "I w'"
  using assms by (auto simp: call_if_def with_chan_Inr_iff split: if_splits)

lemma handleEventsWithGuard_invariant:
  assumes "handleEventsWithGuard get upd cb w = Inr w'" "I w"
    and cb: "\<And>k w w'. I w \<Longrightarrow> cb k w = Inr w' \<Longrightarrow> I w'"
    and upd: "\<And>b w. I w \<Longrightarrow> I (upd (\<lambda>ch. ch\<lparr>handlingEvents := b\<rparr>) w)"
  shows "I w'"
proof -
  from assms(1) obtain w1 w2 w3 w4 where
    1: "call_if wants_close CloseCb get cb (upd (\<lambda>ch. ch\<lparr>handlingEvents := True\<rparr>) w) = Inr w1" and
    2: "call_if wants_error ErrorCb get cb w1 = Inr w2" and
    3: "call_if wants_read ReadCb get cb w2 = Inr w3" and
    4: "call_if wants_write WriteCb get cb w3 = Inr w4" and
    5: "w' = upd (\<lambda>ch. ch\<lparr>handlingEvents := False\<rparr>) w4"
    by (auto simp: handleEventsWithGuard_def with_chan_Inr_iff bindR_Inr_iff)
  note inv = call_if_invariant[where I = I and get = get and cb = cb]
  have "I (upd (\<lambda>ch. ch\<lparr>handlingEvents := True\<rparr>) w)" by (rule upd[OF assms(2)])
  with 1 have "I w1" by (rule inv) (use cb \<open>I (upd _ w)\<close> in blast)
  with 2 have "I w2" by (rule inv) (use cb \<open>I w1\<close> in blast)
  with 3 have "I w3" by (rule inv) (use cb \<open>I w2\<close> in blast)
  with 4 have "I w4" by (rule inv) (use cb \<open>I w3\<close> in blast)
  then show ?thesis by (simp add: 5 upd)
qed

text \<open>
  The dispatch of \<open>Channel::handleEvents\<close>: for every set of reported events the callbacks that
  are set are called in the order close, error, read, write: close only when the peer hung up and
  nothing is left to read, read for ordinary, urgent and half-close events; and afterwards the
  channel is no longer marked as handling events.
\<close>

lemma dispatch_calls:
  "handleEventsWithGuard (Some \<circ> fst) (\<lambda>f w. (f (fst w), snd w)) log_call (ch, [])
     = Inr (ch\<lparr>handlingEvents := False\<rparr>, dispatch_order (callbacks ch) (revents ch))"
  by (simp add: handleEventsWithGuard_def call_if_def log_call_def with_chan_def)

lemma mask_bits_nonzero:
  "EPOLLIN \<noteq> 0" "EPOLLPRI \<noteq> 0" "EPOLLOUT \<noteq> 0"
  by (simp_all add: epoll_bits)

lemma bit_epoll:
  "bit EPOLLIN i \<longleftrightarrow> i = 0" "bit EPOLLPRI i \<longleftrightarrow> i = 1" "bit EPOLLOUT i \<longleftrightarrow> i = 2"
proof -
  have one: "bit (push_bit n (1 :: mask)) i \<longleftrightarrow> i = n" if "n < 32" for n
    using that by (auto simp: bit_exp_iff)
  have "EPOLLIN = push_bit 0 1" "EPOLLPRI = push_bit 1 1" "EPOLLOUT = push_bit 2 1"
    by (simp_all add: epoll_bits)
  then show "bit EPOLLIN i \<longleftrightarrow> i = 0" "bit EPOLLPRI i \<longleftrightarrow> i = 1" "bit EPOLLOUT i \<longleftrightarrow> i = 2"
    using one[of 0] one[of 1] one[of 2] by simp_all
qed

lemma and_single_bit:
  fixes m b :: mask
  assumes "\<And>i. bit b i \<longleftrightarrow> i = n"
  shows "m AND b \<noteq> 0 \<longleftrightarrow> bit m n"
proof
  assume "m AND b \<noteq> 0"
  then obtain i where "bit (m AND b) i" by (metis bit_0_eq bot_apply bot_boolE bit_eq_iff)
  then show "bit m n" by (auto simp: bit_and_iff assms)
next
  assume "bit m n"
  then have "bit (m AND b) n" by (simp add: bit_and_iff assms)
  then show "m AND b \<noteq> 0" by auto
qed

lemma isReading_bit: "isReading ch \<longleftrightarrow> bit (events ch) 0"
  by (simp add: isReading_def and_single_bit bit_epoll)

lemma isWriting_bit: "isWriting ch \<longleftrightarrow> bit (events ch) 2"
  by (simp add: isWriting_def and_single_bit bit_epoll)

lemma bit_new_events:
  "bit (new_events EnableRead m) i \<longleftrightarrow> bit m i \<or> i = 0 \<or> i = 1"
  "bit (new_events EnableWrite m) i \<longleftrightarrow> bit m i \<or> i = 2"
  "bit (new_events DisableRead m) i \<longleftrightarrow> bit m i \<and> i \<noteq> 0"
  "bit (new_events DisableWrite m) i \<longleftrightarrow> bit m i \<and> i \<noteq> 2"
  "bit (new_events DisableAll m) i \<longleftrightarrow> False"
  using bit_imp_le_length[of m i] by (auto simp: bit_simps bit_epoll)

lemma nonzero_bit: "bit m n \<Longrightarrow> m \<noteq> 0"
  by auto

declare new_events.simps [simp del]

end
