(* ===== verification/Epoller.thy ===== *)
theory Epoller
  imports Channel
begin

text \<open>
  \<open>leven/Epoller.h\<close> and \<open>Epoller.cc\<close>: the wrapper of the kernel's epoll instance. The record keeps
  the size of the event array and the log of the \<open>epoll_ctl\<close> calls made so far. The results of
  \<open>epoll_wait\<close> are arguments. The code logs a failed \<open>epoll_ctl\<close> and goes on, so its result does
  not change the state.

  The documented contract of \<open>epoll_ctl\<close> is the specification: \<open>ctl_legal\<close> says when a call is
  accepted (no second \<open>ADD\<close>, no \<open>MOD\<close> or \<open>DEL\<close> of an unregistered descriptor) and \<open>ctl_effect\<close>
  what it does to the interest list.
\<close>

datatype ctl_op = EPOLL_CTL_ADD | EPOLL_CTL_MOD | EPOLL_CTL_DEL

record ctl =
  ctl_op :: ctl_op
  ctl_fd :: int
  ctl_events :: mask

record epoller =
  evCapacity :: nat
  ctl_log :: "ctl list"

definition Epoller_new :: epoller where
  "Epoller_new = \<lparr>evCapacity = 128, ctl_log = []\<rparr>"

datatype epoll_wait_result = WaitFailed int | Ready "(nat \<times> mask) list"

text \<open>
  \<open>Poll\<close> sets the reported events of each ready channel and returns the active channels in the
  order of the kernel. A pointer to a channel that does not exist any more is undefined behaviour.
\<close>

fun activate :: "(nat \<times> mask) list \<Rightarrow> (nat \<rightharpoonup> channel) \<Rightarrow> ((nat \<rightharpoonup> channel) \<times> nat list) result" where
  "activate [] chs = Inr (chs, [])"
| "activate ((p, m) # evs) chs =
     (case chs p of
        None \<Rightarrow> Inl UndefinedBehaviour
      | Some ch \<Rightarrow> bindR (activate evs (chs(p \<mapsto> setRevents m ch)))
                     (\<lambda>(chs', ps). Inr (chs', p # ps)))"

definition Poll :: "epoll_wait_result \<Rightarrow> epoller \<Rightarrow> (nat \<rightharpoonup> channel) \<Rightarrow>
    (epoller \<times> (nat \<rightharpoonup> channel) \<times> nat list) result" where
  "Poll r ep chs =
     (case r of
        WaitFailed e \<Rightarrow> Inr (ep, chs, [])
      | Ready evs \<Rightarrow>
          if evs = [] then Inr (ep, chs, [])
          else bindR (activate evs chs) (\<lambda>(chs', ps).
                 Inr (if length evs = evCapacity ep then ep\<lparr>evCapacity := 2 * evCapacity ep\<rparr> else ep,
                      chs', ps)))"

definition Epoller_ctl :: "ctl_op \<Rightarrow> channel \<Rightarrow> epoller \<Rightarrow> epoller" where
  "Epoller_ctl op ch ep =
     ep\<lparr>ctl_log := ctl_log ep @ [\<lparr>ctl_op = op, ctl_fd = chfd ch, ctl_events = events ch\<rparr>]\<rparr>"

definition Epoller_updateChannel :: "channel \<Rightarrow> epoller \<Rightarrow> (channel \<times> epoller) result" where
  "Epoller_updateChannel ch ep =
     (if \<not> polling ch then
        assertR (\<not> hasNoneEvents ch)
          (let ch' = ch\<lparr>polling := True\<rparr> in Inr (ch', Epoller_ctl EPOLL_CTL_ADD ch' ep))
      else if \<not> hasNoneEvents ch then Inr (ch, Epoller_ctl EPOLL_CTL_MOD ch ep)
      else (let ch' = ch\<lparr>polling := False\<rparr> in Inr (ch', Epoller_ctl EPOLL_CTL_DEL ch' ep)))"

subsection \<open>The contract of \<open>epoll_ctl\<close>\<close>

definition ctl_legal :: "(int \<rightharpoonup> mask) \<Rightarrow> ctl \<Rightarrow> bool" where
  "ctl_legal m c = (case ctl_op c of
       EPOLL_CTL_ADD \<Rightarrow> m (ctl_fd c) = None
     | EPOLL_CTL_MOD \<Rightarrow> m (ctl_fd c) \<noteq> None
     | EPOLL_CTL_DEL \<Rightarrow> m (ctl_fd c) \<noteq> None)"

definition ctl_effect :: "ctl \<Rightarrow> (int \<rightharpoonup> mask) \<Rightarrow> (int \<rightharpoonup> mask)" where
  "ctl_effect c m = (case ctl_op c of
       EPOLL_CTL_ADD \<Rightarrow> m(ctl_fd c \<mapsto> ctl_events c)
     | EPOLL_CTL_MOD \<Rightarrow> m(ctl_fd c \<mapsto> ctl_events c)
     | EPOLL_CTL_DEL \<Rightarrow> m(ctl_fd c := None))"

fun interest :: "ctl list \<Rightarrow> (int \<rightharpoonup> mask) \<Rightarrow> (int \<rightharpoonup> mask)" where
  "interest [] m = m"
| "interest (c # cs) m = interest cs (ctl_effect c m)"

fun all_legal :: "ctl list \<Rightarrow> (int \<rightharpoonup> mask) \<Rightarrow> bool" where
  "all_legal [] m = True"
| "all_legal (c # cs) m = (ctl_legal m c \<and> all_legal cs (ctl_effect c m))"

lemma interest_append: "interest (xs @ ys) m = interest ys (interest xs m)"
  by (induction xs m rule: interest.induct) simp_all

lemma all_legal_append: "all_legal (xs @ ys) m \<longleftrightarrow> all_legal xs m \<and> all_legal ys (interest xs m)"
  by (induction xs m rule: all_legal.induct) simp_all

text \<open>
  One channel and the kernel agree: a channel is marked as polling exactly when it asks for events,
  and exactly then its descriptor is registered, with those events.
\<close>

definition chan_sync :: "(int \<rightharpoonup> mask) \<Rightarrow> channel \<Rightarrow> bool" where
  "chan_sync m ch \<longleftrightarrow> polling ch = (events ch \<noteq> 0)
     \<and> m (chfd ch) = (if events ch = 0 then None else Some (events ch))"

text \<open>
  \<open>updateChannel\<close> after the interest of a channel changed from \<open>old\<close>: it fails its assertion exactly
  when there was and is nothing to poll for; otherwise the call it makes is legal, touches only this
  channel's descriptor, and the channel and the kernel agree again.
\<close>

lemma Epoller_updateChannel_cases:
  assumes "chan_sync (interest (ctl_log ep) Map.empty) (ch\<lparr>events := old\<rparr>)"
  shows "old = 0 \<and> events ch = 0 \<Longrightarrow> Epoller_updateChannel ch ep = Inl AssertFailed"
    and "\<not> (old = 0 \<and> events ch = 0) \<Longrightarrow>
      \<exists>ch' c. Epoller_updateChannel ch ep = Inr (ch', ep\<lparr>ctl_log := ctl_log ep @ [c]\<rparr>)
        \<and> ch' = ch\<lparr>polling := (events ch \<noteq> 0)\<rparr> \<and> ctl_fd c = chfd ch
        \<and> ctl_legal (interest (ctl_log ep) Map.empty) c
        \<and> chan_sync (interest (ctl_log ep @ [c]) Map.empty) ch'"
  using assms
  by (auto simp: Epoller_updateChannel_def chan_sync_def hasNoneEvents_def Epoller_ctl_def
      interest_append ctl_legal_def ctl_effect_def split: if_splits)

lemma ctl_effect_other: "fd \<noteq> ctl_fd c \<Longrightarrow> ctl_effect c m fd = m fd"
  by (simp add: ctl_effect_def split: ctl_op.splits)

text \<open>What \<open>Poll\<close> returns: the ready channels in order, each carrying its last reported events.\<close>

lemma activate_dom: "activate evs chs = Inr (chs', ps) \<Longrightarrow> dom chs' = dom chs \<and> ps = map fst evs"
proof (induction evs chs arbitrary: chs' ps rule: activate.induct)
  case (1 chs)
  then show ?case by simp
next
  case (2 p m evs chs)
  from "2.prems" obtain ch where ch: "chs p = Some ch" by (auto split: option.splits)
  with "2.prems" obtain ps' where rec: "activate evs (chs(p \<mapsto> setRevents m ch)) = Inr (chs', ps')"
    "ps = p # ps'" by (auto simp: bindR_Inr_iff)
  have "dom (chs(p \<mapsto> setRevents m ch)) = dom chs" using ch by (simp add: insert_absorb domI)
  with "2.IH"[OF ch rec(1)] rec(2) show ?case by (simp del: fun_upd_apply dom_fun_upd)
qed

lemma activate_total: "\<forall>e \<in> set evs. chs (fst e) \<noteq> None \<Longrightarrow> \<exists>r. activate evs chs = Inr r"
proof (induction evs chs rule: activate.induct)
  case (1 chs)
  then show ?case by simp
next
  case (2 p m evs chs)
  then obtain ch where ch: "chs p = Some ch" by auto
  have "\<forall>e \<in> set evs. (chs(p \<mapsto> setRevents m ch)) (fst e) \<noteq> None" using "2.prems" by auto
  from "2.IH"[OF ch this] obtain chs' ps where "activate evs (chs(p \<mapsto> setRevents m ch)) = Inr (chs', ps)"
    by (metis surj_pair)
  with ch show ?case by simp
qed

end
