(* ===== verification/EventLoop.thy ===== *)
theory EventLoop
  imports Epoller
begin

text \<open>
  \<open>leven/EventLoop.h\<close> and \<open>EventLoop.cc\<close>, with the operations of \<open>Channel.h\<close> that end in
  \<open>update()\<close>. The loop's record holds the pending jobs, the flags, the id of the loop's thread, the
  counter of the eventfd that \<open>wakeup()\<close> writes (the eventfd is readable while it is positive) and
  the poller. Tasks are an arbitrary type; executing one is the argument \<open>exec\<close>. The id of the
  calling thread, which the code asks \<open>gettid()\<close> for, is the argument \<open>tid\<close>.

  This theory runs the loop as one thread; the interleavings with other threads are in
  \<open>Loop_Threads\<close>.
\<close>

record 'task eventloop =
  pendingJobs :: "'task list"
  doingPendingJobs :: bool
  quitting :: bool
  threadId :: nat
  eventfd :: nat
  poller :: epoller

definition isInLoopThread :: "nat \<Rightarrow> 'task eventloop \<Rightarrow> bool" where
  "isInLoopThread tid l \<longleftrightarrow> threadId l = tid"

definition assertInLoopThread :: "nat \<Rightarrow> 'task eventloop \<Rightarrow> 'a result \<Rightarrow> 'a result" where
  "assertInLoopThread tid l k = assertR (isInLoopThread tid l) k"

subsection \<open>Wake-ups and tasks\<close>

text \<open>Writing 1 to an eventfd fails (and the code only logs it) when the counter is at its maximum.\<close>

definition EventLoop_wakeup :: "'task eventloop \<Rightarrow> 'task eventloop" where
  "EventLoop_wakeup l = (if eventfd l < 2 ^ 64 - 2 then l\<lparr>eventfd := eventfd l + 1\<rparr> else l)"

definition EventLoop_handleRead :: "'task eventloop \<Rightarrow> 'task eventloop" where
  "EventLoop_handleRead l = l\<lparr>eventfd := 0\<rparr>"

definition queueInLoop :: "nat \<Rightarrow> 'task \<Rightarrow> 'task eventloop \<Rightarrow> 'task eventloop" where
  "queueInLoop tid task l =
     (let l1 = l\<lparr>pendingJobs := pendingJobs l @ [task]\<rparr>
      in if \<not> isInLoopThread tid l1 \<or> doingPendingJobs l1 then EventLoop_wakeup l1 else l1)"

text \<open>
  The two overloads of \<open>runInLoop\<close> differ: the one for a named (lvalue) task tests
  \<open>!isInLoopThread()\<close> before running the task at once, the one for a temporary tests
  \<open>isInLoopThread()\<close>.
\<close>

definition runInLoop_lvalue :: "nat \<Rightarrow> ('task \<Rightarrow> 'task eventloop \<times> 'x \<Rightarrow> ('task eventloop \<times> 'x) result)
    \<Rightarrow> 'task \<Rightarrow> 'task eventloop \<times> 'x \<Rightarrow> ('task eventloop \<times> 'x) result" where
  "runInLoop_lvalue tid exec task w =
     (if \<not> isInLoopThread tid (fst w) then exec task w
      else Inr (queueInLoop tid task (fst w), snd w))"

definition runInLoop :: "nat \<Rightarrow> ('task \<Rightarrow> 'task eventloop \<times> 'x \<Rightarrow> ('task eventloop \<times> 'x) result)
    \<Rightarrow> 'task \<Rightarrow> 'task eventloop \<times> 'x \<Rightarrow> ('task eventloop \<times> 'x) result" where
  "runInLoop tid exec task w =
     (if isInLoopThread tid (fst w) then exec task w
      else Inr (queueInLoop tid task (fst w), snd w))"

definition EventLoop_quit :: "nat \<Rightarrow> 'task eventloop \<Rightarrow> 'task eventloop result" where
  "EventLoop_quit tid l =
     assertR (\<not> quitting l)
       (let l1 = l\<lparr>quitting := True\<rparr>
        in Inr (if \<not> isInLoopThread tid l1 then EventLoop_wakeup l1 else l1))"

definition doPendingJobs :: "nat \<Rightarrow> ('task \<Rightarrow> 'task eventloop \<times> 'x \<Rightarrow> ('task eventloop \<times> 'x) result)
    \<Rightarrow> 'task eventloop \<times> 'x \<Rightarrow> ('task eventloop \<times> 'x) result" where
  "doPendingJobs tid exec w =
     assertInLoopThread tid (fst w)
       (let jobs = pendingJobs (fst w);
            w1 = ((fst w)\<lparr>pendingJobs := [], doingPendingJobs := True\<rparr>, snd w)
        in bindR (foldR exec jobs w1)
             (\<lambda>w2. Inr ((fst w2)\<lparr>doingPendingJobs := False\<rparr>, snd w2)))"

subsection \<open>Channels of the loop\<close>

definition EventLoop_updateChannel :: "nat \<Rightarrow> channel \<Rightarrow> 'task eventloop \<Rightarrow> (channel \<times> 'task eventloop) result" where
  "EventLoop_updateChannel tid ch l =
     assertInLoopThread tid l
       (bindR (Epoller_updateChannel ch (poller l)) (\<lambda>(ch', ep). Inr (ch', l\<lparr>poller := ep\<rparr>)))"

definition chan_do :: "chan_op \<Rightarrow> nat \<Rightarrow> channel \<Rightarrow> 'task eventloop \<Rightarrow> (channel \<times> 'task eventloop) result" where
  "chan_do op tid ch l = EventLoop_updateChannel tid (ch\<lparr>events := new_events op (events ch)\<rparr>) l"

definition EventLoop_removeChannel :: "nat \<Rightarrow> channel \<Rightarrow> 'task eventloop \<Rightarrow> (channel \<times> 'task eventloop) result" where
  "EventLoop_removeChannel tid ch l = assertInLoopThread tid l (chan_do DisableAll tid ch l)"

definition Channel_remove :: "nat \<Rightarrow> channel \<Rightarrow> 'task eventloop \<Rightarrow> (channel \<times> 'task eventloop) result" where
  "Channel_remove tid ch l = assertR (polling ch) (EventLoop_removeChannel tid ch l)"

text \<open>
  The constructor: the timer queue's channel and the wake-up channel are registered for reading;
  a failed \<open>timerfd_create\<close> or \<open>eventfd\<close> aborts, and so does a second loop in the same thread.
\<close>

definition EventLoop_new :: "nat \<Rightarrow> int \<Rightarrow> int \<Rightarrow> bool \<Rightarrow> (channel \<times> channel \<times> 'task eventloop) result" where
  "EventLoop_new tid timerfd wakeupfd thread_has_loop =
     (let l = \<lparr>pendingJobs = [], doingPendingJobs = False, quitting = False, threadId = tid,
              eventfd = 0, poller = Epoller_new\<rparr>
      in if timerfd = -1 then Inl Aborted
         else assertInLoopThread tid l
          (bindR (chan_do EnableRead tid (setCallBack ReadCb (Channel_new timerfd)) l) (\<lambda>(tch, l1).
             if wakeupfd = -1 then Inl Aborted
             else bindR (chan_do EnableRead tid (setCallBack ReadCb (Channel_new wakeupfd)) l1)
               (\<lambda>(wch, l2). assertR (\<not> thread_has_loop) (Inr (tch, wch, l2))))))"

subsection \<open>The loop\<close>

text \<open>
  The owner of the loop's state says where the loop and the channels are in it, what a callback of
  a channel does and what a task does. \<open>EventLoop_loop\<close> runs over the results that \<open>epoll_wait\<close>
  delivers one after the other; the flag of its result tells whether the loop returned (\<open>True\<close>) or
  waits in \<open>epoll_wait\<close> after the last of them.
\<close>

record ('task, 'x) loop_client =
  get_chans :: "'task eventloop \<times> 'x \<Rightarrow> (nat \<rightharpoonup> channel)"
  set_chans :: "(nat \<rightharpoonup> channel) \<Rightarrow> 'task eventloop \<times> 'x \<Rightarrow> 'task eventloop \<times> 'x"
  on_event :: "nat \<Rightarrow> cbkind \<Rightarrow> 'task eventloop \<times> 'x \<Rightarrow> ('task eventloop \<times> 'x) result"
  run_task :: "'task \<Rightarrow> 'task eventloop \<times> 'x \<Rightarrow> ('task eventloop \<times> 'x) result"

definition upd_chan :: "('task, 'x) loop_client \<Rightarrow> nat \<Rightarrow> (channel \<Rightarrow> channel) \<Rightarrow> 'task eventloop \<times> 'x
    \<Rightarrow> 'task eventloop \<times> 'x" where
  "upd_chan c p f w = set_chans c ((get_chans c w)(p := map_option f (get_chans c w p))) w"

definition Channel_handleEvents :: "nat \<Rightarrow> ('task, 'x) loop_client \<Rightarrow> nat \<Rightarrow> 'task eventloop \<times> 'x
    \<Rightarrow> ('task eventloop \<times> 'x) result" where
  "Channel_handleEvents tid c p w =
     assertInLoopThread tid (fst w)
       (handleEventsWithGuard (\<lambda>w. get_chans c w p) (upd_chan c p) (on_event c p) w)"

definition loop_iteration :: "nat \<Rightarrow> ('task, 'x) loop_client \<Rightarrow> epoll_wait_result \<Rightarrow> 'task eventloop \<times> 'x
    \<Rightarrow> ('task eventloop \<times> 'x) result" where
  "loop_iteration tid c r w =
     assertInLoopThread tid (fst w)
       (bindR (Poll r (poller (fst w)) (get_chans c w)) (\<lambda>(ep, chs, active).
          bindR (foldR (Channel_handleEvents tid c) active
                   (set_chans c chs ((fst w)\<lparr>poller := ep\<rparr>, snd w)))
            (doPendingJobs tid (run_task c))))"

fun loop_from :: "nat \<Rightarrow> ('task, 'x) loop_client \<Rightarrow> epoll_wait_result list \<Rightarrow> 'task eventloop \<times> 'x
    \<Rightarrow> (('task eventloop \<times> 'x) \<times> bool) result" where
  "loop_from tid c [] w = Inr (w, False)"
| "loop_from tid c (r # rs) w =
     bindR (loop_iteration tid c r w)
       (\<lambda>w1. if quitting (fst w1) then Inr (w1, True) else loop_from tid c rs w1)"

definition EventLoop_loop :: "nat \<Rightarrow> ('task, 'x) loop_client \<Rightarrow> epoll_wait_result list \<Rightarrow> 'task eventloop \<times> 'x
    \<Rightarrow> (('task eventloop \<times> 'x) \<times> bool) result" where
  "EventLoop_loop tid c rs w =
     assertInLoopThread tid (fst w) (loop_from tid c rs ((fst w)\<lparr>quitting := False\<rparr>, snd w))"


subsection \<open>The kernel's interest list follows the channels\<close>

lemma new_events_clear: "m = 0 \<and> new_events op m = 0 \<longleftrightarrow> m = 0 \<and> op \<in> {DisableRead, DisableWrite, DisableAll}"
  by (cases op) (auto simp: new_events.simps epoll_bits)

lemma thread_simps [simp]:
  "isInLoopThread tid l \<Longrightarrow> assertInLoopThread tid l k = k"
  "isInLoopThread (threadId l) l"
  by (simp_all add: assertInLoopThread_def isInLoopThread_def)

lemma wakeup_simps [simp]:
  "pendingJobs (EventLoop_wakeup l) = pendingJobs l"
  "doingPendingJobs (EventLoop_wakeup l) = doingPendingJobs l"
  "quitting (EventLoop_wakeup l) = quitting l"
  "threadId (EventLoop_wakeup l) = threadId l"
  "poller (EventLoop_wakeup l) = poller l"
  by (simp_all add: EventLoop_wakeup_def)

lemma wakeup_pos: "0 < eventfd (EventLoop_wakeup l)"
  by (simp add: EventLoop_wakeup_def)

lemma queueInLoop_simps [simp]:
  "pendingJobs (queueInLoop tid task l) = pendingJobs l @ [task]"
  "doingPendingJobs (queueInLoop tid task l) = doingPendingJobs l"
  "quitting (queueInLoop tid task l) = quitting l"
  "threadId (queueInLoop tid task l) = threadId l"
  "poller (queueInLoop tid task l) = poller l"
  by (simp_all add: queueInLoop_def Let_def)

definition loop_sync :: "channel list \<Rightarrow> 'task eventloop \<Rightarrow> bool" where
  "loop_sync chs l \<longleftrightarrow> all_legal (ctl_log (poller l)) Map.empty
     \<and> (\<forall>ch \<in> set chs. chan_sync (interest (ctl_log (poller l)) Map.empty) ch)
     \<and> distinct (map chfd chs)"

lemma chan_do_idle:
  assumes "isInLoopThread tid l" "events ch = 0" "polling ch = False"
    and "op \<in> {DisableRead, DisableWrite, DisableAll}"
  shows "chan_do op tid ch l = Inl AssertFailed"
  using new_events_clear[of "events ch" op] assms
  by (simp add: chan_do_def EventLoop_updateChannel_def Epoller_updateChannel_def hasNoneEvents_def)

lemma chan_do_sync:
  assumes "isInLoopThread tid l" "loop_sync chs l" "i < length chs"
    and "\<not> (events (chs ! i) = 0 \<and> op \<in> {DisableRead, DisableWrite, DisableAll})"
  shows "\<exists>ch' l'. chan_do op tid (chs ! i) l = Inr (ch', l') \<and> loop_sync (chs[i := ch']) l'
    \<and> events ch' = new_events op (events (chs ! i)) \<and> chfd ch' = chfd (chs ! i)
    \<and> threadId l' = threadId l"
proof -
  let ?ch = "chs ! i"
  let ?ch1 = "?ch\<lparr>events := new_events op (events ?ch)\<rparr>"
  let ?ep = "poller l"
  have "chan_sync (interest (ctl_log ?ep) Map.empty) (?ch1\<lparr>events := events ?ch\<rparr>)"
    using assms(2,3) by (simp add: loop_sync_def)
  moreover have "\<not> (events ?ch = 0 \<and> events ?ch1 = 0)" using assms(4) new_events_clear by simp
  ultimately obtain ch' c where
    upd: "Epoller_updateChannel ?ch1 ?ep = Inr (ch', ?ep\<lparr>ctl_log := ctl_log ?ep @ [c]\<rparr>)" and
    ch': "ch' = ?ch1\<lparr>polling := (events ?ch1 \<noteq> 0)\<rparr>" and fd: "ctl_fd c = chfd ?ch1" and
    legal: "ctl_legal (interest (ctl_log ?ep) Map.empty) c" and
    sync: "chan_sync (interest (ctl_log ?ep @ [c]) Map.empty) ch'"
    using Epoller_updateChannel_cases(2) by blast
  let ?l' = "l\<lparr>poller := ?ep\<lparr>ctl_log := ctl_log ?ep @ [c]\<rparr>\<rparr>"
  have "chan_do op tid ?ch l = Inr (ch', ?l')"
    using assms(1) by (simp add: chan_do_def EventLoop_updateChannel_def upd)
  moreover have "loop_sync (chs[i := ch']) ?l'"
  proof -
    have "chan_sync (interest (ctl_log ?ep @ [c]) Map.empty) ch" if "j < length chs" "ch = chs[i := ch'] ! j" for j ch
    proof (cases "j = i")
      case True
      with that assms(3) sync show ?thesis by simp
    next
      case False
      then have "chfd (chs ! j) \<noteq> chfd ?ch"
        using that assms(2,3) by (auto simp: loop_sync_def distinct_conv_nth)
      with False that assms(2) fd show ?thesis
        by (simp add: loop_sync_def chan_sync_def interest_append ctl_effect_other)
    qed
    then have "\<forall>ch \<in> set (chs[i := ch']). chan_sync (interest (ctl_log ?ep @ [c]) Map.empty) ch"
      by (metis in_set_conv_nth length_list_update)
    moreover have "map chfd (chs[i := ch']) = map chfd chs"
      using assms(3) ch' by (simp add: map_update list_update_same_conv)
    ultimately show ?thesis using assms(2) legal by (simp add: loop_sync_def all_legal_append)
  qed
  ultimately show ?thesis using ch' by simp
qed

text \<open>A sequence of interest changes on a list of channels of the loop.\<close>

fun run_chan_ops :: "nat \<Rightarrow> (nat \<times> chan_op) list \<Rightarrow> channel list \<times> 'task eventloop
    \<Rightarrow> (channel list \<times> 'task eventloop) result" where
  "run_chan_ops tid [] w = Inr w"
| "run_chan_ops tid ((i, op) # ops) w =
     (if i < length (fst w)
      then bindR (chan_do op tid (fst w ! i) (snd w)) (\<lambda>(ch, l). run_chan_ops tid ops ((fst w)[i := ch], l))
      else Inl UndefinedBehaviour)"

text \<open>\<open>disables_idle\<close>: the sequence reaches a disable operation on a channel that asks for nothing.\<close>

definition disables_idle :: "nat \<Rightarrow> (nat \<times> chan_op) list \<Rightarrow> channel list \<times> 'task eventloop \<Rightarrow> bool" where
  "disables_idle tid ops w \<longleftrightarrow> (\<exists>ops1 i op ops2 chs1 l1. ops = ops1 @ (i, op) # ops2
     \<and> run_chan_ops tid ops1 w = Inr (chs1, l1) \<and> i < length chs1
     \<and> events (chs1 ! i) = 0 \<and> op \<in> {DisableRead, DisableWrite, DisableAll})"

lemma disables_idle_here:
  assumes "i < length chs" "events (chs ! i) = 0" "op \<in> {DisableRead, DisableWrite, DisableAll}"
  shows "disables_idle tid ((i, op) # ops) (chs, l)"
  unfolding disables_idle_def
  by (intro exI[of _ "[]"] exI[of _ i] exI[of _ op] exI[of _ ops] exI[of _ chs] exI[of _ l])
     (simp add: assms(1,2), use assms(3) in simp)

lemma disables_idle_later:
  assumes "disables_idle tid ops w1"
    and "\<And>os. run_chan_ops tid (x # os) w = run_chan_ops tid os w1"
  shows "disables_idle tid (x # ops) w"
proof -
  from assms(1) obtain ops1 i op ops2 chs1 l1 where "ops = ops1 @ (i, op) # ops2"
    "run_chan_ops tid ops1 w1 = Inr (chs1, l1)" and rest: "i < length chs1"
    "events (chs1 ! i) = 0" "op \<in> {DisableRead, DisableWrite, DisableAll}"
    unfolding disables_idle_def by blast
  then have "x # ops = (x # ops1) @ (i, op) # ops2" "run_chan_ops tid (x # ops1) w = Inr (chs1, l1)"
    using assms(2) by simp_all
  with rest show ?thesis unfolding disables_idle_def by blast
qed

lemma run_chan_ops_sync:
  assumes "isInLoopThread tid l" "loop_sync chs l" "\<forall>(i, op) \<in> set ops. i < length chs"
  shows "case run_chan_ops tid ops (chs, l) of
      Inr w' \<Rightarrow> loop_sync (fst w') (snd w') \<and> map chfd (fst w') = map chfd chs
    | Inl e \<Rightarrow> e = AssertFailed \<and> disables_idle tid ops (chs, l)"
  using assms
proof (induction ops arbitrary: chs l)
  case Nil
  then show ?case by simp
next
  case (Cons x ops)
  obtain i op where x: "x = (i, op)" by (cases x)
  have i: "i < length chs" using Cons.prems(3) x by simp
  show ?case
  proof (cases "events (chs ! i) = 0 \<and> op \<in> {DisableRead, DisableWrite, DisableAll}")
    case True
    have "chan_sync (interest (ctl_log (poller l)) Map.empty) (chs ! i)"
      using Cons.prems(2) i by (simp add: loop_sync_def)
    then have "polling (chs ! i) = False" using True by (simp add: chan_sync_def)
    with chan_do_idle[OF Cons.prems(1)] True have "run_chan_ops tid (x # ops) (chs, l) = Inl AssertFailed"
      using i x by simp
    moreover have "disables_idle tid (x # ops) (chs, l)"
      unfolding x by (rule disables_idle_here) (use i True in simp_all)
    ultimately show ?thesis by simp
  next
    case False
    from chan_do_sync[OF Cons.prems(1,2) i False] obtain ch' l' where
      1: "chan_do op tid (chs ! i) l = Inr (ch', l')" "loop_sync (chs[i := ch']) l'"
        "chfd ch' = chfd (chs ! i)" "threadId l' = threadId l" by blast
    have step: "run_chan_ops tid (x # os) (chs, l) = run_chan_ops tid os (chs[i := ch'], l')" for os
      using i 1(1) x by simp
    have fds: "map chfd (chs[i := ch']) = map chfd chs"
      using i 1(3) by (simp add: map_update list_update_same_conv)
    have "isInLoopThread tid l'" using Cons.prems(1) 1(4) by (simp add: isInLoopThread_def)
    moreover have "\<forall>(i, op) \<in> set ops. i < length (chs[i := ch'])" using Cons.prems(3) by auto
    ultimately have IH: "case run_chan_ops tid ops (chs[i := ch'], l') of
      Inr w' \<Rightarrow> loop_sync (fst w') (snd w') \<and> map chfd (fst w') = map chfd (chs[i := ch'])
    | Inl e \<Rightarrow> e = AssertFailed \<and> disables_idle tid ops (chs[i := ch'], l')"
      using 1(2) Cons.prems(3) by (intro Cons.IH) auto
    show ?thesis
    proof (cases "run_chan_ops tid ops (chs[i := ch'], l')")
      case (Inr w')
      with IH fds show ?thesis by (simp add: step)
    next
      case (Inl e)
      with IH have "e = AssertFailed" "disables_idle tid ops (chs[i := ch'], l')" by simp_all
      with Inl disables_idle_later[OF this(2) step] show ?thesis by (simp add: step)
    qed
  qed
qed

text \<open>
  C5. The kernel's interest list follows the channels. Whatever sequence of enable and disable
  operations the loop thread runs on freshly built channels of distinct descriptors, every
  \<open>epoll_ctl\<close> call the library makes is one the kernel accepts (no second \<open>ADD\<close>, no \<open>MOD\<close> or \<open>DEL\<close>
  of a descriptor that is not registered), and afterwards each channel's descriptor is registered
  exactly when the channel asks for events, with exactly those events. The only way the sequence
  can stop is the assertion of \<open>Epoller::updateChannel\<close>, and it fails only for a disable operation
  on a channel that asks for nothing.
\<close>

theorem epoll_follows_channels:
  assumes "isInLoopThread tid l" "ctl_log (poller l) = []" "distinct fds"
    and "\<forall>(i, op) \<in> set ops. i < length fds"
  shows "case run_chan_ops tid ops (map Channel_new fds, l) of
      Inr (chs', l') \<Rightarrow> all_legal (ctl_log (poller l')) Map.empty \<and> map chfd chs' = fds
        \<and> (\<forall>ch \<in> set chs'. polling ch = (events ch \<noteq> 0)
             \<and> interest (ctl_log (poller l')) Map.empty (chfd ch)
                 = (if events ch = 0 then None else Some (events ch)))
    | Inl e \<Rightarrow> e = AssertFailed \<and> disables_idle tid ops (map Channel_new fds, l)"
proof -
  have fds: "map chfd (map Channel_new fds) = fds" by (induction fds) (simp_all add: Channel_new_def)
  moreover have "\<forall>ch \<in> set (map Channel_new fds). events ch = 0 \<and> \<not> polling ch"
    by (simp add: Channel_new_def)
  ultimately have sync: "loop_sync (map Channel_new fds) l"
    using assms(2,3) by (simp add: loop_sync_def chan_sync_def)
  have idx: "\<forall>(i, op) \<in> set ops. i < length (map Channel_new fds)" using assms(4) by simp
  show ?thesis
  proof (cases "run_chan_ops tid ops (map Channel_new fds, l)")
    case (Inl e)
    with run_chan_ops_sync[OF assms(1) sync idx] show ?thesis by simp
  next
    case (Inr w')
    with run_chan_ops_sync[OF assms(1) sync idx] fds
    have "loop_sync (fst w') (snd w')" "map chfd (fst w') = fds" by simp_all
    with Inr show ?thesis by (simp add: loop_sync_def chan_sync_def split_beta)
  qed
qed

theorem epoll_follows_channels_witness:
  "\<exists>l chs' l'. run_chan_ops 1 [(0, EnableRead), (0, DisableAll)] (map Channel_new [7, 9], l :: unit eventloop)
       = Inr (chs', l')
     \<and> all_legal (ctl_log (poller l')) Map.empty \<and> map chfd chs' = [7, 9]
     \<and> length (ctl_log (poller l')) = 2"
proof -
  let ?l = "\<lparr>pendingJobs = [], doingPendingJobs = False, quitting = False, threadId = 1, eventfd = 0,
             poller = Epoller_new\<rparr> :: unit eventloop"
  let ?ops = "[(0, EnableRead), (0, DisableAll)] :: (nat \<times> chan_op) list"
  have h: "isInLoopThread 1 ?l" "ctl_log (poller ?l) = []" "distinct [7, 9::int]"
    "\<forall>(i, op) \<in> set ?ops. i < length [7, 9::int]"
    by (simp_all add: isInLoopThread_def Epoller_new_def)
  obtain w' where r: "run_chan_ops 1 ?ops (map Channel_new [7, 9], ?l) = Inr w'"
    "length (ctl_log (poller (snd w'))) = 2"
    by (simp add: chan_do_def EventLoop_updateChannel_def Epoller_updateChannel_def hasNoneEvents_def
        Channel_new_def new_events.simps isInLoopThread_def Epoller_ctl_def Epoller_new_def epoll_bits)
  with epoll_follows_channels[OF h]
  have "all_legal (ctl_log (poller (snd w'))) Map.empty \<and> map chfd (fst w') = [7, 9]"
    by (simp add: split_beta)
  with r show ?thesis by (metis prod.collapse)
qed


subsection \<open>Running the pending jobs\<close>

text \<open>
  A task that records itself and queues follow-up tasks, given by \<open>spawn\<close>, as the tasks of
  \<open>TcpConnection\<close> do.
\<close>

definition spawning_task :: "nat \<Rightarrow> ('task \<Rightarrow> 'task list) \<Rightarrow> 'task \<Rightarrow> 'task eventloop \<times> 'task list
    \<Rightarrow> ('task eventloop \<times> 'task list) result" where
  "spawning_task tid spawn task w = Inr (fold (queueInLoop tid) (spawn task) (fst w), snd w @ [task])"

lemma fold_queueInLoop [simp]:
  "pendingJobs (fold (queueInLoop tid) ts l) = pendingJobs l @ ts"
  "doingPendingJobs (fold (queueInLoop tid) ts l) = doingPendingJobs l"
  "threadId (fold (queueInLoop tid) ts l) = threadId l"
  "quitting (fold (queueInLoop tid) ts l) = quitting l"
  by (induction ts arbitrary: l) simp_all

lemma queueInLoop_eventfd:
  "doingPendingJobs l \<Longrightarrow> 0 < eventfd (queueInLoop tid task l)"
  "0 < eventfd l \<Longrightarrow> 0 < eventfd (queueInLoop tid task l)"
  by (auto simp: queueInLoop_def Let_def wakeup_pos)

lemma fold_queueInLoop_pos: "0 < eventfd l \<Longrightarrow> 0 < eventfd (fold (queueInLoop tid) ts l)"
  by (induction ts arbitrary: l) (simp_all add: queueInLoop_eventfd)

lemma fold_queueInLoop_doing:
  "doingPendingJobs l \<Longrightarrow> ts \<noteq> [] \<Longrightarrow> 0 < eventfd (fold (queueInLoop tid) ts l)"
  by (cases ts) (simp_all add: fold_queueInLoop_pos queueInLoop_eventfd)

lemma spawning_batch:
  assumes "doingPendingJobs l" "pendingJobs l \<noteq> [] \<longrightarrow> 0 < eventfd l"
  shows "\<exists>l'. foldR (spawning_task tid spawn) jobs (l, log) = Inr (l', log @ jobs)
     \<and> pendingJobs l' = pendingJobs l @ concat (map spawn jobs) \<and> doingPendingJobs l'
     \<and> (pendingJobs l' \<noteq> [] \<longrightarrow> 0 < eventfd l')"
  using assms
proof (induction jobs arbitrary: l log)
  case Nil
  then show ?case by simp
next
  case (Cons j jobs)
  let ?l1 = "fold (queueInLoop tid) (spawn j) l"
  have "doingPendingJobs ?l1" using Cons.prems(1) by simp
  moreover have "pendingJobs ?l1 \<noteq> [] \<longrightarrow> 0 < eventfd ?l1"
    using Cons.prems fold_queueInLoop_pos[of l tid "spawn j"] fold_queueInLoop_doing[of l "spawn j" tid]
    by auto
  ultimately have "\<exists>l'. foldR (spawning_task tid spawn) jobs (?l1, log @ [j]) = Inr (l', (log @ [j]) @ jobs)
     \<and> pendingJobs l' = pendingJobs ?l1 @ concat (map spawn jobs) \<and> doingPendingJobs l'
     \<and> (pendingJobs l' \<noteq> [] \<longrightarrow> 0 < eventfd l')" by (rule Cons.IH)
  moreover have "spawning_task tid spawn j (l, log) = Inr (?l1, log @ [j])"
    by (simp add: spawning_task_def)
  ultimately show ?case by simp
qed

text \<open>
  C6. \<open>doPendingJobs\<close> runs one batch: whatever tasks are pending and whatever tasks they queue, each
  pending task is executed exactly once and in the order of queueing; the tasks queued meanwhile are
  not run in the same call (so a task that queues itself does not keep the loop from polling) but
  are pending afterwards, in order, and then the eventfd is readable, so the next \<open>epoll_wait\<close>
  returns at once.
\<close>

theorem doPendingJobs_one_batch:
  fixes l :: "'task eventloop"
  shows "\<exists>l'. doPendingJobs (threadId l) (spawning_task (threadId l) spawn) (l, []) = Inr (l', pendingJobs l)
     \<and> pendingJobs l' = concat (map spawn (pendingJobs l)) \<and> \<not> doingPendingJobs l'
     \<and> (pendingJobs l' = [] \<or> 0 < eventfd l')"
proof -
  let ?l0 = "l\<lparr>pendingJobs := [], doingPendingJobs := True\<rparr>"
  from spawning_batch[of ?l0 "threadId l" spawn "pendingJobs l" "[]"] obtain l' where
    "foldR (spawning_task (threadId l) spawn) (pendingJobs l) (?l0, []) = Inr (l', pendingJobs l)"
    "pendingJobs l' = concat (map spawn (pendingJobs l))" "pendingJobs l' \<noteq> [] \<longrightarrow> 0 < eventfd l'"
    by auto
  then show ?thesis by (auto simp: doPendingJobs_def Let_def)
qed

text \<open>
  The thread a task runs in. The \<open>Task&&\<close> overload of \<open>runInLoop\<close> and \<open>queueInLoop\<close> confine
  a task to the loop's thread: called from another thread the task is only queued, last, and the
  loop is woken; called from the loop's thread it runs at once. The \<open>const Task&\<close> overload does the
  opposite: from another thread it runs the task in that thread and queues nothing, and in the
  loop's own thread it defers the task.
\<close>

theorem runInLoop_confinement:
  "tid \<noteq> threadId l \<Longrightarrow>
     (\<exists>l'. runInLoop tid exec task (l, x) = Inr (l', x) \<and> pendingJobs l' = pendingJobs l @ [task]
        \<and> 0 < eventfd l')
     \<and> runInLoop (threadId l) exec task (l, x) = exec task (l, x)
     \<and> runInLoop_lvalue tid exec task (l, x) = exec task (l, x)
     \<and> (\<exists>l'. runInLoop_lvalue (threadId l) exec task (l, x) = Inr (l', x)
        \<and> pendingJobs l' = pendingJobs l @ [task])"
  by (auto simp: runInLoop_def runInLoop_lvalue_def isInLoopThread_def queueInLoop_def Let_def wakeup_pos)

theorem runInLoop_confinement_witness:
  "\<exists>l l'. threadId l = 1 \<and> runInLoop 2 (\<lambda>t w. Inr (fst w, snd w @ [t])) (5::nat) (l, []) = Inr (l', [])
     \<and> pendingJobs l' = [5]
     \<and> runInLoop_lvalue 2 (\<lambda>t w. Inr (fst w, snd w @ [t])) (5::nat) (l, []) = Inr (l, [5])"
proof -
  let ?l = "\<lparr>pendingJobs = [], doingPendingJobs = False, quitting = False, threadId = 1, eventfd = 0,
             poller = Epoller_new\<rparr> :: nat eventloop"
  have "2 \<noteq> threadId ?l" by simp
  from runInLoop_confinement[OF this, of "\<lambda>t w. Inr (fst w, snd w @ [t])" 5 "[]"] obtain l' where
    l': "runInLoop 2 (\<lambda>t w. Inr (fst w, snd w @ [t])) 5 (?l, []) = Inr (l', [])" "pendingJobs l' = [5]"
    "runInLoop_lvalue 2 (\<lambda>t w. Inr (fst w, snd w @ [t])) 5 (?l, []) = Inr (?l, [5])" by auto
  show ?thesis by (rule exI[of _ ?l], rule exI[of _ l']) (use l' in simp)
qed

end
