(* ===== verification/Steps.thy ===== *)
theory Steps
  imports Prelude
begin

text \<open>
  Step relations: the states a system can reach from its start states, and the rule that an
  invariant of the steps holds in all of them. The concurrent parts of the program (the event loop
  and the threads that post to it, the thread pool, a connection and its callers) are step
  relations of this kind.
\<close>

inductive reach :: "('s \<Rightarrow> bool) \<Rightarrow> ('s \<Rightarrow> 's \<Rightarrow> bool) \<Rightarrow> 's \<Rightarrow> bool" for start step where
  reach_start: "start s \<Longrightarrow> reach start step s"
| reach_step: "reach start step s \<Longrightarrow> step s t \<Longrightarrow> reach start step t"

fun path :: "('s \<Rightarrow> 's \<Rightarrow> bool) \<Rightarrow> 's \<Rightarrow> 's list \<Rightarrow> bool" where
  "path step s [] = True"
| "path step s (t # ts) = (step s t \<and> path step t ts)"

lemma reach_path: "reach start step s \<Longrightarrow> path step s ts \<Longrightarrow> reach start step (last (s # ts))"
proof (induction ts arbitrary: s)
  case Nil
  then show ?case by simp
next
  case (Cons t ts)
  then have "reach start step t" by (auto intro: reach_step)
  with Cons show ?case by simp
qed

locale safe_system =
  fixes start :: "'s \<Rightarrow> bool" and step :: "'s \<Rightarrow> 's \<Rightarrow> bool" and inv :: "'s \<Rightarrow> bool"
  assumes inv_start: "start s \<Longrightarrow> inv s"
    and inv_step: "inv s \<Longrightarrow> step s t \<Longrightarrow> inv t"
begin

lemma reach_inv: "reach start step s \<Longrightarrow> inv s"
  by (induction rule: reach.induct) (auto intro: inv_start inv_step)

end

text \<open>
  Progress: where a step that keeps \<open>good\<close> and lowers a measure is enabled in each state that is
  not a goal, a goal can be reached.
\<close>

locale progress =
  fixes step :: "'s \<Rightarrow> 's \<Rightarrow> bool" and good :: "'s \<Rightarrow> bool" and goal :: "'s \<Rightarrow> bool" and variant :: "'s \<Rightarrow> nat"
  assumes advance: "good s \<Longrightarrow> \<not> goal s \<Longrightarrow> \<exists>t. step s t \<and> good t \<and> variant t < variant s"
begin

lemma reaches_goal: "good s \<Longrightarrow> \<exists>ts. path step s ts \<and> goal (last (s # ts))"
proof (induction "variant s" arbitrary: s rule: less_induct)
  case less
  show ?case
  proof (cases "goal s")
    case True
    then show ?thesis by (intro exI[of _ "[]"]) simp
  next
    case False
    from advance[OF less.prems False] obtain t where t: "step s t" "good t" "variant t < variant s" by blast
    from less.hyps[OF t(3,2)] obtain ts where "path step t ts" "goal (last (t # ts))" by blast
    with t(1) show ?thesis by (intro exI[of _ "t # ts"]) simp
  qed
qed

end

end
