(* ===== verification/Loop_Threads.thy ===== *)
theory Loop_Threads
  imports EventLoop Steps
begin

text \<open>
  The event loop among other threads: \<open>EventLoop::loop\<close> in the loop's thread, and any number of
  threads that call \<open>queueInLoop\<close> and \<open>quit\<close>. A step is what happens atomically: the
  \<open>push_back\<close> under the mutex, the \<open>write\<close> to the eventfd, the store to \<open>quit_\<close>, the return of
  \<open>epoll_wait\<close> with the \<open>read\<close> of the eventfd, the \<open>swap\<close> under the mutex, one job. In the code a
  poster pushes (or sets \<open>quit_\<close>) and then calls \<open>wakeup()\<close>; anything may happen in between.

  \<open>posted\<close>, \<open>executed\<close> and \<open>quit_calls\<close> only record what happened.
\<close>

datatype loop_pc = Starting | Polling | Handling | Running | Exited

datatype poster_pc = Idle | AboutToWake

record loop_sys =
  shared :: "nat eventloop"
  pc :: loop_pc
  batch :: "nat list"
  poster :: "nat \<Rightarrow> poster_pc"
  posted :: "nat list"
  executed :: "nat list"
  quit_calls :: nat

definition push_job :: "nat \<Rightarrow> 'task \<Rightarrow> 'task eventloop \<Rightarrow> 'task eventloop" where
  "push_job tid task l = l\<lparr>pendingJobs := pendingJobs l @ [task]\<rparr>"

definition wake_after_push :: "nat \<Rightarrow> 'task eventloop \<Rightarrow> 'task eventloop" where
  "wake_after_push tid l =
     (if \<not> isInLoopThread tid l \<or> doingPendingJobs l then EventLoop_wakeup l else l)"

lemma queueInLoop_two_steps: "queueInLoop tid task l = wake_after_push tid (push_job tid task l)"
  by (simp add: queueInLoop_def wake_after_push_def push_job_def Let_def)

inductive loop_step :: "loop_sys \<Rightarrow> loop_sys \<Rightarrow> bool" where
  post: "tid \<noteq> threadId (shared s) \<Longrightarrow> poster s tid = Idle \<Longrightarrow>
     loop_step s (s\<lparr>shared := push_job tid j (shared s), posted := posted s @ [j],
                    poster := (poster s)(tid := AboutToWake)\<rparr>)"
| set_quit: "tid \<noteq> threadId (shared s) \<Longrightarrow> poster s tid = Idle \<Longrightarrow> \<not> quitting (shared s) \<Longrightarrow>
     loop_step s (s\<lparr>shared := (shared s)\<lparr>quitting := True\<rparr>, quit_calls := Suc (quit_calls s),
                    poster := (poster s)(tid := AboutToWake)\<rparr>)"
| wake: "poster s tid = AboutToWake \<Longrightarrow>
     loop_step s (s\<lparr>shared := EventLoop_wakeup (shared s), poster := (poster s)(tid := Idle)\<rparr>)"
| enter: "pc s = Starting \<Longrightarrow>
     loop_step s (s\<lparr>shared := (shared s)\<lparr>quitting := False\<rparr>, pc := Polling\<rparr>)"
| poll_wakeup: "pc s = Polling \<Longrightarrow> 0 < eventfd (shared s) \<Longrightarrow>
     loop_step s (s\<lparr>shared := EventLoop_handleRead (shared s), pc := Handling\<rparr>)"
| poll_other: "pc s = Polling \<Longrightarrow> loop_step s (s\<lparr>pc := Handling\<rparr>)"
| own_post: "pc s = Handling \<or> pc s = Running \<Longrightarrow>
     loop_step s (s\<lparr>shared := queueInLoop (threadId (shared s)) j (shared s), posted := posted s @ [j]\<rparr>)"
| own_quit: "pc s = Handling \<or> pc s = Running \<Longrightarrow> EventLoop_quit (threadId (shared s)) (shared s) = Inr l \<Longrightarrow>
     loop_step s (s\<lparr>shared := l, quit_calls := Suc (quit_calls s)\<rparr>)"
| swap_jobs: "pc s = Handling \<Longrightarrow>
     loop_step s (s\<lparr>shared := (shared s)\<lparr>pendingJobs := [], doingPendingJobs := True\<rparr>,
                    batch := pendingJobs (shared s), pc := Running\<rparr>)"
| run_job: "pc s = Running \<Longrightarrow> batch s = j # js \<Longrightarrow>
     loop_step s (s\<lparr>batch := js, executed := executed s @ [j]\<rparr>)"
| finish: "pc s = Running \<Longrightarrow> batch s = [] \<Longrightarrow>
     loop_step s (s\<lparr>shared := (shared s)\<lparr>doingPendingJobs := False\<rparr>,
                    pc := (if quitting (shared s) then Exited else Polling)\<rparr>)"

inductive_cases loop_stepE: "loop_step s t"

definition loop_start :: "loop_sys \<Rightarrow> bool" where
  "loop_start s \<longleftrightarrow> pc s = Starting \<and> batch s = [] \<and> (\<forall>t. poster s t = Idle)
     \<and> posted s = pendingJobs (shared s) \<and> executed s = [] \<and> quit_calls s = 0
     \<and> \<not> doingPendingJobs (shared s) \<and> \<not> quitting (shared s)
     \<and> (pendingJobs (shared s) \<noteq> [] \<longrightarrow> 0 < eventfd (shared s))"

text \<open>A wake-up is on its way: the eventfd is readable or some poster is about to write it.\<close>

definition wake_coming :: "loop_sys \<Rightarrow> bool" where
  "wake_coming s \<longleftrightarrow> 0 < eventfd (shared s) \<or> (\<exists>t. poster s t = AboutToWake)"

definition loop_inv :: "loop_sys \<Rightarrow> bool" where
  "loop_inv s \<longleftrightarrow> posted s = executed s @ batch s @ pendingJobs (shared s)
     \<and> (pc s \<noteq> Running \<longrightarrow> batch s = [])
     \<and> doingPendingJobs (shared s) = (pc s = Running)
     \<and> (pc s \<noteq> Handling \<and> pc s \<noteq> Exited \<and> pendingJobs (shared s) \<noteq> [] \<longrightarrow> wake_coming s)
     \<and> (pc s = Polling \<and> quitting (shared s) \<longrightarrow> wake_coming s)
     \<and> (pc s = Exited \<longrightarrow> quitting (shared s))"


lemma wake_coming_wakeup [simp]:
  "0 < eventfd (EventLoop_wakeup l)" "0 < eventfd l \<Longrightarrow> 0 < eventfd (EventLoop_wakeup l)"
  by (simp_all add: wakeup_pos)

lemma push_job_simps [simp]:
  "pendingJobs (push_job tid j l) = pendingJobs l @ [j]"
  "doingPendingJobs (push_job tid j l) = doingPendingJobs l"
  "quitting (push_job tid j l) = quitting l"
  "eventfd (push_job tid j l) = eventfd l"
  "threadId (push_job tid j l) = threadId l"
  by (simp_all add: push_job_def)

lemma handleRead_simps [simp]:
  "pendingJobs (EventLoop_handleRead l) = pendingJobs l"
  "doingPendingJobs (EventLoop_handleRead l) = doingPendingJobs l"
  "quitting (EventLoop_handleRead l) = quitting l"
  "threadId (EventLoop_handleRead l) = threadId l"
  by (simp_all add: EventLoop_handleRead_def)

lemma loop_inv_start: "loop_start s \<Longrightarrow> loop_inv s"
  by (auto simp: loop_start_def loop_inv_def wake_coming_def)

lemma own_post_wakes:
  "doingPendingJobs l \<Longrightarrow> 0 < eventfd (queueInLoop tid j l)"
  by (rule queueInLoop_eventfd)

lemma quit_own:
  "EventLoop_quit (threadId l) l = Inr l' \<Longrightarrow> l' = l\<lparr>quitting := True\<rparr>"
  by (auto simp: EventLoop_quit_def assertR_Inr_iff isInLoopThread_def Let_def)

lemma loop_inv_step:
  assumes "loop_inv s" "loop_step s t"
  shows "loop_inv t"
  using assms(2,1)
proof (cases rule: loop_step.cases)
  case (own_quit l)
  then show ?thesis using assms(1) quit_own[OF own_quit(3)]
    by (auto simp: loop_inv_def wake_coming_def)
next
  case (own_post j)
  then show ?thesis using assms(1) own_post_wakes[of "shared s" "threadId (shared s)" j]
    by (auto simp: loop_inv_def wake_coming_def)
qed (auto simp: loop_inv_def wake_coming_def)

interpretation lsys: safe_system loop_start loop_step loop_inv
  by unfold_locales (simp_all add: loop_inv_start loop_inv_step)

text \<open>
  C7. No job is lost, duplicated or reordered: in every state reachable under any interleaving of
  the loop's thread with any number of posting threads, the jobs posted so far are exactly the jobs
  executed, then those of the batch being run, then those pending, in the order of posting.
\<close>

theorem jobs_fifo_exactly_once:
  assumes "reach loop_start loop_step s"
  shows "posted s = executed s @ batch s @ pendingJobs (shared s)"
  using lsys.reach_inv[OF assms] by (simp add: loop_inv_def)

lemma run_batch:
  assumes "pc s = Running"
  shows "\<exists>ts. path loop_step s ts \<and> executed (last (s # ts)) = executed s @ batch s
     \<and> pc (last (s # ts)) = Running \<and> batch (last (s # ts)) = [] \<and> shared (last (s # ts)) = shared s"
  using assms
proof (induction "batch s" arbitrary: s)
  case Nil
  then show ?case by (intro exI[of _ "[]"]) simp
next
  case (Cons j js)
  let ?s1 = "s\<lparr>batch := js, executed := executed s @ [j]\<rparr>"
  have step: "loop_step s ?s1" using Cons.prems Cons.hyps(2) by (intro loop_step.run_job) simp_all
  have "pc ?s1 = Running" "js = batch ?s1" using Cons.prems by simp_all
  from Cons.hyps(1)[OF this(2) this(1)] obtain ts where ts: "path loop_step ?s1 ts"
    "executed (last (?s1 # ts)) = executed ?s1 @ batch ?s1" "pc (last (?s1 # ts)) = Running"
    "batch (last (?s1 # ts)) = []" "shared (last (?s1 # ts)) = shared ?s1" by blast
  then show ?case using step Cons.hyps(2)[symmetric]
    by (intro exI[of _ "?s1 # ts"]) simp
qed

lemma woken_loop_runs_all:
  assumes "pc s = Polling" "0 < eventfd (shared s)"
  shows "\<exists>ts. path loop_step s ts \<and> executed (last (s # ts)) = executed s @ pendingJobs (shared s)"
proof -
  let ?s1 = "s\<lparr>shared := EventLoop_handleRead (shared s), pc := Handling\<rparr>"
  let ?s2 = "?s1\<lparr>shared := (shared ?s1)\<lparr>pendingJobs := [], doingPendingJobs := True\<rparr>,
                 batch := pendingJobs (shared ?s1), pc := Running\<rparr>"
  have 1: "loop_step s ?s1" using assms by (rule loop_step.poll_wakeup)
  have 2: "loop_step ?s1 ?s2" by (rule loop_step.swap_jobs) simp
  have "pc ?s2 = Running" by simp
  from run_batch[OF this] obtain ts where "path loop_step ?s2 ts"
    "executed (last (?s2 # ts)) = executed s @ pendingJobs (shared s)" by auto
  with 1 2 show ?thesis by (intro exI[of _ "?s1 # ?s2 # ts"]) simp
qed

text \<open>
  C8. No lost wake-up: whenever the loop's thread waits in \<open>epoll_wait\<close> while a job is pending or
  \<open>quit\<close> was requested since it entered the loop, the eventfd is already readable or a poster is
  about to write it; so as soon as the posters have finished their call, the wait ends. Under the
  same condition the loop, woken, executes everything that was pending: the wait, the swap and the
  batch are enabled steps that lead to a state whose executed jobs include them all.
\<close>

theorem no_lost_wakeup:
  assumes "reach loop_start loop_step s" "pc s = Polling"
    and "pendingJobs (shared s) \<noteq> [] \<or> quitting (shared s)" "\<forall>t. poster s t = Idle"
  shows "0 < eventfd (shared s) \<and>
     (\<exists>ts. path loop_step s ts \<and> executed (last (s # ts)) = executed s @ pendingJobs (shared s))"
proof -
  have "wake_coming s" using lsys.reach_inv[OF assms(1)] assms(2,3) by (auto simp: loop_inv_def)
  then have "0 < eventfd (shared s)" using assms(4) by (auto simp: wake_coming_def)
  then show ?thesis using woken_loop_runs_all[OF assms(2)] by simp
qed

text \<open>A loop that was just built, in thread 1.\<close>

definition fresh_loop :: loop_sys where
  "fresh_loop = \<lparr>shared = \<lparr>pendingJobs = [], doingPendingJobs = False, quitting = False, threadId = 1,
       eventfd = 0, poller = Epoller_new\<rparr>,
     pc = Starting, batch = [], poster = (\<lambda>_. Idle), posted = [], executed = [], quit_calls = 0\<rparr>"

lemma fresh_start: "loop_start fresh_loop"
  by (simp add: loop_start_def fresh_loop_def)

definition posted_state :: loop_sys where
  "posted_state = fresh_loop\<lparr>shared := EventLoop_wakeup (push_job 2 7 ((shared fresh_loop)\<lparr>quitting := False\<rparr>)),
     pc := Polling, posted := [7], poster := ((\<lambda>_. Idle)(2 := AboutToWake))(2 := Idle)\<rparr>"

lemma posted_state_reachable: "reach loop_start loop_step posted_state"
proof -
  let ?s1 = "fresh_loop\<lparr>shared := (shared fresh_loop)\<lparr>quitting := False\<rparr>, pc := Polling\<rparr>"
  let ?s2 = "?s1\<lparr>shared := push_job 2 7 (shared ?s1), posted := posted ?s1 @ [7],
                 poster := (poster ?s1)(2 := AboutToWake)\<rparr>"
  have 1: "loop_step fresh_loop ?s1" by (rule loop_step.enter) (simp add: fresh_loop_def)
  have 2: "loop_step ?s1 ?s2" by (rule loop_step.post) (simp_all add: fresh_loop_def)
  have 3: "loop_step ?s2 (?s2\<lparr>shared := EventLoop_wakeup (shared ?s2), poster := (poster ?s2)(2 := Idle)\<rparr>)"
    by (rule loop_step.wake) simp
  have eq: "posted_state = ?s2\<lparr>shared := EventLoop_wakeup (shared ?s2), poster := (poster ?s2)(2 := Idle)\<rparr>"
    by (simp add: posted_state_def fresh_loop_def)
  from 1 2 3 have "path loop_step fresh_loop [?s1, ?s2, posted_state]" by (simp add: eq)
  from reach_path[OF reach_start[of loop_start, OF fresh_start] this] show ?thesis by simp
qed

theorem jobs_fifo_exactly_once_witness:
  "\<exists>s. reach loop_start loop_step s \<and> posted s = [7] \<and> [7] = executed s @ batch s @ pendingJobs (shared s)"
proof -
  have "posted posted_state = [7]" by (simp add: posted_state_def)
  with jobs_fifo_exactly_once[OF posted_state_reachable] posted_state_reachable show ?thesis by metis
qed

theorem no_lost_wakeup_witness:
  "\<exists>s ts. pc s = Polling \<and> pendingJobs (shared s) = [7] \<and> 0 < eventfd (shared s)
     \<and> path loop_step s ts \<and> executed (last (s # ts)) = [7]"
proof -
  have h: "pc posted_state = Polling" "pendingJobs (shared posted_state) \<noteq> [] \<or> quitting (shared posted_state)"
    "\<forall>t. poster posted_state t = Idle" "executed posted_state = []" "pendingJobs (shared posted_state) = [7]"
    by (simp_all add: posted_state_def fresh_loop_def)
  from no_lost_wakeup[OF posted_state_reachable h(1-3)] obtain ts where ts:
    "0 < eventfd (shared posted_state)" "path loop_step posted_state ts"
    "executed (last (posted_state # ts)) = executed posted_state @ pendingJobs (shared posted_state)" by blast
  have "executed (last (posted_state # ts)) = [7]" using ts(3) h(4,5) by simp
  with ts h show ?thesis by blast
qed

text \<open>
  A \<open>quit\<close> that comes before the loop is entered is lost: \<open>loop()\<close> starts by resetting
  \<open>quit_\<close>, so there is a run in which another thread's \<open>quit()\<close> completes, the loop consumes its
  wake-up, and afterwards the loop waits in \<open>epoll_wait\<close> with \<open>quit_\<close> false, nothing pending, the
  eventfd drained and no wake-up on its way. (\<open>TcpServerThreaded\<close>'s destructor calls \<open>quit()\<close> on a
  loop as soon as the loop's thread has published it, before that thread calls \<open>loop()\<close>, and then
  joins the thread.)
\<close>

theorem quit_before_loop_lost:
  "\<exists>s. reach loop_start loop_step s \<and> quit_calls s = 1 \<and> pc s = Polling \<and> \<not> quitting (shared s)
     \<and> pendingJobs (shared s) = [] \<and> \<not> wake_coming s"
proof -
  let ?a = fresh_loop
  let ?b = "?a\<lparr>shared := (shared ?a)\<lparr>quitting := True\<rparr>, quit_calls := Suc (quit_calls ?a),
               poster := (poster ?a)(2 := AboutToWake)\<rparr>"
  let ?c = "?b\<lparr>shared := EventLoop_wakeup (shared ?b), poster := (poster ?b)(2 := Idle)\<rparr>"
  let ?d = "?c\<lparr>shared := (shared ?c)\<lparr>quitting := False\<rparr>, pc := Polling\<rparr>"
  let ?e = "?d\<lparr>shared := EventLoop_handleRead (shared ?d), pc := Handling\<rparr>"
  let ?f = "?e\<lparr>shared := (shared ?e)\<lparr>pendingJobs := [], doingPendingJobs := True\<rparr>,
               batch := pendingJobs (shared ?e), pc := Running\<rparr>"
  let ?g = "?f\<lparr>shared := (shared ?f)\<lparr>doingPendingJobs := False\<rparr>,
               pc := (if quitting (shared ?f) then Exited else Polling)\<rparr>"
  have ab: "loop_step ?a ?b" by (rule loop_step.set_quit) (simp_all add: fresh_loop_def)
  have bc: "loop_step ?b ?c" by (rule loop_step.wake) simp
  have cd: "loop_step ?c ?d" by (rule loop_step.enter) (simp add: fresh_loop_def)
  have de: "loop_step ?d ?e" by (rule loop_step.poll_wakeup) (simp_all add: EventLoop_wakeup_def fresh_loop_def)
  have ef: "loop_step ?e ?f" by (rule loop_step.swap_jobs) simp
  have fg: "loop_step ?f ?g" by (rule loop_step.finish) (simp_all add: fresh_loop_def)
  have "path loop_step ?a [?b, ?c, ?d, ?e, ?f, ?g]" using ab bc cd de ef fg by simp
  from reach_path[OF reach_start[of loop_start, OF fresh_start] this]
  have r: "reach loop_start loop_step ?g" by simp
  show ?thesis
    by (rule exI[of _ ?g], rule conjI[OF r])
       (simp add: fresh_loop_def wake_coming_def EventLoop_handleRead_def)
qed

end
