(* ===== verification/Timer.thy ===== *)
theory Timer
  imports Prelude
begin

text \<open>
  \<open>leven/util/Timestamp.h\<close> and \<open>leven/Timer.h\<close>. Time points and durations are nanoseconds, here
  integers (an overflow of the 64-bit count is not modelled; it is reached in the year 2262). The
  clock is an argument of what reads it. The callback is a \<open>std::function\<close>, possibly empty; what
  it does when called is an argument of \<open>Timer_run\<close>.
\<close>

type_synonym timestamp = int

definition nowAfter :: "timestamp \<Rightarrow> int \<Rightarrow> timestamp" where
  "nowAfter now interval = now + interval"

definition nowBefore :: "timestamp \<Rightarrow> int \<Rightarrow> timestamp" where
  "nowBefore now interval = now - interval"

record 'cb timer =
  timer_callback :: "'cb option"
  timer_when :: timestamp
  timer_interval :: int
  timer_repeat :: bool
  timer_canceled :: bool

definition Timer_new :: "'cb option \<Rightarrow> timestamp \<Rightarrow> int \<Rightarrow> 'cb timer" where
  "Timer_new cb ts interval =
     \<lparr>timer_callback = cb, timer_when = ts, timer_interval = interval,
      timer_repeat = (interval > 0), timer_canceled = False\<rparr>"

definition Timer_run :: "('cb \<Rightarrow> 'w \<Rightarrow> 'w result) \<Rightarrow> 'cb timer \<Rightarrow> 'w \<Rightarrow> 'w result" where
  "Timer_run fire t w = (case timer_callback t of None \<Rightarrow> Inr w | Some cb \<Rightarrow> fire cb w)"

definition Timer_expired :: "'cb timer \<Rightarrow> timestamp \<Rightarrow> bool" where
  "Timer_expired t now \<longleftrightarrow> now \<ge> timer_when t"

definition Timer_restart :: "'cb timer \<Rightarrow> 'cb timer result" where
  "Timer_restart t = assertR (timer_repeat t) (Inr (t\<lparr>timer_when := timer_when t + timer_interval t\<rparr>))"

definition Timer_cancel :: "'cb timer \<Rightarrow> 'cb timer result" where
  "Timer_cancel t = assertR (\<not> timer_canceled t) (Inr (t\<lparr>timer_canceled := True\<rparr>))"

end
