(* ===== verification/Ordered_Set.thy ===== *)
theory Ordered_Set
  imports Prelude "HOL-Library.Product_Lexorder"
begin

text \<open>
  The interface of \<open>std::set\<close> that the timer queue uses: insertion, erasure of a key, the smallest
  element, and the removal of everything below a bound (\<open>lower_bound\<close>, \<open>assign\<close> and the range
  \<open>erase\<close>). The locale states the laws; the model of \<open>std::set\<close> is a strictly sorted list.
\<close>

locale ordered_set =
  fixes ok :: "'s \<Rightarrow> bool"
    and elems :: "'s \<Rightarrow> 'a::linorder set"
    and ins :: "'a \<Rightarrow> 's \<Rightarrow> 's"
    and del :: "'a \<Rightarrow> 's \<Rightarrow> 's"
    and below :: "'a \<Rightarrow> 's \<Rightarrow> 'a list"
    and above :: "'a \<Rightarrow> 's \<Rightarrow> 's"
    and least :: "'s \<Rightarrow> 'a option"
  assumes ok_ins: "ok s \<Longrightarrow> ok (ins x s)"
    and elems_ins: "ok s \<Longrightarrow> elems (ins x s) = insert x (elems s)"
    and ok_del: "ok s \<Longrightarrow> ok (del x s)"
    and elems_del: "ok s \<Longrightarrow> elems (del x s) = elems s - {x}"
    and ok_above: "ok s \<Longrightarrow> ok (above b s)"
    and elems_above: "ok s \<Longrightarrow> elems (above b s) = {x \<in> elems s. b \<le> x}"
    and elems_below: "ok s \<Longrightarrow> set (below b s) = {x \<in> elems s. x < b}"
    and sorted_below: "ok s \<Longrightarrow> sorted_wrt (<) (below b s)"
    and least_None: "ok s \<Longrightarrow> least s = None \<longleftrightarrow> elems s = {}"
    and least_Some: "ok s \<Longrightarrow> least s = Some m \<longleftrightarrow> m \<in> elems s \<and> (\<forall>x \<in> elems s. m \<le> x)"
begin

lemma below_above_partition:
  assumes "ok s"
  shows "set (below b s) \<union> elems (above b s) = elems s" "set (below b s) \<inter> elems (above b s) = {}"
  using assms by (auto simp: elems_below elems_above)

lemma least_ins:
  assumes "ok s"
  shows "least (ins x s) = Some x \<longleftrightarrow> (\<forall>y \<in> elems s. x \<le> y)"
  using assms by (auto simp: least_Some ok_ins elems_ins)

lemma distinct_below: "ok s \<Longrightarrow> distinct (below b s)"
  using sorted_below[of s b] strict_sorted_iff by blast

end

subsection \<open>The model of \<open>std::set\<close>\<close>

fun set_insert :: "'a::linorder \<Rightarrow> 'a list \<Rightarrow> 'a list" where
  "set_insert e [] = [e]"
| "set_insert e (x # xs) = (if e < x then e # x # xs else if e = x then x # xs else x # set_insert e xs)"

definition set_erase :: "'a::linorder \<Rightarrow> 'a list \<Rightarrow> 'a list" where
  "set_erase e xs = filter (\<lambda>x. x \<noteq> e) xs"

definition set_below :: "'a::linorder \<Rightarrow> 'a list \<Rightarrow> 'a list" where
  "set_below b xs = takeWhile (\<lambda>x. x < b) xs"

definition set_from :: "'a::linorder \<Rightarrow> 'a list \<Rightarrow> 'a list" where
  "set_from b xs = dropWhile (\<lambda>x. x < b) xs"

fun set_begin :: "'a::linorder list \<Rightarrow> 'a option" where
  "set_begin [] = None"
| "set_begin (x # xs) = Some x"

lemma set_set_insert [simp]: "set (set_insert e xs) = insert e (set xs)"
  by (induction xs) auto

lemma sorted_set_insert: "sorted_wrt (<) xs \<Longrightarrow> sorted_wrt (<) (set_insert e xs)"
  by (induction xs) (auto simp: not_less order.strict_iff_order)

lemma set_set_erase [simp]: "set (set_erase e xs) = set xs - {e}"
  by (auto simp: set_erase_def)

lemma sorted_set_erase: "sorted_wrt (<) xs \<Longrightarrow> sorted_wrt (<) (set_erase e xs)"
  by (simp add: set_erase_def sorted_wrt_filter)

lemma set_below_set: "sorted_wrt (<) xs \<Longrightarrow> set (set_below b xs) = {x \<in> set xs. x < b}"
  by (induction xs) (auto simp: set_below_def)

lemma set_from_set: "sorted_wrt (<) xs \<Longrightarrow> set (set_from b xs) = {x \<in> set xs. b \<le> x}"
  by (induction xs) (auto simp: set_from_def not_less)

lemma set_below_from: "set_below b xs @ set_from b xs = xs"
  by (simp add: set_below_def set_from_def)

lemma sorted_set_below: "sorted_wrt (<) xs \<Longrightarrow> sorted_wrt (<) (set_below b xs)"
  by (metis set_below_from sorted_wrt_append)

lemma sorted_set_from: "sorted_wrt (<) xs \<Longrightarrow> sorted_wrt (<) (set_from b xs)"
  by (metis set_below_from sorted_wrt_append)

lemma set_begin_None [simp]: "set_begin xs = None \<longleftrightarrow> xs = []"
  by (cases xs) auto

lemma set_begin_Some:
  "sorted_wrt (<) xs \<Longrightarrow> set_begin xs = Some m \<longleftrightarrow> m \<in> set xs \<and> (\<forall>x \<in> set xs. m \<le> x)"
  by (cases xs) (auto simp: order.strict_iff_order)

interpretation stdset: ordered_set "sorted_wrt (<)" set set_insert set_erase set_below set_from set_begin
  by unfold_locales
     (simp_all add: sorted_set_insert sorted_set_erase set_below_set set_from_set sorted_set_below
       sorted_set_from set_begin_Some)

end
