(* ===== verification/TimerQueue.thy ===== *)
theory TimerQueue
  imports Timer Ordered_Set EventLoop
begin

text \<open>
  \<open>leven/TimerQueue.h\<close> and \<open>TimerQueue.cc\<close>, with the timer methods of \<open>EventLoop.cc\<close>. A
  \<open>Timer*\<close> is an address; \<open>heap\<close> holds the live \<open>Timer\<close> objects, and using an address that is
  not in it is undefined behaviour. \<open>timers\<close> is the \<open>std::set\<close> of (expiry, address) pairs.
  \<open>armed\<close> is the expiry the timer descriptor was last set for, \<open>None\<close> once it went off; \<open>fired\<close>
  records the addresses of the timers whose callback ran.

  The address \<open>new\<close> returns is the argument \<open>alloc\<close>; that it is not the address of a live object
  is a hypothesis where it matters. The tasks the queue gives to \<open>runInLoop\<close> are \<open>tq_task\<close>, which \<open>mk\<close>
  makes tasks of the loop. What the callback of the timer at an address does is the argument \<open>fire\<close>;
  a program extends the record by the rest of its state, which its callbacks may change as well.
\<close>

record 'cb timerqueue =
  timers :: "(timestamp \<times> nat) list"
  heap :: "nat \<rightharpoonup> 'cb timer"
  armed :: "timestamp option"
  fired :: "nat list"

datatype tq_task = InsertTimer timestamp nat | CancelTimer nat

type_synonym ('task, 'cb, 'z) tq_world = "'task eventloop \<times> ('cb, 'z) timerqueue_scheme"

definition TimerQueue_new :: "'cb timerqueue" where
  "TimerQueue_new = \<lparr>timers = [], heap = Map.empty, armed = None, fired = []\<rparr>"

text \<open>The relative time given to \<open>timerfd_settime\<close>: seconds and nanoseconds, at least 1 ms.\<close>

definition durationFromNow :: "timestamp \<Rightarrow> timestamp \<Rightarrow> int \<times> int" where
  "durationFromNow now ts =
     (let ns = ts - now; ns = (if ns < 1000000 then 1000000 else ns)
      in (ns div 1000000000, ns mod 1000000000))"

definition timerfdSet :: "timestamp \<Rightarrow> ('cb, 'z) timerqueue_scheme \<Rightarrow> ('cb, 'z) timerqueue_scheme" where
  "timerfdSet ts q = q\<lparr>armed := Some ts\<rparr>"

definition timerfdRead :: "('cb, 'z) timerqueue_scheme \<Rightarrow> ('cb, 'z) timerqueue_scheme" where
  "timerfdRead q = q\<lparr>armed := None\<rparr>"

definition deref :: "('cb, 'z) timerqueue_scheme \<Rightarrow> nat \<Rightarrow> ('cb timer \<Rightarrow> 'a result) \<Rightarrow> 'a result" where
  "deref q p k = (case heap q p of None \<Rightarrow> Inl UndefinedBehaviour | Some t \<Rightarrow> k t)"

subsection \<open>Adding and cancelling\<close>

definition insert_in_loop :: "timestamp \<Rightarrow> nat \<Rightarrow> ('cb, 'z) timerqueue_scheme \<Rightarrow> ('cb, 'z) timerqueue_scheme result" where
  "insert_in_loop ts p q =
     assertR ((ts, p) \<notin> set (timers q))
       (let q1 = q\<lparr>timers := set_insert (ts, p) (timers q)\<rparr>
        in Inr (if set_begin (timers q1) = Some (ts, p) then timerfdSet ts q1 else q1))"

definition cancel_in_loop :: "nat \<Rightarrow> ('cb, 'z) timerqueue_scheme \<Rightarrow> ('cb, 'z) timerqueue_scheme result" where
  "cancel_in_loop p q =
     deref q p (\<lambda>t. bindR (Timer_cancel t) (\<lambda>t'.
       Inr (q\<lparr>timers := set_erase (timer_when t', p) (timers q), heap := (heap q)(p := None)\<rparr>)))"

fun run_tq_task :: "tq_task \<Rightarrow> ('task, 'cb, 'z) tq_world \<Rightarrow> ('task, 'cb, 'z) tq_world result" where
  "run_tq_task (InsertTimer ts p) w = bindR (insert_in_loop ts p (snd w)) (\<lambda>q. Inr (fst w, q))"
| "run_tq_task (CancelTimer p) w = bindR (cancel_in_loop p (snd w)) (\<lambda>q. Inr (fst w, q))"

definition addTimerTask :: "(tq_task \<Rightarrow> 'task) \<Rightarrow> ((nat \<rightharpoonup> 'cb timer) \<Rightarrow> nat) \<Rightarrow> nat \<Rightarrow> 'cb option \<Rightarrow> timestamp \<Rightarrow> int
    \<Rightarrow> ('task, 'cb, 'z) tq_world \<Rightarrow> (nat \<times> ('task, 'cb, 'z) tq_world) result" where
  "addTimerTask mk alloc tid cb ts interval w =
     (let p = alloc (heap (snd w));
          q1 = (snd w)\<lparr>heap := (heap (snd w))(p \<mapsto> Timer_new cb ts interval)\<rparr>
      in bindR (runInLoop tid (\<lambda>_. run_tq_task (InsertTimer ts p)) (mk (InsertTimer ts p)) (fst w, q1)) (\<lambda>w'. Inr (p, w')))"

definition TimerQueue_cancelTimer :: "(tq_task \<Rightarrow> 'task) \<Rightarrow> nat \<Rightarrow> nat \<Rightarrow> ('task, 'cb, 'z) tq_world \<Rightarrow> ('task, 'cb, 'z) tq_world result" where
  "TimerQueue_cancelTimer mk tid p w = runInLoop tid (\<lambda>_. run_tq_task (CancelTimer p)) (mk (CancelTimer p)) w"

definition runAt :: "(tq_task \<Rightarrow> 'task) \<Rightarrow> ((nat \<rightharpoonup> 'cb timer) \<Rightarrow> nat) \<Rightarrow> nat \<Rightarrow> timestamp \<Rightarrow> 'cb option \<Rightarrow> ('task, 'cb, 'z) tq_world
    \<Rightarrow> (nat \<times> ('task, 'cb, 'z) tq_world) result" where
  "runAt mk alloc tid ts cb w = addTimerTask mk alloc tid cb ts 0 w"

definition runAfter :: "(tq_task \<Rightarrow> 'task) \<Rightarrow> ((nat \<rightharpoonup> 'cb timer) \<Rightarrow> nat) \<Rightarrow> nat \<Rightarrow> timestamp \<Rightarrow> int \<Rightarrow> 'cb option \<Rightarrow> ('task, 'cb, 'z) tq_world
    \<Rightarrow> (nat \<times> ('task, 'cb, 'z) tq_world) result" where
  "runAfter mk alloc tid now interval cb w = runAt mk alloc tid (now + interval) cb w"

definition runEvery :: "(tq_task \<Rightarrow> 'task) \<Rightarrow> ((nat \<rightharpoonup> 'cb timer) \<Rightarrow> nat) \<Rightarrow> nat \<Rightarrow> timestamp \<Rightarrow> int \<Rightarrow> 'cb option \<Rightarrow> ('task, 'cb, 'z) tq_world
    \<Rightarrow> (nat \<times> ('task, 'cb, 'z) tq_world) result" where
  "runEvery mk alloc tid now interval cb w = addTimerTask mk alloc tid cb (now + interval) interval w"

definition EventLoop_cancelTimer :: "(tq_task \<Rightarrow> 'task) \<Rightarrow> nat \<Rightarrow> nat \<Rightarrow> ('task, 'cb, 'z) tq_world \<Rightarrow> ('task, 'cb, 'z) tq_world result" where
  "EventLoop_cancelTimer mk tid p w = TimerQueue_cancelTimer mk tid p w"

subsection \<open>Expiry\<close>

definition getExpired :: "timestamp \<Rightarrow> ('cb, 'z) timerqueue_scheme \<Rightarrow> (timestamp \<times> nat) list \<times> ('cb, 'z) timerqueue_scheme" where
  "getExpired now q =
     (let entry = (now + 1, 0)
      in (set_below entry (timers q), q\<lparr>timers := set_from entry (timers q)\<rparr>))"

text \<open>The body of the loop over the expired entries.\<close>

definition run_if_live :: "('cb \<Rightarrow> ('task, 'cb, 'z) tq_world \<Rightarrow> ('task, 'cb, 'z) tq_world result) \<Rightarrow> nat \<Rightarrow> 'cb timer \<Rightarrow> ('task, 'cb, 'z) tq_world
    \<Rightarrow> ('task, 'cb, 'z) tq_world result" where
  "run_if_live fire p t w =
     (if \<not> timer_canceled t then Timer_run fire t (fst w, (snd w)\<lparr>fired := fired (snd w) @ [p]\<rparr>) else Inr w)"

definition handle_expired :: "(nat \<Rightarrow> 'cb \<Rightarrow> ('task, 'cb, 'z) tq_world \<Rightarrow> ('task, 'cb, 'z) tq_world result) \<Rightarrow> timestamp
    \<Rightarrow> (timestamp \<times> nat) \<Rightarrow> ('task, 'cb, 'z) tq_world \<Rightarrow> ('task, 'cb, 'z) tq_world result" where
  "handle_expired fire now ele w =
     (let p = snd ele in
      deref (snd w) p (\<lambda>t. assertR (Timer_expired t now)
        (bindR (run_if_live (fire p) p t w) (\<lambda>w1.
          deref (snd w1) p (\<lambda>t1.
            if \<not> timer_canceled t1 \<and> timer_repeat t1
            then bindR (Timer_restart t1) (\<lambda>t2.
                   Inr (fst w1, (snd w1)\<lparr>heap := (heap (snd w1))(p \<mapsto> t2),
                                  timers := set_insert (timer_when t2, p) (timers (snd w1))\<rparr>))
            else Inr (fst w1, (snd w1)\<lparr>heap := (heap (snd w1))(p := None)\<rparr>))))))"

definition rearm :: "('cb, 'z) timerqueue_scheme \<Rightarrow> ('cb, 'z) timerqueue_scheme" where
  "rearm q = (case set_begin (timers q) of None \<Rightarrow> q | Some e \<Rightarrow> timerfdSet (fst e) q)"

definition TimerQueue_handleRead :: "(nat \<Rightarrow> 'cb \<Rightarrow> ('task, 'cb, 'z) tq_world \<Rightarrow> ('task, 'cb, 'z) tq_world result) \<Rightarrow> nat \<Rightarrow> timestamp
    \<Rightarrow> ('task, 'cb, 'z) tq_world \<Rightarrow> ('task, 'cb, 'z) tq_world result" where
  "TimerQueue_handleRead fire tid now w =
     assertInLoopThread tid (fst w)
       (let (expired, q1) = getExpired now (timerfdRead (snd w))
        in bindR (foldR (handle_expired fire now) expired (fst w, q1))
             (\<lambda>w2. Inr (fst w2, rearm (snd w2))))"

text \<open>The destructor frees the timers that are still scheduled.\<close>

definition TimerQueue_delete :: "('cb, 'z) timerqueue_scheme \<Rightarrow> ('cb, 'z) timerqueue_scheme result" where
  "TimerQueue_delete q =
     foldR (\<lambda>e q. deref q (snd e) (\<lambda>_. Inr (q\<lparr>heap := (heap q)(snd e := None)\<rparr>))) (timers q) q"


subsection \<open>Invariant\<close>

text \<open>
  \<open>tq_ok good D q\<close>: the scheduled entries are sorted, each belongs to a live timer of its own whose
  expiry is the entry's; the live timers are exactly the scheduled ones and those in \<open>D\<close> (allocated
  but not scheduled: being run by \<open>handleRead\<close>, or waiting for their insertion); no live timer is
  cancelled, and their callbacks are \<open>good\<close>.
\<close>

definition tq_ok :: "('cb \<Rightarrow> bool) \<Rightarrow> nat set \<Rightarrow> ('cb, 'z) timerqueue_scheme \<Rightarrow> bool" where
  "tq_ok good D q \<longleftrightarrow> sorted_wrt (<) (timers q) \<and> distinct (map snd (timers q)) \<and> finite D
     \<and> dom (heap q) = snd ` set (timers q) \<union> D \<and> snd ` set (timers q) \<inter> D = {}
     \<and> (\<forall>e \<in> set (timers q). \<forall>t. heap q (snd e) = Some t \<longrightarrow> timer_when t = fst e)
     \<and> (\<forall>p t. heap q p = Some t \<longrightarrow> \<not> timer_canceled t \<and> timer_repeat t = (timer_interval t > 0)
          \<and> (\<forall>cb. timer_callback t = Some cb \<longrightarrow> good cb))"

text \<open>The timer descriptor is set for the earliest timer or before it.\<close>

definition tq_covered :: "('cb, 'z) timerqueue_scheme \<Rightarrow> bool" where
  "tq_covered q \<longleftrightarrow> (case set_begin (timers q) of None \<Rightarrow> True
     | Some e \<Rightarrow> (case armed q of None \<Rightarrow> False | Some a \<Rightarrow> a \<le> fst e))"

lemma tq_okD:
  assumes "tq_ok good D q"
  shows "sorted_wrt (<) (timers q)" "distinct (map snd (timers q))" "finite D"
    "dom (heap q) = snd ` set (timers q) \<union> D" "snd ` set (timers q) \<inter> D = {}"
    "e \<in> set (timers q) \<Longrightarrow> heap q (snd e) = Some t \<Longrightarrow> timer_when t = fst e"
    "heap q p = Some t \<Longrightarrow> \<not> timer_canceled t"
    "heap q p = Some t \<Longrightarrow> timer_repeat t = (timer_interval t > 0)"
    "heap q p = Some t \<Longrightarrow> timer_callback t = Some cb \<Longrightarrow> good cb"
  using assms by (auto simp: tq_ok_def)

lemma tq_ok_finite: "tq_ok good D q \<Longrightarrow> finite (dom (heap q))"
  by (simp add: tq_okD(3,4))

lemma distinct_map_set_insert:
  fixes e :: "'a::linorder \<times> 'b::linorder"
  shows "distinct (map snd xs) \<Longrightarrow> snd e \<notin> snd ` set xs \<Longrightarrow> distinct (map snd (set_insert e xs))"
  by (induction xs) auto

lemma tq_ok_insert:
  assumes "tq_ok good (insert p D) q" "p \<notin> D" "heap q p = Some t"
  shows "tq_ok good D (q\<lparr>timers := set_insert (timer_when t, p) (timers q)\<rparr>)"
proof -
  note ok = tq_okD[OF assms(1)]
  have fresh: "p \<notin> snd ` set (timers q)" using ok(5) by auto
  have "distinct (map snd (set_insert (timer_when t, p) (timers q)))"
    using ok(2) fresh by (intro distinct_map_set_insert) simp_all
  moreover have "\<forall>e \<in> insert (timer_when t, p) (set (timers q)). \<forall>t'. heap q (snd e) = Some t' \<longrightarrow> timer_when t' = fst e"
    using ok(6) assms(3) by auto
  ultimately show ?thesis
    using assms fresh by (auto simp: tq_ok_def sorted_set_insert)
qed

lemma insert_in_loop_ok:
  assumes "tq_ok good (insert p D) q" "p \<notin> D" "heap q p = Some t" "timer_when t = ts"
  shows "\<exists>q'. insert_in_loop ts p q = Inr q' \<and> tq_ok good D q' \<and> heap q' = heap q \<and> fired q' = fired q
     \<and> set (timers q') = insert (ts, p) (set (timers q)) \<and> (tq_covered q \<longrightarrow> tq_covered q')"
proof -
  note ok = tq_okD[OF assms(1)]
  let ?q1 = "q\<lparr>timers := set_insert (ts, p) (timers q)\<rparr>"
  have fresh: "(ts, p) \<notin> set (timers q)" using ok(5) by force
  have ok1: "tq_ok good D ?q1" using tq_ok_insert[OF assms(1-3)] assms(4) by simp
  then have ok1': "tq_ok good D (timerfdSet ts ?q1)" by (simp add: tq_ok_def timerfdSet_def)
  show ?thesis
  proof (cases "set_begin (set_insert (ts, p) (timers q)) = Some (ts, p)")
    case True
    with fresh ok1' show ?thesis
      by (simp add: insert_in_loop_def Let_def timerfdSet_def tq_covered_def)
  next
    case False
    then obtain e es where "timers q = e # es" "set_insert (ts, p) (timers q) = e # set_insert (ts, p) es"
      by (cases "timers q") (auto split: if_splits)
    with False fresh ok1 show ?thesis
      by (simp add: insert_in_loop_def Let_def tq_covered_def insert_commute)
  qed
qed

lemma tq_covered_subset:
  assumes "sorted_wrt (<) (timers q)" "tq_covered q" "set (timers q') \<subseteq> set (timers q)" "armed q' = armed q"
  shows "tq_covered q'"
proof (cases "timers q'")
  case Nil
  then show ?thesis by (simp add: tq_covered_def)
next
  case (Cons e es)
  then obtain m ms where m: "timers q = m # ms" using assms(3) by (cases "timers q") auto
  have "e \<in> set (m # ms)" using assms(3) m Cons by auto
  moreover have "\<forall>x \<in> set ms. m < x" using assms(1) m by simp
  ultimately have "fst m \<le> fst e" by (cases m; cases e) (auto simp: less_prod_def)
  then show ?thesis using assms(2,4) m Cons by (simp add: tq_covered_def split: option.splits)
qed

lemma cancel_in_loop_ok:
  assumes "tq_ok good D q" "heap q p = Some t" "p \<notin> D"
  shows "\<exists>q'. cancel_in_loop p q = Inr q' \<and> tq_ok good D q' \<and> heap q' = (heap q)(p := None)
     \<and> set (timers q') = {e \<in> set (timers q). snd e \<noteq> p} \<and> fired q' = fired q \<and> (tq_covered q \<longrightarrow> tq_covered q')"
proof -
  note ok = tq_okD[OF assms(1)]
  let ?q' = "q\<lparr>timers := set_erase (timer_when t, p) (timers q), heap := (heap q)(p := None)\<rparr>"
  have c: "cancel_in_loop p q = Inr ?q'"
    using assms(2) ok(7)[OF assms(2)] by (simp add: cancel_in_loop_def deref_def Timer_cancel_def)
  have mem: "p \<in> snd ` set (timers q)" using assms ok(4) by blast
  have uniq: "e = (timer_when t, p)" if "e \<in> set (timers q)" "snd e = p" for e
    using ok(6)[OF that(1)] assms(2) that(2) by (simp add: prod_eq_iff)
  have set': "set (set_erase (timer_when t, p) (timers q)) = {e \<in> set (timers q). snd e \<noteq> p}"
    unfolding set_erase_def set_filter by (rule Collect_cong) (metis snd_conv uniq)
  have im: "snd ` {e \<in> set (timers q). snd e \<noteq> p} = snd ` set (timers q) - {p}" by auto
  have "distinct (map snd (timers ?q'))"
    using ok(2) by (simp add: set_erase_def distinct_map_filter)
  moreover have "sorted_wrt (<) (timers ?q')" using ok(1) by (simp add: sorted_set_erase)
  moreover have "dom (heap ?q') = snd ` set (timers ?q') \<union> D"
    using ok(4) assms(3) im by (simp del: set_set_erase add: set' Un_Diff)
  moreover have "snd ` set (timers ?q') \<inter> D = {}"
    using ok(5) im by (simp del: set_set_erase add: set') blast
  moreover have "\<forall>e \<in> set (timers ?q'). \<forall>t. heap ?q' (snd e) = Some t \<longrightarrow> timer_when t = fst e"
    using ok(6) by (simp del: set_set_erase add: set')
  moreover have "\<forall>r t. heap ?q' r = Some t \<longrightarrow> \<not> timer_canceled t \<and> timer_repeat t = (timer_interval t > 0)
      \<and> (\<forall>cb. timer_callback t = Some cb \<longrightarrow> good cb)"
    using ok(7,8,9) by simp
  ultimately have "tq_ok good D ?q'" using ok(3) by (simp only: tq_ok_def)
  moreover have "tq_covered q \<longrightarrow> tq_covered ?q'"
    using tq_covered_subset[OF ok(1), of ?q'] by (simp add: sorted_set_erase ok(1))
  ultimately show ?thesis using c set' by (simp del: set_set_erase)
qed


lemma tq_ok_retime:
  assumes "tq_ok good (insert p D) q" "p \<notin> D" "heap q p = Some t"
  shows "tq_ok good (insert p D) (q\<lparr>heap := (heap q)(p \<mapsto> t\<lparr>timer_when := ts\<rparr>)\<rparr>)"
proof -
  note ok = tq_okD[OF assms(1)]
  have "insert p (dom (heap q)) = snd ` set (timers q) \<union> insert p D" using ok(4) by auto
  moreover have "snd e \<noteq> p" if "e \<in> set (timers q)" for e using ok(5) that by auto
  ultimately show ?thesis
    using ok(1-3,5) ok(6) ok(7-9) assms(3) by (simp add: tq_ok_def)
qed

lemma tq_ok_free:
  assumes "tq_ok good (insert p D) q" "p \<notin> D"
  shows "tq_ok good D (q\<lparr>heap := (heap q)(p := None)\<rparr>)"
proof -
  note ok = tq_okD[OF assms(1)]
  have "dom (heap q) - {p} = snd ` set (timers q) \<union> D" using ok(4,5) assms(2) by auto
  moreover have "snd ` set (timers q) \<inter> D = {}" using ok(5) by auto
  ultimately show ?thesis using ok(1-3) ok(6) ok(7-9) by (simp add: tq_ok_def)
qed

lemma tq_ok_getExpired:
  assumes "tq_ok good {} q" "getExpired now q = (ex, q1)"
  shows "tq_ok good (snd ` set ex) q1" "distinct (map snd ex)"
    "ex = filter (\<lambda>e. fst e \<le> now) (timers q)" "timers q1 = filter (\<lambda>e. now < fst e) (timers q)"
    "heap q1 = heap q" "fired q1 = fired q" "armed q1 = armed q"
proof -
  note ok = tq_okD[OF assms(1)]
  let ?b = "(now + 1, 0) :: timestamp \<times> nat"
  have ex: "ex = set_below ?b (timers q)" and q1: "q1 = q\<lparr>timers := set_from ?b (timers q)\<rparr>"
    using assms(2) by (simp_all add: getExpired_def Let_def)
  have below: "set_below ?b xs = filter (\<lambda>e. fst e \<le> now) xs \<and> set_from ?b xs = filter (\<lambda>e. now < fst e) xs"
    if "sorted_wrt (<) xs" for xs :: "(timestamp \<times> nat) list"
    using that
  proof (induction xs)
    case Nil
    then show ?case by (simp add: set_below_def set_from_def)
  next
    case (Cons x xs)
    show ?case
    proof (cases "fst x \<le> now")
      case True
      then have "x < ?b" by (cases x) simp
      with True Cons show ?thesis by (simp add: set_below_def set_from_def)
    next
      case False
      then have "\<not> x < ?b" by (cases x) simp
      moreover have "now < fst y" if "y \<in> set xs" for y
        using Cons.prems that False by (cases x; cases y) (fastforce simp: less_prod_def)
      ultimately show ?thesis using False
        by (auto simp: set_below_def set_from_def filter_id_conv filter_empty_conv not_le)
    qed
  qed
  have split: "set ex \<union> set (timers q1) = set (timers q)" using below[OF ok(1)] by (auto simp: ex q1)
  have "map snd (timers q) = map snd ex @ map snd (timers q1)"
    using set_below_from[of ?b "timers q"] by (simp add: ex q1 flip: map_append)
  with ok(2) have dist: "distinct (map snd ex)" "distinct (map snd (timers q1))"
    "snd ` set (timers q1) \<inter> snd ` set ex = {}" by auto
  then show "distinct (map snd ex)" by simp
  have "dom (heap q) = snd ` set (timers q1) \<union> snd ` set ex"
    using ok(4) split by (metis image_Un sup_commute sup_bot_right)
  moreover have "\<forall>e \<in> set (timers q1). \<forall>t. heap q (snd e) = Some t \<longrightarrow> timer_when t = fst e"
    using ok(6) split by blast
  moreover have "heap q1 = heap q" "sorted_wrt (<) (timers q1)"
    by (simp_all add: q1 sorted_set_from[OF ok(1)])
  ultimately show "tq_ok good (snd ` set ex) q1"
    using dist ok(7-9) by (simp add: tq_ok_def)
  show "ex = filter (\<lambda>e. fst e \<le> now) (timers q)" "timers q1 = filter (\<lambda>e. now < fst e) (timers q)"
    "heap q1 = heap q" "fired q1 = fired q" "armed q1 = armed q"
    using below[OF ok(1)] by (simp_all add: ex q1)
qed


text \<open>The batch that \<open>handleRead\<close> takes out of the set.\<close>

lemma expired_batch:
  assumes "tq_ok good {} q" "getExpired now (timerfdRead q) = (ex, q1)"
  shows "tq_ok good (snd ` set ex) q1" "distinct (map snd ex)" "ex = filter (\<lambda>e. fst e \<le> now) (timers q)"
    "timers q1 = filter (\<lambda>e. now < fst e) (timers q)" "heap q1 = heap q" "fired q1 = fired q"
    "timerqueue.more q1 = timerqueue.more q"
    "\<forall>e \<in> set ex. \<exists>t. heap q1 (snd e) = Some t \<and> timer_when t \<le> now"
proof -
  let ?q = "timerfdRead q"
  have ok: "tq_ok good {} ?q" using assms(1) by (simp add: timerfdRead_def tq_ok_def)
  note g = tq_ok_getExpired[OF ok assms(2)]
  show "tq_ok good (snd ` set ex) q1" "distinct (map snd ex)" "ex = filter (\<lambda>e. fst e \<le> now) (timers q)"
    "timers q1 = filter (\<lambda>e. now < fst e) (timers q)" "heap q1 = heap q" "fired q1 = fired q"
    using g by (simp_all add: timerfdRead_def)
  show "timerqueue.more q1 = timerqueue.more q" using assms(2) by (auto simp: getExpired_def timerfdRead_def Let_def)
  show "\<forall>e \<in> set ex. \<exists>t. heap q1 (snd e) = Some t \<and> timer_when t \<le> now"
  proof
    fix e assume "e \<in> set ex"
    then have e: "e \<in> set (timers ?q)" "fst e \<le> now" using g(3) by auto
    then obtain t where t: "heap ?q (snd e) = Some t" using tq_okD(4)[OF ok] by blast
    show "\<exists>t. heap q1 (snd e) = Some t \<and> timer_when t \<le> now"
      using tq_okD(6)[OF ok e(1) t] t e(2) g(5) by simp
  qed
qed

lemma rearm_ok:
  assumes "tq_ok good {} q"
  shows "fired (rearm q) = fired q" "heap (rearm q) = heap q" "timers (rearm q) = timers q"
    "timerqueue.more (rearm q) = timerqueue.more q" "tq_covered (rearm q)" "tq_ok good {} (rearm q)"
  using assms by (auto simp: rearm_def timerfdSet_def tq_covered_def tq_ok_def split: option.splits)

text \<open>
  One expired timer. Its callback has run, keeping the queue well formed and at most changing the
  variables of the timer's own closure; the timer is scheduled again or freed.
\<close>

definition next_life :: "'cb timer \<Rightarrow> 'cb timer option" where
  "next_life t = (if timer_repeat t then Some (t\<lparr>timer_when := timer_when t + timer_interval t\<rparr>) else None)"

lemma handle_expired_after:
  assumes "run_if_live (fire p) p t w = Inr w1" "heap (snd w) p = Some t" "\<not> timer_canceled t" "timer_when t \<le> now"
    and "tq_ok good (insert p D) (snd w1)" "p \<notin> D" "heap (snd w1) p = Some (t\<lparr>timer_callback := k\<rparr>)"
  shows "\<exists>q'. handle_expired fire now (ts, p) w = Inr (fst w1, q') \<and> tq_ok good D q'
     \<and> heap q' = (heap (snd w1))(p := next_life (t\<lparr>timer_callback := k\<rparr>))
     \<and> fired q' = fired (snd w1) \<and> timerqueue.more q' = timerqueue.more (snd w1)"
proof -
  let ?t2 = "t\<lparr>timer_callback := k, timer_when := timer_when t + timer_interval t\<rparr>"
  let ?q1 = "(snd w1)\<lparr>heap := (heap (snd w1))(p \<mapsto> ?t2)\<rparr>"
  let ?q2 = "?q1\<lparr>timers := set_insert (timer_when ?t2, p) (timers ?q1)\<rparr>"
  let ?q3 = "(snd w1)\<lparr>heap := (heap (snd w1))(p := None)\<rparr>"
  have "tq_ok good (insert p D) ?q1"
    using tq_ok_retime[OF assms(5-7), of "timer_when t + timer_interval t"] by simp
  then have q2: "tq_ok good D ?q2" by (rule tq_ok_insert[OF _ assms(6)]) simp
  have q3: "tq_ok good D ?q3" by (rule tq_ok_free[OF assms(5,6)])
  have "handle_expired fire now (ts, p) w = Inr (fst w1, if timer_repeat t then ?q2 else ?q3)"
    using assms(1-4,7)
    by (simp add: handle_expired_def deref_def Timer_expired_def Timer_restart_def Let_def)
  then show ?thesis using q2 q3 by (simp add: next_life_def)
qed

subsection \<open>The expiry handler under a contract on the callbacks\<close>

text \<open>
  What a timer callback may do when the timer \<open>p\<close> runs it: from any state of the queue it returns,
  keeps the queue well formed, and leaves the timers that \<open>handleRead\<close> has taken out of the set (\<open>D\<close>)
  alone, but for the closure of \<open>p\<close> itself, whose own variables it may change. \<open>inv\<close> is what else the
  callbacks keep, of the loop and of what the queue's record is extended by.
\<close>

locale timer_client =
  fixes fire :: "nat \<Rightarrow> 'cb \<Rightarrow> ('task, 'cb, 'z) tq_world \<Rightarrow> ('task, 'cb, 'z) tq_world result"
    and good :: "'cb \<Rightarrow> bool" and tid :: nat and inv :: "'task eventloop \<Rightarrow> 'z \<Rightarrow> bool"
  assumes inv_thread: "inv l z \<Longrightarrow> isInLoopThread tid l"
    and fire_ok: "good cb \<Longrightarrow> tq_ok good D (snd w) \<Longrightarrow> inv (fst w) (timerqueue.more (snd w)) \<Longrightarrow> p \<in> D \<Longrightarrow>
      heap (snd w) p = Some t \<Longrightarrow> timer_callback t = Some cb \<Longrightarrow>
      \<exists>w' k. fire p cb w = Inr w' \<and> tq_ok good D (snd w') \<and> inv (fst w') (timerqueue.more (snd w'))
         \<and> fired (snd w') = fired (snd w) \<and> heap (snd w') p = Some (t\<lparr>timer_callback := k\<rparr>)
         \<and> (\<forall>r \<in> D. r \<noteq> p \<longrightarrow> heap (snd w') r = heap (snd w) r)"
begin

lemma run_if_live_ok:
  assumes "tq_ok good D (snd w)" "inv (fst w) (timerqueue.more (snd w))" "heap (snd w) p = Some t" "p \<in> D"
  shows "\<exists>w' k. run_if_live (fire p) p t w = Inr w' \<and> tq_ok good D (snd w') \<and> inv (fst w') (timerqueue.more (snd w'))
       \<and> fired (snd w') = fired (snd w) @ [p] \<and> heap (snd w') p = Some (t\<lparr>timer_callback := k\<rparr>)
       \<and> (\<forall>r \<in> D. r \<noteq> p \<longrightarrow> heap (snd w') r = heap (snd w) r)"
proof -
  let ?w = "(fst w, (snd w)\<lparr>fired := fired (snd w) @ [p]\<rparr>)"
  have ok: "tq_ok good D (snd ?w)" using assms(1) by (simp add: tq_ok_def)
  have live: "\<not> timer_canceled t" by (rule tq_okD(7)[OF assms(1,3)])
  show ?thesis
  proof (cases "timer_callback t")
    case None
    then have "t = t\<lparr>timer_callback := None\<rparr>" by simp
    with None live ok assms(2,3) show ?thesis
      by (auto simp: run_if_live_def Timer_run_def intro!: exI[of _ None])
  next
    case (Some cb)
    have "good cb" by (rule tq_okD(9)[OF assms(1,3) Some])
    from fire_ok[OF this ok _ assms(4) _ Some] assms(2,3) live Some show ?thesis
      by (simp add: run_if_live_def Timer_run_def)
  qed
qed

lemma handle_expired_ok:
  assumes "tq_ok good (insert p D) (snd w)" "p \<notin> D" "inv (fst w) (timerqueue.more (snd w))"
    and "heap (snd w) p = Some t" "timer_when t \<le> now"
  shows "\<exists>w'. handle_expired fire now (ts, p) w = Inr w' \<and> tq_ok good D (snd w')
     \<and> inv (fst w') (timerqueue.more (snd w')) \<and> fired (snd w') = fired (snd w) @ [p]
     \<and> (\<forall>r \<in> D. heap (snd w') r = heap (snd w) r)"
proof -
  from run_if_live_ok[OF assms(1,3,4)] obtain w1 k where w1: "run_if_live (fire p) p t w = Inr w1"
    "tq_ok good (insert p D) (snd w1)" "inv (fst w1) (timerqueue.more (snd w1))"
    "fired (snd w1) = fired (snd w) @ [p]" "heap (snd w1) p = Some (t\<lparr>timer_callback := k\<rparr>)"
    "\<forall>r \<in> insert p D. r \<noteq> p \<longrightarrow> heap (snd w1) r = heap (snd w) r" by blast
  have live: "\<not> timer_canceled t" by (rule tq_okD(7)[OF assms(1,4)])
  from handle_expired_after[where fire = fire, OF w1(1) assms(4) live assms(5) w1(2) assms(2) w1(5), of ts] obtain q' where
    q': "handle_expired fire now (ts, p) w = Inr (fst w1, q')" "tq_ok good D q'" "fired q' = fired (snd w1)"
    "heap q' = (heap (snd w1))(p := next_life (t\<lparr>timer_callback := k\<rparr>))" "timerqueue.more q' = timerqueue.more (snd w1)" by blast
  then show ?thesis using w1(3,4,6) assms(2) by auto
qed

lemma handle_all_expired:
  assumes "tq_ok good (snd ` set ex) (snd w)" "distinct (map snd ex)" "inv (fst w) (timerqueue.more (snd w))"
    and "\<forall>e \<in> set ex. \<exists>t. heap (snd w) (snd e) = Some t \<and> timer_when t \<le> now"
  shows "\<exists>w'. foldR (handle_expired fire now) ex w = Inr w' \<and> tq_ok good {} (snd w')
     \<and> inv (fst w') (timerqueue.more (snd w')) \<and> fired (snd w') = fired (snd w) @ map snd ex"
  using assms
proof (induction ex arbitrary: w)
  case Nil
  then show ?case by simp
next
  case (Cons e ex)
  from Cons.prems(4) obtain t where t: "heap (snd w) (snd e) = Some t" "timer_when t \<le> now" by auto
  have "tq_ok good (insert (snd e) (snd ` set ex)) (snd w)" "snd e \<notin> snd ` set ex"
    using Cons.prems(1,2) by simp_all
  from handle_expired_ok[OF this Cons.prems(3) t, of "fst e"] obtain w1 where
    w1: "handle_expired fire now e w = Inr w1" "tq_ok good (snd ` set ex) (snd w1)"
    "inv (fst w1) (timerqueue.more (snd w1))" "fired (snd w1) = fired (snd w) @ [snd e]"
    "\<forall>r \<in> snd ` set ex. heap (snd w1) r = heap (snd w) r" by auto
  have "\<exists>w'. foldR (handle_expired fire now) ex w1 = Inr w' \<and> tq_ok good {} (snd w')
     \<and> inv (fst w') (timerqueue.more (snd w')) \<and> fired (snd w') = fired (snd w1) @ map snd ex"
  proof (rule Cons.IH[OF w1(2) _ w1(3)])
    show "distinct (map snd ex)" using Cons.prems(2) by simp
    show "\<forall>e \<in> set ex. \<exists>t. heap (snd w1) (snd e) = Some t \<and> timer_when t \<le> now"
      using w1(5) Cons.prems(4) by auto
  qed
  with w1(1,4) show ?case by auto
qed

lemma handleRead_ok:
  assumes "tq_ok good {} (snd w)" "inv (fst w) (timerqueue.more (snd w))"
  shows "\<exists>w'. TimerQueue_handleRead fire tid now w = Inr w'
     \<and> fired (snd w') = fired (snd w) @ map snd (filter (\<lambda>e. fst e \<le> now) (timers (snd w)))
     \<and> tq_ok good {} (snd w') \<and> inv (fst w') (timerqueue.more (snd w')) \<and> tq_covered (snd w')"
proof -
  obtain ex q1 where e: "getExpired now (timerfdRead (snd w)) = (ex, q1)" by fastforce
  note g = expired_batch[OF assms(1) e]
  from handle_all_expired[of ex "(fst w, q1)" now] g assms(2) obtain w2 where
    w2: "foldR (handle_expired fire now) ex (fst w, q1) = Inr w2" "tq_ok good {} (snd w2)"
    "inv (fst w2) (timerqueue.more (snd w2))" "fired (snd w2) = fired q1 @ map snd ex" by auto
  have "TimerQueue_handleRead fire tid now w = Inr (fst w2, rearm (snd w2))"
    using inv_thread[OF assms(2)] e w2(1) by (simp add: TimerQueue_handleRead_def)
  then show ?thesis using w2 g rearm_ok[OF w2(2)] by simp
qed

end

end
