(* ===== verification/Timer_Callbacks.thy ===== *)
theory Timer_Callbacks
  imports TimerQueue
begin

text \<open>
  Timer callbacks that use the timer interface of the loop, as the ones of \<open>examples/EchoServer.cc\<close>
  do: they set one-shot and repeating timers and cancel timers, one operation after the other. The
  contract \<open>timer_client\<close> is discharged for those that cancel nothing, and the properties of the
  timer queue are stated over them.
\<close>

datatype tq_cb = CbDone | CbAfter int tq_cb tq_cb | CbEvery int tq_cb tq_cb | CbCancel nat tq_cb

fun fire_cb :: "(tq_task \<Rightarrow> 'task) \<Rightarrow> ((nat \<rightharpoonup> tq_cb timer) \<Rightarrow> nat) \<Rightarrow> nat \<Rightarrow> timestamp \<Rightarrow> nat \<Rightarrow> tq_cb
    \<Rightarrow> ('task, tq_cb, 'z) tq_world \<Rightarrow> ('task, tq_cb, 'z) tq_world result" where
  "fire_cb mk alloc tid now r CbDone w = Inr w"
| "fire_cb mk alloc tid now r (CbAfter d cb k) w =
     bindR (runAfter mk alloc tid now d (Some cb) w) (\<lambda>(p, w'). fire_cb mk alloc tid now r k w')"
| "fire_cb mk alloc tid now r (CbEvery d cb k) w =
     bindR (runEvery mk alloc tid now d (Some cb) w) (\<lambda>(p, w'). fire_cb mk alloc tid now r k w')"
| "fire_cb mk alloc tid now r (CbCancel p k) w =
     bindR (EventLoop_cancelTimer mk tid p w) (fire_cb mk alloc tid now r k)"

text \<open>\<open>new\<close> returns an address that no live object has.\<close>

definition alloc_ok :: "((nat \<rightharpoonup> 'cb timer) \<Rightarrow> nat) \<Rightarrow> bool" where
  "alloc_ok alloc \<longleftrightarrow> (\<forall>h. finite (dom h) \<longrightarrow> alloc h \<notin> dom h)"

fun cancels_nothing :: "tq_cb \<Rightarrow> bool" where
  "cancels_nothing CbDone = True"
| "cancels_nothing (CbAfter d cb k) = (cancels_nothing cb \<and> cancels_nothing k)"
| "cancels_nothing (CbEvery d cb k) = (cancels_nothing cb \<and> cancels_nothing k)"
| "cancels_nothing (CbCancel p k) = False"

lemma addTimerTask_ok:
  assumes "tq_ok good D (snd w)" "isInLoopThread tid (fst w)" "alloc_ok alloc" "\<forall>c. cb = Some c \<longrightarrow> good c"
  shows "\<exists>p q'. addTimerTask mk alloc tid cb ts interval w = Inr (p, fst w, q') \<and> tq_ok good D q'
     \<and> p \<notin> dom (heap (snd w)) \<and> heap q' = (heap (snd w))(p \<mapsto> Timer_new cb ts interval)
     \<and> set (timers q') = insert (ts, p) (set (timers (snd w))) \<and> fired q' = fired (snd w)
     \<and> (tq_covered (snd w) \<longrightarrow> tq_covered q') \<and> timerqueue.more q' = timerqueue.more (snd w)"
proof -
  note ok = tq_okD[OF assms(1)]
  define p where "p = alloc (heap (snd w))"
  have p: "p \<notin> dom (heap (snd w))" using assms(3) tq_ok_finite[OF assms(1)] by (simp add: alloc_ok_def p_def)
  let ?t = "Timer_new cb ts interval"
  let ?q1 = "(snd w)\<lparr>heap := (heap (snd w))(p \<mapsto> ?t)\<rparr>"
  have pD: "p \<notin> D" "p \<notin> snd ` set (timers (snd w))" using p ok(4) by auto
  then have ne: "snd e \<noteq> p" if "e \<in> set (timers (snd w))" for e using that by auto
  have t: "\<not> timer_canceled ?t" "timer_repeat ?t = (timer_interval ?t > 0)" "timer_when ?t = ts"
    "timer_callback ?t = cb" by (simp_all add: Timer_new_def)
  have "dom (heap ?q1) = snd ` set (timers ?q1) \<union> insert p D" using ok(4) by simp
  then have ok1: "tq_ok good (insert p D) ?q1"
    using ok(1-3,5) ok(6) ok(7-9) ne pD t assms(4) by (simp add: tq_ok_def)
  have "heap ?q1 p = Some ?t" by simp
  from insert_in_loop_ok[OF ok1 pD(1) this t(3)] obtain q' where
    q': "insert_in_loop ts p ?q1 = Inr q'" "tq_ok good D q'" "heap q' = heap ?q1" "fired q' = fired ?q1"
    "set (timers q') = insert (ts, p) (set (timers ?q1))" "tq_covered ?q1 \<longrightarrow> tq_covered q'" by blast
  have "tq_covered ?q1 = tq_covered (snd w)" by (simp add: tq_covered_def split: option.split)
  moreover have "addTimerTask mk alloc tid cb ts interval w = Inr (p, fst w, q')"
    using assms(2) q'(1) by (simp add: addTimerTask_def runInLoop_def p_def Let_def)
  moreover have "timerqueue.more q' = timerqueue.more (snd w)"
    using q'(1) by (auto simp: insert_in_loop_def timerfdSet_def Let_def result_iffs)
  ultimately show ?thesis using p q' by simp
qed

lemma fire_cb_ok:
  assumes "tq_ok (\<lambda>cb. alloc_ok alloc \<and> cancels_nothing cb) D (snd w)" "isInLoopThread tid (fst w)"
    and "alloc_ok alloc" "cancels_nothing cb"
  shows "\<exists>q'. fire_cb mk alloc tid now r cb w = Inr (fst w, q') \<and> tq_ok (\<lambda>cb. alloc_ok alloc \<and> cancels_nothing cb) D q'
     \<and> fired q' = fired (snd w) \<and> timerqueue.more q' = timerqueue.more (snd w) \<and> (\<forall>p \<in> D. heap q' p = heap (snd w) p)"
  using assms
proof (induction cb arbitrary: w)
  case CbDone
  then show ?case by (cases w) simp
next
  case (CbAfter d cb k)
  have sub: "p \<in> dom (heap (snd w))" if "p \<in> D" for p using that tq_okD(4)[OF CbAfter.prems(1)] by simp
  from addTimerTask_ok[OF CbAfter.prems(1-3), of "Some cb" mk "now + d" 0] CbAfter.prems(3,4) obtain p q' where
    q': "addTimerTask mk alloc tid (Some cb) (now + d) 0 w = Inr (p, fst w, q')"
    "tq_ok (\<lambda>cb. alloc_ok alloc \<and> cancels_nothing cb) D q'" "p \<notin> dom (heap (snd w))"
    "heap q' = (heap (snd w))(p \<mapsto> Timer_new (Some cb) (now + d) 0)" "fired q' = fired (snd w)"
    "timerqueue.more q' = timerqueue.more (snd w)" by auto
  have "heap q' r = heap (snd w) r" if "r \<in> D" for r using sub[OF that] q'(3,4) by auto
  with CbAfter.IH(2)[of "(fst w, q')"] CbAfter.prems q' show ?case by (simp add: runAfter_def runAt_def)
next
  case (CbEvery d cb k)
  have sub: "p \<in> dom (heap (snd w))" if "p \<in> D" for p using that tq_okD(4)[OF CbEvery.prems(1)] by simp
  from addTimerTask_ok[OF CbEvery.prems(1-3), of "Some cb" mk "now + d" d] CbEvery.prems(3,4) obtain p q' where
    q': "addTimerTask mk alloc tid (Some cb) (now + d) d w = Inr (p, fst w, q')"
    "tq_ok (\<lambda>cb. alloc_ok alloc \<and> cancels_nothing cb) D q'" "p \<notin> dom (heap (snd w))"
    "heap q' = (heap (snd w))(p \<mapsto> Timer_new (Some cb) (now + d) d)" "fired q' = fired (snd w)"
    "timerqueue.more q' = timerqueue.more (snd w)" by auto
  have "heap q' r = heap (snd w) r" if "r \<in> D" for r using sub[OF that] q'(3,4) by auto
  with CbEvery.IH(2)[of "(fst w, q')"] CbEvery.prems q' show ?case by (simp add: runEvery_def)
next
  case (CbCancel p k)
  then show ?case by simp
qed

lemma timer_same: "\<exists>k. t = t\<lparr>timer_callback := k\<rparr>"
  by (rule exI[of _ "timer_callback t"]) simp

lemma fire_cb_client:
  assumes "tq_ok (\<lambda>cb. alloc_ok alloc \<and> cancels_nothing cb) D (snd w)" "isInLoopThread tid (fst w)"
    and "alloc_ok alloc \<and> cancels_nothing cb" "p \<in> D" "heap (snd w) p = Some t"
  shows "\<exists>w' k. fire_cb mk alloc tid now p cb w = Inr w' \<and> tq_ok (\<lambda>cb. alloc_ok alloc \<and> cancels_nothing cb) D (snd w')
     \<and> isInLoopThread tid (fst w') \<and> fired (snd w') = fired (snd w) \<and> heap (snd w') p = Some (t\<lparr>timer_callback := k\<rparr>)
     \<and> (\<forall>r \<in> D. r \<noteq> p \<longrightarrow> heap (snd w') r = heap (snd w) r)"
proof -
  from fire_cb_ok[OF assms(1,2), of cb mk now p] assms(3) obtain q' where
    "fire_cb mk alloc tid now p cb w = Inr (fst w, q')" "tq_ok (\<lambda>cb. alloc_ok alloc \<and> cancels_nothing cb) D q'"
    "fired q' = fired (snd w)" "\<forall>p \<in> D. heap q' p = heap (snd w) p" by blast
  then show ?thesis using assms(2,4,5) timer_same[of t]
    by (intro exI[of _ "(fst w, q')"] exI[of _ "timer_callback t"]) simp
qed

interpretation timers: timer_client "fire_cb mk alloc tid now" "\<lambda>cb. alloc_ok alloc \<and> cancels_nothing cb" tid
    "\<lambda>l _. isInLoopThread tid l" for mk alloc tid now
  by unfold_locales (use fire_cb_client in blast)+


text \<open>An allocator, to show that the hypothesis on \<open>new\<close> can hold: the first free address.\<close>

definition first_fit :: "(nat \<rightharpoonup> 'cb timer) \<Rightarrow> nat" where
  "first_fit h = (LEAST n. n \<notin> dom h)"

lemma first_fit_ok: "alloc_ok first_fit"
  unfolding alloc_ok_def first_fit_def by (metis LeastI_ex ex_new_if_finite infinite_UNIV_nat)

lemma tq_ok_mono: "tq_ok good D q \<Longrightarrow> (\<And>cb. good cb \<Longrightarrow> good' cb) \<Longrightarrow> tq_ok good' D q"
  unfolding tq_ok_def by blast

definition two_timers :: "tq_cb timerqueue" where
  "two_timers = \<lparr>timers = [(5, 1), (9, 0)],
     heap = [0 \<mapsto> Timer_new (Some CbDone) 9 0, 1 \<mapsto> Timer_new (Some (CbAfter 1 CbDone CbDone)) 5 2],
     armed = Some 5, fired = []\<rparr>"

lemma two_timers_ok: "tq_ok (\<lambda>cb. alloc_ok first_fit \<and> cancels_nothing cb) {} two_timers"
proof -
  have "\<forall>p t. heap two_timers p = Some t \<longrightarrow> \<not> timer_canceled t \<and> timer_repeat t = (timer_interval t > 0)
      \<and> (\<forall>cb. timer_callback t = Some cb \<longrightarrow> alloc_ok first_fit \<and> cancels_nothing cb)"
    by (simp add: two_timers_def Timer_new_def first_fit_ok)
  moreover have "\<forall>e \<in> set (timers two_timers). \<forall>t. heap two_timers (snd e) = Some t \<longrightarrow> timer_when t = fst e"
    by (simp add: two_timers_def Timer_new_def)
  ultimately show ?thesis by (simp add: tq_ok_def) (auto simp: two_timers_def)
qed


subsection \<open>What becomes of a timer\<close>

lemma inert_client:
  "tq_ok (\<lambda>_. True) D (snd w) \<Longrightarrow> isInLoopThread tid (fst w) \<Longrightarrow> heap (snd w) p = Some t \<Longrightarrow>
   \<exists>w' k. Inr w = Inr w' \<and> tq_ok (\<lambda>_. True) D (snd w') \<and> isInLoopThread tid (fst w') \<and> fired (snd w') = fired (snd w)
      \<and> heap (snd w') p = Some (t\<lparr>timer_callback := k\<rparr>) \<and> (\<forall>r \<in> D. r \<noteq> p \<longrightarrow> heap (snd w') r = heap (snd w) r)"
  by (intro exI[of _ w] exI[of _ "timer_callback t"]) simp

interpretation inert: timer_client "\<lambda>_ _ w. Inr w" "\<lambda>_. True" tid "\<lambda>l _. isInLoopThread tid l" for tid
  by (rule timer_client.intro) (assumption, rule inert_client)

lemma handle_expired_inert:
  assumes "heap q p = Some t" "\<not> timer_canceled t" "timer_when t \<le> now"
  shows "\<exists>q'. handle_expired (\<lambda>_ _ w. Inr w) now (ts, p) (l, q) = Inr (l, q') \<and> heap q' = (heap q)(p := next_life t)"
proof -
  have "run_if_live (\<lambda>_ w. Inr w) p t (l, q) = Inr (l, q\<lparr>fired := fired q @ [p]\<rparr>)"
    using assms(2) by (simp add: run_if_live_def Timer_run_def split: option.split)
  then show ?thesis using assms
    by (simp add: handle_expired_def deref_def Timer_expired_def Timer_restart_def next_life_def Let_def)
qed

lemma handle_all_inert:
  assumes "\<forall>e \<in> set ex. \<exists>t. heap q (snd e) = Some t \<and> \<not> timer_canceled t \<and> timer_when t \<le> now"
    and "distinct (map snd ex)"
  shows "\<exists>q'. foldR (handle_expired (\<lambda>_ _ w. Inr w) now) ex (l, q) = Inr (l, q')
     \<and> heap q' = (\<lambda>r. if r \<in> snd ` set ex then Option.bind (heap q r) next_life else heap q r)"
  using assms
proof (induction ex arbitrary: q)
  case Nil
  then show ?case by simp
next
  case (Cons e ex)
  then obtain t where t: "heap q (snd e) = Some t" "\<not> timer_canceled t" "timer_when t \<le> now" by auto
  from handle_expired_inert[OF t, of "fst e" l] obtain q1 where
    q1: "handle_expired (\<lambda>_ _ w. Inr w) now e (l, q) = Inr (l, q1)" "heap q1 = (heap q)(snd e := next_life t)" by auto
  have "heap q1 (snd e') = heap q (snd e')" if "e' \<in> set ex" for e'
    using Cons.prems(2) that q1(2) by (auto simp: image_iff)
  then have "\<forall>e \<in> set ex. \<exists>t. heap q1 (snd e) = Some t \<and> \<not> timer_canceled t \<and> timer_when t \<le> now"
    using Cons.prems(1) by simp
  from Cons.IH[OF this] Cons.prems(2) obtain q' where
    q': "foldR (handle_expired (\<lambda>_ _ w. Inr w) now) ex (l, q1) = Inr (l, q')"
    "heap q' = (\<lambda>r. if r \<in> snd ` set ex then Option.bind (heap q1 r) next_life else heap q1 r)" by auto
  have "heap q' r = (if r \<in> snd ` set (e # ex) then Option.bind (heap q r) next_life else heap q r)" for r
    using q'(2) q1(2) t(1) Cons.prems(2) by auto
  with q1(1) q'(1) show ?case by auto
qed

text \<open>The timers that a batch takes are those whose time has come; the set holds the live timers under their expiries.\<close>

lemma entry_iff:
  assumes "tq_ok good {} q"
  shows "(ts, p) \<in> set (timers q) \<longleftrightarrow> (\<exists>t. heap q p = Some t \<and> timer_when t = ts)"
proof
  assume m: "(ts, p) \<in> set (timers q)"
  then have "p \<in> dom (heap q)" using tq_okD(4)[OF assms] by force
  then obtain t where t: "heap q p = Some t" by auto
  with tq_okD(6)[OF assms m, of t] show "\<exists>t. heap q p = Some t \<and> timer_when t = ts" by simp
next
  assume "\<exists>t. heap q p = Some t \<and> timer_when t = ts"
  then obtain t where t: "heap q p = Some t" "timer_when t = ts" by auto
  then have "p \<in> snd ` set (timers q)" using tq_okD(4)[OF assms] by auto
  then obtain e where e: "e \<in> set (timers q)" "snd e = p" by blast
  with tq_okD(6)[OF assms e(1), of t] t show "(ts, p) \<in> set (timers q)" by (cases e) auto
qed

lemma expired_iff:
  assumes "tq_ok good {} q" "getExpired now (timerfdRead q) = (ex, q1)" "heap q p = Some t"
  shows "p \<in> snd ` set ex \<longleftrightarrow> timer_when t \<le> now"
proof -
  have "(ts, p) \<in> set ex \<longleftrightarrow> ts = timer_when t \<and> ts \<le> now" for ts
    using entry_iff[OF assms(1), of ts p] assms(3) expired_batch(3)[OF assms(1,2)] by auto
  then show ?thesis by (force simp: image_iff)
qed



subsection \<open>Setting and cancelling\<close>

text \<open>
  Setting a timer and cancelling it again, from the loop's thread and in any well-formed state of
  the queue: setting it gives the address of a new live timer, keeps the queue well formed, and sets
  the descriptor so that the new timer is not late; cancelling it by that address frees it and
  leaves the scheduled timers and the heap exactly as they were before.
\<close>

theorem set_then_cancel:
  assumes "alloc_ok alloc" "tq_ok (\<lambda>_. True) {} q" "tq_covered q"
  shows "\<exists>p q1 q2. addTimerTask mk alloc (threadId l) cb ts interval (l, q) = Inr (p, l, q1)
     \<and> heap q p = None \<and> heap q1 p = Some (Timer_new cb ts interval) \<and> (ts, p) \<in> set (timers q1)
     \<and> tq_ok (\<lambda>_. True) {} q1 \<and> tq_covered q1
     \<and> EventLoop_cancelTimer mk (threadId l) p (l, q1) = Inr (l, q2)
     \<and> set (timers q2) = set (timers q) \<and> heap q2 = heap q \<and> tq_ok (\<lambda>_. True) {} q2 \<and> tq_covered q2"
proof -
  have tid: "isInLoopThread (threadId l) (fst (l, q))" by (simp add: isInLoopThread_def)
  from addTimerTask_ok[of "\<lambda>_. True" "{}" "(l, q)" "threadId l" alloc cb mk ts interval] assms tid
  obtain p q1 where q1: "addTimerTask mk alloc (threadId l) cb ts interval (l, q) = Inr (p, l, q1)"
    "tq_ok (\<lambda>_. True) {} q1" "p \<notin> dom (heap q)" "heap q1 = (heap q)(p \<mapsto> Timer_new cb ts interval)"
    "set (timers q1) = insert (ts, p) (set (timers q))" "tq_covered q1" by auto
  have "heap q1 p = Some (Timer_new cb ts interval)" by (simp add: q1(4))
  from cancel_in_loop_ok[OF q1(2) this] obtain q2 where
    q2: "cancel_in_loop p q1 = Inr q2" "tq_ok (\<lambda>_. True) {} q2" "heap q2 = (heap q1)(p := None)"
    "set (timers q2) = {e \<in> set (timers q1). snd e \<noteq> p}" "tq_covered q1 \<longrightarrow> tq_covered q2" by auto
  have none: "heap q p = None" using q1(3) by auto
  then have "heap q2 = heap q" using q1(4) q2(3) by (simp add: fun_upd_idem)
  moreover have "snd e \<noteq> p" if "e \<in> set (timers q)" for e
    using that q1(3) tq_okD(4)[OF assms(2)] by auto
  then have "set (timers q2) = set (timers q)" using q1(5) q2(4) by auto
  moreover have "EventLoop_cancelTimer mk (threadId l) p (l, q1) = Inr (l, q2)"
    using q2(1) by (simp add: EventLoop_cancelTimer_def TimerQueue_cancelTimer_def runInLoop_def)
  ultimately show ?thesis using q1 q2 none by (intro exI[of _ p] exI[of _ q1] exI[of _ q2]) simp
qed

theorem set_then_cancel_witness:
  "\<forall>l. \<exists>p q1 q2. addTimerTask id first_fit (threadId l) None 7 0 (l, two_timers) = Inr (p, l, q1)
     \<and> EventLoop_cancelTimer id (threadId l) p (l, q1) = Inr (l, q2)
     \<and> set (timers q2) = {(5, 1), (9, 0)} \<and> heap q2 = heap two_timers"
proof
  fix l :: "tq_task eventloop"
  have "tq_ok (\<lambda>_. True) {} two_timers" by (rule tq_ok_mono[OF two_timers_ok]) simp
  moreover have "tq_covered two_timers" by (simp add: tq_covered_def two_timers_def)
  ultimately obtain p q1 q2 where
    "addTimerTask id first_fit (threadId l) None 7 0 (l, two_timers) = Inr (p, l, q1)"
    "EventLoop_cancelTimer id (threadId l) p (l, q1) = Inr (l, q2)"
    "set (timers q2) = set (timers two_timers)" "heap q2 = heap two_timers"
    using set_then_cancel[OF first_fit_ok, of two_timers id l None 7 0] by blast
  moreover have "set (timers two_timers) = {(5, 1), (9, 0)}" by (simp add: two_timers_def)
  ultimately show "\<exists>p q1 q2. addTimerTask id first_fit (threadId l) None 7 0 (l, two_timers) = Inr (p, l, q1)
     \<and> EventLoop_cancelTimer id (threadId l) p (l, q1) = Inr (l, q2)
     \<and> set (timers q2) = {(5, 1), (9, 0)} \<and> heap q2 = heap two_timers" by metis
qed

text \<open>
  The time handed to \<open>timerfd_settime\<close> is a valid \<open>timespec\<close> (nanoseconds below one second,
  nothing negative), never zero, which would disarm the descriptor and lose the timer, and equal to
  the time left until the expiry, raised to one millisecond when it is shorter or has passed.
\<close>

theorem durationFromNow_valid:
  "case durationFromNow now ts of (sec, nsec) \<Rightarrow>
     0 \<le> sec \<and> 0 \<le> nsec \<and> nsec < 1000000000 \<and> (sec, nsec) \<noteq> (0, 0)
     \<and> sec * 1000000000 + nsec = max (ts - now) 1000000"
proof -
  define ns where "ns = max (ts - now) 1000000"
  have d: "durationFromNow now ts = (ns div 1000000000, ns mod 1000000000)"
    by (simp add: durationFromNow_def ns_def Let_def max_def)
  have pos: "0 < ns" by (simp add: ns_def)
  have sum: "ns div 1000000000 * 1000000000 + ns mod 1000000000 = ns" by simp
  then have "\<not> (ns div 1000000000 = 0 \<and> ns mod 1000000000 = 0)" using pos by linarith
  moreover have "0 \<le> ns div 1000000000" using pos by (simp add: pos_imp_zdiv_nonneg_iff)
  ultimately show ?thesis using sum unfolding d ns_def[symmetric] by simp
qed

text \<open>
  C12. A timer that cancels itself. \<open>cancelTimer\<close> from the loop's thread frees the timer at once, so
  when the callback of an expired timer cancels that timer, \<open>handleRead\<close> goes on to ask the freed
  object whether it was cancelled and repeats: a use after free, for repeating and one-shot timers
  alike and whatever else is scheduled.
\<close>

theorem self_cancel_use_after_free:
  fixes q :: "(tq_cb, 'z) timerqueue_scheme"
  assumes "heap q p = Some t" "timers q = (timer_when t, p) # es" "timer_when t \<le> now"
    and "\<not> timer_canceled t" "timer_callback t = Some (CbCancel p CbDone)"
  shows "TimerQueue_handleRead (fire_cb mk alloc (threadId l) now1) (threadId l) now (l, q) = Inl UndefinedBehaviour"
proof -
  let ?b = "(now + 1, 0) :: timestamp \<times> nat"
  have "set_below ?b (timers q) = (timer_when t, p) # set_below ?b es"
    using assms(2,3) by (simp add: set_below_def)
  moreover have "handle_expired (fire_cb mk alloc (threadId l) now1) now (timer_when t, p) (l, q') = Inl UndefinedBehaviour"
    if "heap q' p = Some t" for q' :: "(tq_cb, 'z) timerqueue_scheme"
    using assms that
    by (simp add: handle_expired_def deref_def Timer_expired_def run_if_live_def Timer_run_def
        EventLoop_cancelTimer_def TimerQueue_cancelTimer_def runInLoop_def isInLoopThread_def
        cancel_in_loop_def Timer_cancel_def Let_def)
  ultimately show ?thesis using assms(1)
    by (simp add: TimerQueue_handleRead_def isInLoopThread_def assertInLoopThread_def getExpired_def
        timerfdRead_def Let_def)
qed

theorem self_cancel_use_after_free_witness:
  "\<forall>l. \<exists>q :: tq_cb timerqueue. tq_ok (\<lambda>_. True) {} q
     \<and> TimerQueue_handleRead (fire_cb id first_fit (threadId l) 8) (threadId l) 7 (l, q) = Inl UndefinedBehaviour"
proof
  fix l :: "tq_task eventloop"
  let ?t = "Timer_new (Some (CbCancel 0 CbDone)) 5 2"
  let ?q = "\<lparr>timers = [(5, 0)], heap = [0 \<mapsto> ?t], armed = Some 5, fired = []\<rparr>"
  have "heap ?q 0 = Some ?t" "timers ?q = (timer_when ?t, 0) # []" "timer_when ?t \<le> 7"
    "\<not> timer_canceled ?t" "timer_callback ?t = Some (CbCancel 0 CbDone)" by (simp_all add: Timer_new_def)
  from self_cancel_use_after_free[OF this, of id first_fit l 8] have
    "TimerQueue_handleRead (fire_cb id first_fit (threadId l) 8) (threadId l) 7 (l, ?q) = Inl UndefinedBehaviour" .
  moreover have "tq_ok (\<lambda>_. True) {} ?q" by (simp add: tq_ok_def Timer_new_def)
  ultimately show "\<exists>q :: tq_cb timerqueue. tq_ok (\<lambda>_. True) {} q
     \<and> TimerQueue_handleRead (fire_cb id first_fit (threadId l) 8) (threadId l) 7 (l, q) = Inl UndefinedBehaviour" by blast
qed

end
