(* ===== verification/Decimal.thy ===== *)
theory Decimal
  imports Main
begin

text \<open>
  Decimal numbers as text, as \<open>%d\<close>, \<open>%u\<close> and \<open>std::to_string\<close> write them: socket addresses, ports and
  the lines of the log are made of them.
\<close>

definition digit :: "nat \<Rightarrow> char" where "digit d = char_of (48 + d)"
definition digit_val :: "char \<Rightarrow> nat" where "digit_val c = of_char c - 48"
definition is_digit :: "char \<Rightarrow> bool" where "is_digit c \<longleftrightarrow> 48 \<le> (of_char c :: nat) \<and> (of_char c :: nat) \<le> 57"

fun decimal :: "nat \<Rightarrow> string" where
  "decimal n = (if n < 10 then [digit n] else decimal (n div 10) @ [digit (n mod 10)])"

declare decimal.simps [simp del]

definition parse_dec :: "string \<Rightarrow> nat" where
  "parse_dec s = foldl (\<lambda>v c. 10 * v + digit_val c) 0 s"

definition decimal_int :: "int \<Rightarrow> string" where
  "decimal_int i = (if i < 0 then CHR ''-'' # decimal (nat (- i)) else decimal (nat i))"

text \<open>\<open>%02d\<close>, \<open>%06ld\<close> and \<open>%4d\<close> on numbers that are not negative.\<close>

definition padded :: "char \<Rightarrow> nat \<Rightarrow> nat \<Rightarrow> string" where
  "padded c w n = replicate (w - length (decimal n)) c @ decimal n"

subsection \<open>Lemmas\<close>

lemma digit_props [simp]:
  "d < 10 \<Longrightarrow> is_digit (digit d)" "d < 10 \<Longrightarrow> digit_val (digit d) = d"
  by (simp_all add: is_digit_def digit_def digit_val_def)

lemma digit_val_digit: "is_digit c \<Longrightarrow> digit_val c < 10 \<and> digit (digit_val c) = c"
  unfolding is_digit_def digit_def digit_val_def by (simp, linarith)

lemma digit_0 [simp]: "digit 0 = CHR ''0''"
proof -
  have "(of_char (CHR ''0'') :: nat) = 48" by simp
  then show ?thesis unfolding digit_def by (metis add_0_right char_of_char)
qed

lemma digit_chars:
  "digit 1 = CHR ''1''" "digit (Suc 0) = CHR ''1''" "digit 2 = CHR ''2''" "digit 3 = CHR ''3''" "digit 4 = CHR ''4''"
  "digit 5 = CHR ''5''" "digit 6 = CHR ''6''" "digit 7 = CHR ''7''" "digit 8 = CHR ''8''" "digit 9 = CHR ''9''"
  by code_simp+

lemma parse_dec_snoc [simp]: "parse_dec [] = 0" "parse_dec (s @ [c]) = 10 * parse_dec s + digit_val c"
  by (simp_all add: parse_dec_def)

lemma parse_decimal: "parse_dec (decimal n) = n"
proof (induction n rule: decimal.induct)
  case (1 n)
  show ?case
  proof (cases "n < 10")
    case True
    then show ?thesis using parse_dec_snoc(2)[of "[]" "digit n"]
      by (subst decimal.simps) simp
  next
    case False
    then show ?thesis using 1 by (subst decimal.simps) simp
  qed
qed

lemma decimal_digits: "list_all is_digit (decimal n)"
proof (induction n rule: decimal.induct)
  case (1 n)
  then show ?case by (subst decimal.simps) simp
qed

lemma decimal_nonempty [simp]: "decimal n \<noteq> []"
  by (subst decimal.simps) simp

lemma decimal_no_zero: "0 < n \<Longrightarrow> hd (decimal n) \<noteq> CHR ''0''"
proof (induction n rule: decimal.induct)
  case (1 n)
  show ?case
  proof (cases "n < 10")
    case True
    have "digit_val (digit n) \<noteq> digit_val (digit 0)" using True 1(2) by (simp del: digit_0)
    then have "digit n \<noteq> CHR ''0''" by (metis digit_0)
    then show ?thesis using True by (subst decimal.simps) simp
  next
    case False
    then have "0 < n div 10" by simp
    with 1(1)[OF False] False show ?thesis by (subst decimal.simps) simp
  qed
qed

lemma decimal_0: "decimal 0 = ''0''"
  by (subst decimal.simps) simp

lemma decimal_parse:
  "s \<noteq> [] \<Longrightarrow> list_all is_digit s \<Longrightarrow> (1 < length s \<longrightarrow> hd s \<noteq> CHR ''0'') \<Longrightarrow>
   decimal (parse_dec s) = s \<and> (1 < length s \<longrightarrow> 0 < parse_dec s)"
proof (induction s rule: rev_induct)
  case Nil
  then show ?case by simp
next
  case (snoc c s)
  have c: "digit_val c < 10" "digit (digit_val c) = c" using digit_val_digit[of c] snoc.prems by auto
  show ?case
  proof (cases "s = []")
    case True
    then show ?thesis using c parse_dec_snoc(2)[of "[]" c] by (subst decimal.simps) simp
  next
    case False
    have z: "hd s \<noteq> CHR ''0''" using snoc.prems(3) False by (cases s) auto
    with snoc False have IH: "decimal (parse_dec s) = s" "1 < length s \<longrightarrow> 0 < parse_dec s" by auto
    have "0 < parse_dec s"
    proof (rule ccontr)
      assume "\<not> 0 < parse_dec s"
      then have "s = ''0''" using IH(1) decimal_0 by simp
      with z show False by simp
    qed
    moreover from this have "(10 * parse_dec s + digit_val c) div 10 = parse_dec s"
      "(10 * parse_dec s + digit_val c) mod 10 = digit_val c" "\<not> 10 * parse_dec s + digit_val c < 10"
      using c(1) by simp_all
    ultimately show ?thesis using IH(1) c(2) by (subst decimal.simps) simp
  qed
qed

lemma length_decimal: "n < 10 ^ Suc k \<Longrightarrow> length (decimal n) \<le> Suc k"
proof (induction k arbitrary: n)
  case 0
  then show ?case by (subst decimal.simps) simp
next
  case (Suc k)
  show ?case
  proof (cases "n < 10")
    case True
    then show ?thesis by (subst decimal.simps) simp
  next
    case False
    have "n div 10 < 10 ^ Suc k" using Suc.prems by (simp add: less_mult_imp_div_less)
    then show ?thesis using Suc.IH[of "n div 10"] False by (subst decimal.simps) simp
  qed
qed

lemma length_padded: "n < 10 ^ Suc k \<Longrightarrow> Suc k \<le> w \<Longrightarrow> length (padded c w n) = w"
  using length_decimal[of n k] by (simp add: padded_def)

lemma length_decimal_int:
  assumes "- (2 ^ 31) \<le> i" "i < 2 ^ 31"
  shows "length (decimal_int i) \<le> 11"
proof -
  have "length (decimal (nat \<bar>i\<bar>)) \<le> Suc 9" by (rule length_decimal) (use assms in simp)
  then show ?thesis by (cases "i < 0") (simp_all add: decimal_int_def)
qed

text \<open>Text that can be part of a C string.\<close>

definition no_nul :: "string \<Rightarrow> bool" where
  "no_nul s \<longleftrightarrow> CHR 0x00 \<notin> set s"

lemma no_nul_simps [simp]:
  "no_nul []" "no_nul (c # s) \<longleftrightarrow> c \<noteq> CHR 0x00 \<and> no_nul s" "no_nul (s @ t) \<longleftrightarrow> no_nul s \<and> no_nul t"
  "c \<noteq> CHR 0x00 \<Longrightarrow> no_nul (replicate n c)"
  by (auto simp: no_nul_def)

lemma no_nul_take: "no_nul s \<Longrightarrow> no_nul (take n s)"
  by (auto simp: no_nul_def dest: in_set_takeD)

lemma no_nul_decimal [simp]: "no_nul (decimal n)"
proof -
  have "\<not> is_digit (CHR 0x00)" by (simp add: is_digit_def)
  then show ?thesis using decimal_digits[of n] unfolding no_nul_def list_all_iff by metis
qed

lemma no_nul_numbers [simp]: "no_nul (decimal_int i)" "c \<noteq> CHR 0x00 \<Longrightarrow> no_nul (padded c w n)"
  by (simp_all add: decimal_int_def padded_def)

end
