(* ===== verification/Inet_Address.thy ===== *)
theory Inet_Address
  imports Endian Decimal
begin

text \<open>
  \<open>leven/InetAddress.h\<close> and \<open>InetAddress.cc\<close>: an IPv4 socket address. The fields of \<open>sockaddr_in\<close>
  are the host's reading of what is in memory, so the port and the address are byte-swapped. Of the
  C library the code uses \<open>inet_ntop\<close> and \<open>inet_pton\<close> for \<open>AF_INET\<close>, which are written out here as
  documented (four decimal numbers up to 255 separated by dots; like glibc without leading zeros),
  and \<open>std::to_string\<close>.
\<close>

record inetaddr =
  sin_family :: "16 word"
  sin_port :: "16 word"
  s_addr :: "32 word"

definition AF_INET :: "16 word" where "AF_INET = 2"
definition INADDR_ANY :: "32 word" where "INADDR_ANY = 0"
definition INADDR_LOOPBACK :: "32 word" where "INADDR_LOOPBACK = 0x7f000001"

subsection \<open>Dotted addresses\<close>

fun splitdots :: "string \<Rightarrow> string list" where
  "splitdots [] = [[]]"
| "splitdots (c # cs) =
     (if c = CHR ''.'' then [] # splitdots cs
      else case splitdots cs of [] \<Rightarrow> [[c]] | s # ss \<Rightarrow> (c # s) # ss)"

definition octet :: "string \<Rightarrow> byte option" where
  "octet s =
     (if s \<noteq> [] \<and> list_all is_digit s \<and> (1 < length s \<longrightarrow> hd s \<noteq> CHR ''0'') \<and> parse_dec s \<le> 255
      then Some (word_of_nat (parse_dec s)) else None)"

definition inet_pton :: "string \<Rightarrow> 32 word option" where
  "inet_pton s = (case map octet (splitdots s) of
       [Some a, Some b, Some c, Some d] \<Rightarrow> Some (of_le_bytes [a, b, c, d])
     | _ \<Rightarrow> None)"

definition inet_ntop :: "32 word \<Rightarrow> string" where
  "inet_ntop w = (case map (\<lambda>b. decimal (unat b)) (le_bytes 4 w) of
       [a, b, c, d] \<Rightarrow> a @ CHR ''.'' # b @ CHR ''.'' # c @ CHR ''.'' # d
     | _ \<Rightarrow> [])"

subsection \<open>The class\<close>

definition InetAddress_port :: "16 word \<Rightarrow> bool \<Rightarrow> inetaddr" where
  "InetAddress_port port loopback =
     (let ip = (if loopback then INADDR_LOOPBACK else INADDR_ANY)
      in \<lparr>sin_family = AF_INET, sin_port = htobe16 port, s_addr = htobe32 ip\<rparr>)"

text \<open>The text is passed as a C string, so it ends at the first NUL; a failed parse aborts.\<close>

definition InetAddress_ip :: "string \<Rightarrow> 16 word \<Rightarrow> inetaddr result" where
  "InetAddress_ip ip port =
     (case inet_pton (takeWhile (\<lambda>c. c \<noteq> CHR 0x00) ip) of
        None \<Rightarrow> Inl Aborted
      | Some a \<Rightarrow> Inr \<lparr>sin_family = AF_INET, sin_port = htobe16 port, s_addr = a\<rparr>)"

definition setAddress :: "inetaddr \<Rightarrow> inetaddr \<Rightarrow> inetaddr" where
  "setAddress addr a = addr"

text \<open>\<open>INET_ADDRSTRLEN\<close> is 16; \<open>inet_ntop\<close> fails, and the code yields an empty string, when the text
  and its terminator do not fit.\<close>

definition toIp :: "inetaddr \<Rightarrow> string" where
  "toIp a = (if length (inet_ntop (s_addr a)) + 1 \<le> 16 then inet_ntop (s_addr a) else [])"

definition toPort :: "inetaddr \<Rightarrow> 16 word" where
  "toPort a = be16toh (sin_port a)"

definition toIpPort :: "inetaddr \<Rightarrow> string" where
  "toIpPort a = toIp a @ [CHR '':''] @ decimal (unat (toPort a))"

subsection \<open>Lemmas\<close>

lemma unat_byte: "unat (b :: byte) < 256"
  using unsigned_less[of b] by simp

lemma octet_decimal: "octet (decimal (unat (b :: byte))) = Some b"
proof -
  have "unat b < 256" by (rule unat_byte)
  moreover have "1 < length (decimal (unat b)) \<longrightarrow> hd (decimal (unat b)) \<noteq> CHR ''0''"
    by (cases "unat b = 0") (simp_all add: decimal_no_zero decimal_0)
  ultimately show ?thesis by (simp add: octet_def decimal_digits parse_decimal)
qed

lemma octet_Some: "octet s = Some b \<Longrightarrow> decimal (unat b) = s"
  using decimal_parse[of s] by (auto simp: octet_def unat_of_nat split: if_splits)

lemma splitdots_nodot: "CHR ''.'' \<notin> set s \<Longrightarrow> splitdots s = [s]"
  by (induction s) auto

lemma splitdots_append: "CHR ''.'' \<notin> set s \<Longrightarrow> splitdots (s @ CHR ''.'' # t) = s # splitdots t"
  by (induction s) auto

lemma splitdots_inv: "splitdots s \<noteq> [] \<and> s = concat (map (\<lambda>x. x @ ''.'') (butlast (splitdots s))) @ last (splitdots s)"
  by (induction s) (auto split: list.splits)

lemma digits_nodot: "list_all is_digit s \<Longrightarrow> CHR ''.'' \<notin> set s"
  by (auto simp: list_all_iff is_digit_def)

lemma inet_ntop_bytes:
  "inet_ntop (of_le_bytes [a, b, c, d]) =
     decimal (unat a) @ CHR ''.'' # decimal (unat b) @ CHR ''.'' # decimal (unat c) @ CHR ''.'' # decimal (unat d)"
  using le_bytes_of_le_bytes[of "[a, b, c, d]", where 'a = 32]
  by (simp add: inet_ntop_def numeral_eq_Suc)

lemma bytes4: "\<exists>a b c d. w = of_le_bytes [a, b, c, d]" for w :: "32 word"
proof -
  have "length (le_bytes 4 w) = 4" by simp
  then have "length (le_bytes 4 w) = Suc (Suc (Suc (Suc 0)))" by simp
  then obtain a b c d where "le_bytes 4 w = [a, b, c, d]" by (auto simp only: length_Suc_conv length_0_conv)
  then show ?thesis using of_le_bytes_le_bytes[of 4 w] by force
qed

lemma inet_pton_ntop: "inet_pton (inet_ntop w) = Some w"
proof -
  obtain a b c d where w: "w = of_le_bytes [a, b, c, d]" using bytes4 by blast
  have nodot: "CHR ''.'' \<notin> set (decimal n)" for n by (rule digits_nodot[OF decimal_digits])
  show ?thesis unfolding w inet_ntop_bytes
    by (simp only: inet_pton_def splitdots_append splitdots_nodot nodot not_False_eq_True)
       (simp add: octet_decimal)
qed

lemma inet_ntop_pton:
  assumes "inet_pton s = Some w"
  shows "inet_ntop w = s"
proof -
  obtain x1 x2 x3 x4 a b c d where x: "splitdots s = [x1, x2, x3, x4]" and
    o: "octet x1 = Some a" "octet x2 = Some b" "octet x3 = Some c" "octet x4 = Some d" and
    w: "w = of_le_bytes [a, b, c, d]"
    using assms by (auto simp: inet_pton_def split: list.splits option.splits)
  have "s = x1 @ CHR ''.'' # x2 @ CHR ''.'' # x3 @ CHR ''.'' # x4"
    using splitdots_inv[of s] x by simp
  then show ?thesis using o by (simp only: w inet_ntop_bytes) (simp add: octet_Some)
qed

lemma ntop_no_nul: "c \<in> set (inet_ntop w) \<Longrightarrow> c \<noteq> CHR 0x00"
proof -
  obtain a b c' d where w: "w = of_le_bytes [a, b, c', d]" using bytes4 by blast
  have nul: "\<not> is_digit (CHR 0x00)" by (simp add: is_digit_def)
  have "CHR 0x00 \<notin> set (decimal n)" for n using decimal_digits[of n] nul by (auto simp: list_all_iff)
  then show "c \<in> set (inet_ntop w) \<Longrightarrow> c \<noteq> CHR 0x00" unfolding w inet_ntop_bytes by auto
qed

lemma length_decimal_byte: "length (decimal (unat (b :: byte))) \<le> 3"
proof -
  have "unat b < 256" by (rule unat_byte)
  then show ?thesis
    by (subst decimal.simps, subst decimal.simps, subst decimal.simps) simp
qed

lemma toIp_ntop: "toIp a = inet_ntop (s_addr a)"
proof -
  obtain b1 b2 b3 b4 where "s_addr a = of_le_bytes [b1, b2, b3, b4]" using bytes4 by blast
  then show ?thesis
    using length_decimal_byte[of b1] length_decimal_byte[of b2] length_decimal_byte[of b3] length_decimal_byte[of b4]
    by (simp del: of_le_bytes.simps add: toIp_def inet_ntop_bytes)
qed


text \<open>
  C13. Addresses as text. The text of every address (\<open>toIp\<close>) fits the 16-byte buffer of the code and
  gives the same address back through the text constructor, and its port is the one given; the text
  constructor accepts exactly the texts that \<open>toIp\<close> writes, and aborts on every other.
\<close>

theorem address_text_roundtrip:
  "InetAddress_ip (toIp a) port = Inr (a\<lparr>sin_family := AF_INET, sin_port := htobe16 port\<rparr>)
   \<and> toPort (a\<lparr>sin_family := AF_INET, sin_port := htobe16 port\<rparr>) = port
   \<and> (case InetAddress_ip s port of
        Inr b \<Rightarrow> toIp b = takeWhile (\<lambda>c. c \<noteq> CHR 0x00) s \<and> toPort b = port
      | Inl e \<Rightarrow> e = Aborted \<and> (\<nexists>b. toIp b = takeWhile (\<lambda>c. c \<noteq> CHR 0x00) s))"
proof (intro conjI)
  have port: "be16toh (htobe16 p) = p" for p by (simp add: be16toh_def htobe16_def bswap_bswap)
  show "toPort (a\<lparr>sin_family := AF_INET, sin_port := htobe16 port\<rparr>) = port" by (simp add: toPort_def port)
  have nul: "takeWhile (\<lambda>c. c \<noteq> CHR 0x00) (toIp a) = toIp a"
    by (simp add: takeWhile_eq_all_conv toIp_ntop ntop_no_nul)
  show "InetAddress_ip (toIp a) port = Inr (a\<lparr>sin_family := AF_INET, sin_port := htobe16 port\<rparr>)"
    unfolding InetAddress_ip_def nul by (simp add: toIp_ntop inet_pton_ntop)
  show "case InetAddress_ip s port of
        Inr b \<Rightarrow> toIp b = takeWhile (\<lambda>c. c \<noteq> CHR 0x00) s \<and> toPort b = port
      | Inl e \<Rightarrow> e = Aborted \<and> (\<nexists>b. toIp b = takeWhile (\<lambda>c. c \<noteq> CHR 0x00) s)"
  proof (cases "inet_pton (takeWhile (\<lambda>c. c \<noteq> CHR 0x00) s)")
    case None
    then have "toIp b \<noteq> takeWhile (\<lambda>c. c \<noteq> CHR 0x00) s" for b
      using inet_pton_ntop[of "s_addr b"] by (metis option.distinct(1) toIp_ntop)
    with None show ?thesis by (simp add: InetAddress_ip_def)
  next
    case (Some w)
    then show ?thesis by (simp add: InetAddress_ip_def toIp_ntop inet_ntop_pton toPort_def port)
  qed
qed

end
