(* ===== verification/Tcp_Connection.thy ===== *)
theory Tcp_Connection
  imports EventLoop Buffer Inet_Address
begin

text \<open>
  \<open>leven/TcpConnection.h\<close> and \<open>TcpConnection.cc\<close>. The state of a connection is the record
  \<open>tcpconn\<close>; \<open>wire\<close> (the bytes the kernel accepted for sending) and \<open>shutdownWr\<close> (whether
  \<open>shutdown(SHUT_WR)\<close> was called) record the system calls. The operations work on the pair of the
  loop and the connection. The result of a \<open>write\<close> is an argument, a function of the length offered
  (\<open>WriteFail errno\<close> or the number of bytes taken, at most the length), and so is the result of
  \<open>readv\<close>. The user's callbacks are the argument \<open>user\<close>; whether each is set is in the record.
  \<open>context_\<close>, which the library only stores, is left out, and so are the log lines.
\<close>

subsection \<open>State\<close>

datatype conn_state = kConnecting | kConnected | kDisconnecting | kDisconnected

fun state_no :: "conn_state \<Rightarrow> nat" where
  "state_no kConnecting = 0" | "state_no kConnected = 1"
| "state_no kDisconnecting = 2" | "state_no kDisconnected = 3"

lemma state_no_inject [simp]: "state_no a = state_no b \<longleftrightarrow> a = b"
  by (cases a; cases b) simp_all

instantiation conn_state :: linorder
begin

definition less_eq_conn_state :: "conn_state \<Rightarrow> conn_state \<Rightarrow> bool" where
  "less_eq_conn_state a b \<longleftrightarrow> state_no a \<le> state_no b"

definition less_conn_state :: "conn_state \<Rightarrow> conn_state \<Rightarrow> bool" where
  "less_conn_state a b \<longleftrightarrow> state_no a < state_no b"

instance
  by standard (auto simp: less_eq_conn_state_def less_conn_state_def)

end

datatype conn_task =
    SendInLoop "byte list"
  | WriteComplete
  | HighWater nat
  | ShutdownInLoop
  | ForceCloseInLoop
  | StopRead
  | StartRead

datatype syswrite = WriteFail int | WriteOk nat

definition EAGAIN :: int where "EAGAIN = 11"
definition EPIPE :: int where "EPIPE = 32"
definition ECONNRESET :: int where "ECONNRESET = 104"

record tcpconn =
  chan :: channel
  state :: conn_state
  local_addr :: inetaddr
  peer_addr :: inetaddr
  inputBuffer :: buffer
  outputBuffer :: buffer
  highWaterMark :: nat
  messageCb :: bool
  writeCompleteCb :: bool
  highWaterMarkCb :: bool
  closeCb :: bool
  wire :: "byte list"
  shutdownWr :: bool

type_synonym 'x conn_world = "conn_task eventloop \<times> 'x tcpconn_scheme"

record 'x conn_user =
  on_message :: "'x conn_world \<Rightarrow> 'x conn_world result"
  on_writeComplete :: "'x conn_world \<Rightarrow> 'x conn_world result"
  on_highWater :: "nat \<Rightarrow> 'x conn_world \<Rightarrow> 'x conn_world result"
  on_close :: "'x conn_world \<Rightarrow> 'x conn_world result"

definition TcpConnection_new :: "int \<Rightarrow> inetaddr \<Rightarrow> inetaddr \<Rightarrow> tcpconn result" where
  "TcpConnection_new sockfd loc peer =
     bindR (Buffer_new kInitialSize) (\<lambda>inb. bindR (Buffer_new kInitialSize) (\<lambda>outb.
       Inr \<lparr>chan = setCallBack ErrorCb (setCallBack CloseCb (setCallBack WriteCb (setCallBack ReadCb (Channel_new sockfd)))),
            state = kConnecting, local_addr = loc, peer_addr = peer, inputBuffer = inb, outputBuffer = outb,
            highWaterMark = 0, messageCb = False, writeCompleteCb = False, highWaterMarkCb = False,
            closeCb = False, wire = [], shutdownWr = False\<rparr>))"

definition setMessageCallback :: "bool \<Rightarrow> 'x tcpconn_scheme \<Rightarrow> 'x tcpconn_scheme" where
  "setMessageCallback cb c = c\<lparr>messageCb := cb\<rparr>"

definition setWriteCompleteCallback :: "bool \<Rightarrow> 'x tcpconn_scheme \<Rightarrow> 'x tcpconn_scheme" where
  "setWriteCompleteCallback cb c = c\<lparr>writeCompleteCb := cb\<rparr>"

definition setHighWaterMarkCallback :: "bool \<Rightarrow> nat \<Rightarrow> 'x tcpconn_scheme \<Rightarrow> 'x tcpconn_scheme" where
  "setHighWaterMarkCallback cb mark c = c\<lparr>highWaterMarkCb := cb, highWaterMark := mark\<rparr>"

definition setCloseCallBack :: "bool \<Rightarrow> 'x tcpconn_scheme \<Rightarrow> 'x tcpconn_scheme" where
  "setCloseCallBack cb c = c\<lparr>closeCb := cb\<rparr>"

text \<open>The destructor also destroys the channel.\<close>

definition TcpConnection_delete :: "'x tcpconn_scheme \<Rightarrow> unit result" where
  "TcpConnection_delete c = assertR (state c = kDisconnected) (Channel_delete (chan c))"

definition TcpConnection_connected :: "'x tcpconn_scheme \<Rightarrow> bool" where
  "TcpConnection_connected c \<longleftrightarrow> state c = kConnected"

definition TcpConnection_disconnected :: "'x tcpconn_scheme \<Rightarrow> bool" where
  "TcpConnection_disconnected c \<longleftrightarrow> state c = kDisconnected"

definition TcpConnection_name :: "'x tcpconn_scheme \<Rightarrow> string" where
  "TcpConnection_name c = toIpPort (peer_addr c) @ '' -> '' @ toIpPort (local_addr c)"

definition TcpConnection_isReading :: "'x tcpconn_scheme \<Rightarrow> bool" where
  "TcpConnection_isReading c = isReading (chan c)"

definition stateAtomicGetAndSet :: "conn_state \<Rightarrow> 'x tcpconn_scheme \<Rightarrow> conn_state \<times> 'x tcpconn_scheme" where
  "stateAtomicGetAndSet newState c = (state c, c\<lparr>state := newState\<rparr>)"

text \<open>An interest change of the connection's channel, and a task for the loop.\<close>

definition conn_chan :: "chan_op \<Rightarrow> nat \<Rightarrow> 'x conn_world \<Rightarrow> 'x conn_world result" where
  "conn_chan op tid w =
     bindR (chan_do op tid (chan (snd w)) (fst w)) (\<lambda>(ch, l). Inr (l, (snd w)\<lparr>chan := ch\<rparr>))"

definition conn_queue :: "nat \<Rightarrow> conn_task \<Rightarrow> 'x conn_world \<Rightarrow> 'x conn_world" where
  "conn_queue tid t w = (queueInLoop tid t (fst w), snd w)"

definition connectEstablished :: "nat \<Rightarrow> 'x conn_world \<Rightarrow> 'x conn_world result" where
  "connectEstablished tid w =
     assertR (state (snd w) = kConnecting)
       (conn_chan EnableRead tid (fst w, (snd w)\<lparr>state := kConnected, chan := Channel_tie (chan (snd w))\<rparr>))"

subsection \<open>Sending\<close>

text \<open>
  The first half of \<open>sendInLoop\<close>: the direct \<open>write\<close>, giving the number of bytes the kernel took and
  whether the connection is broken. The second half buffers the rest.
\<close>

definition send_direct :: "nat \<Rightarrow> (nat \<Rightarrow> syswrite) \<Rightarrow> byte list \<Rightarrow> 'x conn_world \<Rightarrow> (nat \<times> bool \<times> 'x conn_world) result" where
  "send_direct tid wr data w =
     (let c = snd w in
      if isWriting (chan c) then Inr (0, False, w)
      else assertR (readableBytes (outputBuffer c) = 0)
        (case wr (length data) of
           WriteFail e \<Rightarrow> Inr (0, e \<noteq> EAGAIN \<and> (e = EPIPE \<or> e = ECONNRESET), w)
         | WriteOk n \<Rightarrow>
             (let w1 = (fst w, c\<lparr>wire := wire c @ take n data\<rparr>)
              in Inr (n, False, if szsub (length data) n = 0 \<and> writeCompleteCb c
                                then conn_queue tid WriteComplete w1 else w1))))"

definition send_rest :: "nat \<Rightarrow> byte list \<Rightarrow> nat \<Rightarrow> 'x conn_world \<Rightarrow> 'x conn_world result" where
  "send_rest tid data n w =
     (let c = snd w; remain = szsub (length data) n;
          oldLen = readableBytes (outputBuffer c); newLen = szadd oldLen remain;
          w1 = (if highWaterMarkCb c \<and> oldLen < highWaterMark c \<and> newLen \<ge> highWaterMark c
                then conn_queue tid (HighWater newLen) w else w)
      in bindR (append_bytes (range_of data n remain) (outputBuffer (snd w1)))
           (\<lambda>b. conn_chan EnableWrite tid (fst w1, (snd w1)\<lparr>outputBuffer := b\<rparr>)))"

definition sendInLoop :: "nat \<Rightarrow> (nat \<Rightarrow> syswrite) \<Rightarrow> byte list \<Rightarrow> 'x conn_world \<Rightarrow> 'x conn_world result" where
  "sendInLoop tid wr data w =
     assertInLoopThread tid (fst w)
       (if state (snd w) = kDisconnected then Inr w
        else bindR (send_direct tid wr data w) (\<lambda>(n, faultError, w1).
               if \<not> faultError \<and> szsub (length data) n > 0 then send_rest tid data n w1 else Inr w1))"

definition TcpConnection_send :: "nat \<Rightarrow> (nat \<Rightarrow> syswrite) \<Rightarrow> byte list \<Rightarrow> 'x conn_world \<Rightarrow> 'x conn_world result" where
  "TcpConnection_send tid wr data w =
     (if state (snd w) \<noteq> kConnected then Inr w
      else if isInLoopThread tid (fst w) then sendInLoop tid wr data w
      else Inr (conn_queue tid (SendInLoop data) w))"

definition TcpConnection_send_buffer :: "nat \<Rightarrow> (nat \<Rightarrow> syswrite) \<Rightarrow> buffer \<Rightarrow> 'x conn_world
    \<Rightarrow> (buffer \<times> 'x conn_world) result" where
  "TcpConnection_send_buffer tid wr b w =
     (if state (snd w) \<noteq> kConnected then Inr (b, w)
      else if isInLoopThread tid (fst w)
      then bindR (sendInLoop tid wr (range_of (bytes b) (peek b) (readableBytes b)) w)
             (\<lambda>w1. Inr (retrieveAll b, w1))
      else bindR (retrieveAllAsString b) (\<lambda>(str, b'). Inr (b', conn_queue tid (SendInLoop str) w)))"

subsection \<open>Closing\<close>

definition shutdownInLoop :: "nat \<Rightarrow> 'x conn_world \<Rightarrow> 'x conn_world result" where
  "shutdownInLoop tid w =
     assertInLoopThread tid (fst w)
       (Inr (if state (snd w) \<noteq> kDisconnected \<and> \<not> isWriting (chan (snd w))
             then (fst w, (snd w)\<lparr>shutdownWr := True\<rparr>) else w))"

text \<open>
  \<open>shutdown\<close> and \<open>forceClose\<close> first test the state and then exchange it; another thread may act in
  between, so the second halves are operations of their own.
\<close>

definition shutdown_exchange :: "nat \<Rightarrow> 'x conn_world \<Rightarrow> 'x conn_world result" where
  "shutdown_exchange tid w =
     (let (old, c1) = stateAtomicGetAndSet kDisconnecting (snd w); w1 = (fst w, c1)
      in if old = kConnected
         then if isInLoopThread tid (fst w) then shutdownInLoop tid w1
              else Inr (conn_queue tid ShutdownInLoop w1)
         else Inr w1)"

definition TcpConnection_shutdown :: "nat \<Rightarrow> 'x conn_world \<Rightarrow> 'x conn_world result" where
  "TcpConnection_shutdown tid w = assertR (state (snd w) \<le> kDisconnecting) (shutdown_exchange tid w)"

definition handleClose :: "'x conn_user \<Rightarrow> nat \<Rightarrow> 'x conn_world \<Rightarrow> 'x conn_world result" where
  "handleClose user tid w =
     assertInLoopThread tid (fst w)
       (assertR (state (snd w) = kConnected \<or> state (snd w) = kDisconnecting)
         (bindR (EventLoop_removeChannel tid (chan (snd w)) (fst w)) (\<lambda>(ch, l).
            let w1 = (l, (snd w)\<lparr>state := kDisconnected, chan := ch\<rparr>)
            in if closeCb (snd w1) then on_close user w1 else Inl BadFunctionCall)))"

definition forceClose_exchange :: "nat \<Rightarrow> 'x conn_world \<Rightarrow> 'x conn_world" where
  "forceClose_exchange tid w =
     (let (old, c1) = stateAtomicGetAndSet kDisconnecting (snd w); w1 = (fst w, c1)
      in if old \<noteq> kDisconnected then conn_queue tid ForceCloseInLoop w1 else w1)"

definition forceClose :: "nat \<Rightarrow> 'x conn_world \<Rightarrow> 'x conn_world result" where
  "forceClose tid w = Inr (if state (snd w) \<noteq> kDisconnected then forceClose_exchange tid w else w)"

definition forceCloseInLoop :: "'x conn_user \<Rightarrow> nat \<Rightarrow> 'x conn_world \<Rightarrow> 'x conn_world result" where
  "forceCloseInLoop user tid w =
     assertInLoopThread tid (fst w)
       (if state (snd w) \<noteq> kDisconnected then handleClose user tid w else Inr w)"

subsection \<open>Reading and writing\<close>

definition stop_read_task :: "nat \<Rightarrow> 'x conn_world \<Rightarrow> 'x conn_world result" where
  "stop_read_task tid w = (if isReading (chan (snd w)) then conn_chan DisableRead tid w else Inr w)"

definition start_read_task :: "nat \<Rightarrow> 'x conn_world \<Rightarrow> 'x conn_world result" where
  "start_read_task tid w = (if \<not> isReading (chan (snd w)) then conn_chan EnableRead tid w else Inr w)"

definition TcpConnection_stopRead :: "nat \<Rightarrow> 'x conn_world \<Rightarrow> 'x conn_world result" where
  "TcpConnection_stopRead tid w = runInLoop tid (\<lambda>_. stop_read_task tid) StopRead w"

definition TcpConnection_startRead :: "nat \<Rightarrow> 'x conn_world \<Rightarrow> 'x conn_world result" where
  "TcpConnection_startRead tid w = runInLoop tid (\<lambda>_. start_read_task tid) StartRead w"

text \<open>\<open>handleError\<close> reads and clears the socket's error and logs it.\<close>

definition handleError :: "'x conn_world \<Rightarrow> 'x conn_world result" where
  "handleError w = Inr w"

definition TcpConnection_handleRead :: "'x conn_user \<Rightarrow> nat \<Rightarrow> (nat \<Rightarrow> sysread) \<Rightarrow> 'x conn_world \<Rightarrow> 'x conn_world result" where
  "TcpConnection_handleRead user tid readv w =
     assertInLoopThread tid (fst w)
       (assertR (state (snd w) \<noteq> kDisconnected)
         (bindR (readFd readv (inputBuffer (snd w))) (\<lambda>(n, b, savedErrno).
            let w1 = (fst w, (snd w)\<lparr>inputBuffer := b\<rparr>)
            in if n = -1 then handleError w1
               else if n = 0 then handleClose user tid w1
               else if messageCb (snd w1) then on_message user w1 else Inl BadFunctionCall)))"

definition TcpConnection_handleWrite :: "nat \<Rightarrow> (nat \<Rightarrow> syswrite) \<Rightarrow> 'x conn_world \<Rightarrow> 'x conn_world result" where
  "TcpConnection_handleWrite tid wr w =
     (let c = snd w; b = outputBuffer c in
      if state c = kDisconnected then Inr w
      else assertR (readableBytes b > 0) (assertR (isWriting (chan c))
        (case wr (readableBytes b) of
           WriteFail e \<Rightarrow> Inr w
         | WriteOk n \<Rightarrow>
             bindR (retrieve n b) (\<lambda>b1.
               let w1 = (fst w, c\<lparr>wire := wire c @ range_of (bytes b) (peek b) n, outputBuffer := b1\<rparr>)
               in if readableBytes b1 = 0
                  then bindR (conn_chan DisableWrite tid w1) (\<lambda>w2.
                       bindR (if state (snd w2) = kDisconnecting then shutdownInLoop tid w2 else Inr w2) (\<lambda>w3.
                       Inr (if writeCompleteCb (snd w3) then conn_queue tid WriteComplete w3 else w3)))
                  else Inr w1))))"

subsection \<open>Dispatch\<close>

text \<open>
  What the loop runs for a connection: the callbacks of its channel, whose dispatch is in
  \<open>Channel\<close>, and the tasks queued for it. \<open>io\<close> holds the results of the system calls.
\<close>

record conn_io =
  io_read :: "nat \<Rightarrow> sysread"
  io_write :: "nat \<Rightarrow> syswrite"

fun conn_event :: "'x conn_user \<Rightarrow> nat \<Rightarrow> conn_io \<Rightarrow> cbkind \<Rightarrow> 'x conn_world \<Rightarrow> 'x conn_world result" where
  "conn_event user tid io ReadCb w = TcpConnection_handleRead user tid (io_read io) w"
| "conn_event user tid io WriteCb w = TcpConnection_handleWrite tid (io_write io) w"
| "conn_event user tid io CloseCb w = handleClose user tid w"
| "conn_event user tid io ErrorCb w = handleError w"

fun run_conn_task :: "'x conn_user \<Rightarrow> nat \<Rightarrow> conn_io \<Rightarrow> conn_task \<Rightarrow> 'x conn_world \<Rightarrow> 'x conn_world result" where
  "run_conn_task user tid io (SendInLoop data) w = sendInLoop tid (io_write io) data w"
| "run_conn_task user tid io WriteComplete w = on_writeComplete user w"
| "run_conn_task user tid io (HighWater n) w = on_highWater user n w"
| "run_conn_task user tid io ShutdownInLoop w = shutdownInLoop tid w"
| "run_conn_task user tid io ForceCloseInLoop w = forceCloseInLoop user tid w"
| "run_conn_task user tid io StopRead w = stop_read_task tid w"
| "run_conn_task user tid io StartRead w = start_read_task tid w"

definition conn_handleEvents :: "'x conn_user \<Rightarrow> nat \<Rightarrow> conn_io \<Rightarrow> 'x conn_world \<Rightarrow> 'x conn_world result" where
  "conn_handleEvents user tid io w =
     assertInLoopThread tid (fst w)
       (handleEventsWithGuard (\<lambda>w. Some (chan (snd w)))
          (\<lambda>f w. (fst w, (snd w)\<lparr>chan := f (chan (snd w))\<rparr>)) (conn_event user tid io) w)"

end
