(* ===== verification/Conn_Invariant.thy ===== *)
theory Conn_Invariant
  imports Tcp_Connection
begin

text \<open>
  The invariant of an established connection, and what each of its operations does to it. All
  lemmas are about a state in which the calling thread is the loop's; \<open>io_ok\<close> is the documented
  bound of \<open>write\<close> and \<open>readv\<close>: they take and deliver at most what was offered.
\<close>

definition wr_ok :: "(nat \<Rightarrow> syswrite) \<Rightarrow> bool" where
  "wr_ok wr \<longleftrightarrow> (\<forall>n k. wr n = WriteOk k \<longrightarrow> k \<le> n)"

definition rd_ok :: "(nat \<Rightarrow> sysread) \<Rightarrow> bool" where
  "rd_ok rd \<longleftrightarrow> (\<forall>n bs. rd n = ReadOk bs \<longrightarrow> length bs \<le> n)"

definition io_ok :: "conn_io \<Rightarrow> bool" where
  "io_ok io \<longleftrightarrow> wr_ok (io_write io) \<and> rd_ok (io_read io)"

abbreviation out :: "'x tcpconn_scheme \<Rightarrow> byte list" where
  "out c \<equiv> content (outputBuffer c)"

abbreviation live :: "'x tcpconn_scheme \<Rightarrow> bool" where
  "live c \<equiv> state c = kConnected \<or> state c = kDisconnecting"

text \<open>
  In a live connection the channel waits for writability exactly while there is buffered output,
  and its interest is never empty (\<open>EPOLLPRI\<close> stays set), so that it can always be disabled.
\<close>

definition conn_ok :: "nat \<Rightarrow> 'x conn_world \<Rightarrow> bool" where
  "conn_ok tid w \<longleftrightarrow> isInLoopThread tid (fst w) \<and> loop_sync [chan (snd w)] (fst w)
     \<and> buf_ok (inputBuffer (snd w)) \<and> buf_ok (outputBuffer (snd w)) \<and> state (snd w) \<noteq> kConnecting
     \<and> messageCb (snd w) \<and> closeCb (snd w)
     \<and> (live (snd w) \<longrightarrow> bit (events (chan (snd w))) 1 \<and> isWriting (chan (snd w)) = (out (snd w) \<noteq> []))
     \<and> (state (snd w) = kDisconnected \<longrightarrow> \<not> isWriting (chan (snd w)))
     \<and> (\<forall>data. SendInLoop data \<in> set (pendingJobs (fst w)) \<longrightarrow> length data \<le> vec_max)"

lemma conn_okD:
  assumes "conn_ok tid (l, c)"
  shows "isInLoopThread tid l" "loop_sync [chan c] l" "buf_ok (inputBuffer c)" "buf_ok (outputBuffer c)"
    "state c \<noteq> kConnecting" "messageCb c" "closeCb c" "live c \<Longrightarrow> bit (events (chan c)) 1"
    "live c \<Longrightarrow> isWriting (chan c) = (out c \<noteq> [])" "state c = kDisconnected \<Longrightarrow> \<not> isWriting (chan c)"
    "SendInLoop data \<in> set (pendingJobs l) \<Longrightarrow> length data \<le> vec_max"
  using assms by (simp_all add: conn_ok_def)

lemma live_cases: "state c \<noteq> kConnecting \<Longrightarrow> state c \<noteq> kDisconnected \<Longrightarrow> live c"
  by (cases "state c") auto

subsection \<open>Interest changes and tasks\<close>

lemma chan_do_frame:
  assumes "chan_do op tid ch l = Inr (ch', l')"
  shows "pendingJobs l' = pendingJobs l" "doingPendingJobs l' = doingPendingJobs l" "eventfd l' = eventfd l"
    "quitting l' = quitting l"
    "ch' = ch\<lparr>events := new_events op (events ch), polling := polling ch'\<rparr>"
  using assms
  by (auto simp: chan_do_def EventLoop_updateChannel_def Epoller_updateChannel_def assertInLoopThread_def
      result_iffs Let_def split: if_splits)

lemma chan_do_keeps:
  assumes "chan_do op tid ch l = Inr (ch', l')"
  shows "chfd ch' = chfd ch" "callbacks ch' = callbacks ch" "handlingEvents ch' = handlingEvents ch"
    "revents ch' = revents ch"
  by (subst chan_do_frame(5)[OF assms], simp)+

lemma conn_chan_ok:
  assumes "isInLoopThread tid l" "loop_sync [chan c] l"
    and "\<not> (events (chan c) = 0 \<and> op \<in> {DisableRead, DisableWrite, DisableAll})"
  shows "\<exists>ch l'. conn_chan op tid (l, c) = Inr (l', c\<lparr>chan := ch\<rparr>) \<and> isInLoopThread tid l'
     \<and> loop_sync [ch] l' \<and> events ch = new_events op (events (chan c)) \<and> pendingJobs l' = pendingJobs l
     \<and> revents ch = revents (chan c)"
proof -
  from chan_do_sync[of tid l "[chan c]" 0 op] assms obtain ch l' where
    "chan_do op tid (chan c) l = Inr (ch, l')" "loop_sync [ch] l'" "threadId l' = threadId l"
    "events ch = new_events op (events (chan c))" by auto
  note ch = this
  have "revents ch = revents (chan c)" by (subst chan_do_frame(5)[OF ch(1)]) simp
  moreover have "pendingJobs l' = pendingJobs l" by (rule chan_do_frame(1)[OF ch(1)])
  ultimately show ?thesis using ch assms(1)
    by (intro exI[of _ ch] exI[of _ l']) (simp add: conn_chan_def isInLoopThread_def)
qed

lemma loop_sync_queue [simp]: "loop_sync chs (queueInLoop tid t l) = loop_sync chs l"
  by (simp add: loop_sync_def)

lemma conn_queue_simps [simp]:
  "snd (conn_queue tid t w) = snd w" "pendingJobs (fst (conn_queue tid t w)) = pendingJobs (fst w) @ [t]"
  "isInLoopThread tid' (fst (conn_queue tid t w)) = isInLoopThread tid' (fst w)"
  "loop_sync chs (fst (conn_queue tid t w)) = loop_sync chs (fst w)"
  by (simp_all add: conn_queue_def isInLoopThread_def)

lemma conn_ok_queue [simp]:
  "(\<And>data. t = SendInLoop data \<Longrightarrow> length data \<le> vec_max) \<Longrightarrow>
   conn_ok tid (conn_queue tid' t w) = conn_ok tid w"
  by (auto simp: conn_ok_def)

subsection \<open>Sending\<close>

definition broken :: "syswrite \<Rightarrow> bool" where
  "broken r \<longleftrightarrow> r = WriteFail EPIPE \<or> r = WriteFail ECONNRESET"

definition write_count :: "syswrite \<Rightarrow> nat" where
  "write_count r = (case r of WriteFail e \<Rightarrow> 0 | WriteOk n \<Rightarrow> n)"

lemma send_direct_ok:
  assumes "conn_ok tid (l, c)" "live c" "wr_ok wr" "length data \<le> vec_max"
  defines "n \<equiv> if out c \<noteq> [] then 0 else write_count (wr (length data))"
  defines "done \<equiv> out c = [] \<and> wr (length data) = WriteOk (length data) \<and> writeCompleteCb c"
  shows "n \<le> length data"
    "\<exists>l1. send_direct tid wr data (l, c) = Inr (n, out c = [] \<and> broken (wr (length data)), l1, c\<lparr>wire := wire c @ take n data\<rparr>)
       \<and> conn_ok tid (l1, c\<lparr>wire := wire c @ take n data\<rparr>)
       \<and> pendingJobs l1 = pendingJobs l @ (if done then [WriteComplete] else [])"
proof -
  note ok = conn_okD[OF assms(1)]
  have w: "isWriting (chan c) = (out c \<noteq> [])" by (rule ok(9)[OF assms(2)])
  have empty: "readableBytes (outputBuffer c) = 0" if "out c = []" using that by (simp add: readable_content ok(4))
  have len: "length data < size_mod" using assms(4) vec_max_size_mod(2) by linarith
  show "n \<le> length data"
    using assms(3) by (auto simp: n_def write_count_def wr_ok_def split: syswrite.split)
  have inv: "conn_ok tid (l, c\<lparr>wire := xs\<rparr>)" for xs using assms(1) by (simp add: conn_ok_def)
  show "\<exists>l1. send_direct tid wr data (l, c) = Inr (n, out c = [] \<and> broken (wr (length data)), l1, c\<lparr>wire := wire c @ take n data\<rparr>)
       \<and> conn_ok tid (l1, c\<lparr>wire := wire c @ take n data\<rparr>)
       \<and> pendingJobs l1 = pendingJobs l @ (if done then [WriteComplete] else [])"
  proof (cases "out c = []")
    case False
    then show ?thesis using w inv[of "wire c"] by (simp add: send_direct_def n_def done_def)
  next
    case True
    show ?thesis
    proof (cases "wr (length data)")
      case (WriteFail e)
      then show ?thesis using True w empty inv[of "wire c"]
        by (auto simp: send_direct_def n_def done_def write_count_def broken_def EAGAIN_def EPIPE_def ECONNRESET_def)
    next
      case (WriteOk k)
      then have "k \<le> length data" using assms(3) by (auto simp: wr_ok_def)
      then have "szsub (length data) k = length data - k" using len by (simp add: szsub_exact)
      then show ?thesis using True WriteOk w empty inv[of "wire c @ take k data"] \<open>k \<le> length data\<close>
        by (auto simp: send_direct_def n_def done_def write_count_def broken_def Let_def conn_queue_def conn_ok_def isInLoopThread_def)
    qed
  qed
qed

lemma send_rest_ok:
  assumes "conn_ok tid (l, c)" "live c" "length data \<le> vec_max" "n < length data"
  shows "ends_in (\<lambda>(l', c'). conn_ok tid (l', c') \<and> out c' = out c @ drop n data
     \<and> (\<exists>ch b. c' = c\<lparr>chan := ch, outputBuffer := b\<rparr>)
     \<and> isReading (chan c') = isReading (chan c) \<and> revents (chan c') = revents (chan c)
     \<and> pendingJobs l' = pendingJobs l @ (if highWaterMarkCb c \<and> length (out c) < highWaterMark c
           \<and> highWaterMark c \<le> length (out c') then [HighWater (length (out c'))] else []))
   (send_rest tid data n (l, c))"
proof -
  note ok = conn_okD[OF assms(1)]
  let ?r = "length data - n"
  have len: "length data < size_mod" using assms(3) vec_max_size_mod(2) by linarith
  have rem: "szsub (length data) n = ?r" using assms(4) len by (simp add: szsub_exact)
  have rng: "range_of data n ?r = drop n data" by (simp add: range_of_def)
  have rd: "readableBytes (outputBuffer c) = length (out c)" by (rule readable_content[OF ok(4)])
  have "length (out c) \<le> vec_max" using buf_okD(2-4)[OF ok(4)] length_content[OF ok(4)] by linarith
  then have new: "szadd (length (out c)) ?r = length (out c) + ?r"
    using assms(3) vec_max_size_mod(1) by (intro szadd_exact) linarith
  define l1 where "l1 = (if highWaterMarkCb c \<and> length (out c) < highWaterMark c \<and> highWaterMark c \<le> length (out c) + ?r
      then queueInLoop tid (HighWater (length (out c) + ?r)) l else l)"
  have l1: "isInLoopThread tid l1" "loop_sync [chan c] l1"
    using ok(1,2) by (auto simp: l1_def isInLoopThread_def)
  have eq: "send_rest tid data n (l, c) = bindR (append_bytes (drop n data) (outputBuffer c))
      (\<lambda>b. conn_chan EnableWrite tid (l1, c\<lparr>outputBuffer := b\<rparr>))"
    by (simp add: send_rest_def rem rng rd new l1_def conn_queue_def Let_def)
  have app: "ends_in (\<lambda>b'. buf_ok b' \<and> content b' = out c @ drop n data) (append_bytes (drop n data) (outputBuffer c))"
    by (rule append_bytes_safe[OF ok(4)]) (use assms(3) in simp)
  show ?thesis unfolding eq
  proof (rule ends_in_bindR[OF app])
    fix b assume b: "buf_ok b \<and> content b = out c @ drop n data"
    let ?c = "c\<lparr>outputBuffer := b\<rparr>"
    from conn_chan_ok[of tid l1 ?c EnableWrite] l1 obtain ch l' where
      ch: "conn_chan EnableWrite tid (l1, ?c) = Inr (l', ?c\<lparr>chan := ch\<rparr>)" "isInLoopThread tid l'"
      "loop_sync [ch] l'" "events ch = new_events EnableWrite (events (chan c))" "pendingJobs l' = pendingJobs l1"
      "revents ch = revents (chan c)"
      by auto
    have "conn_ok tid (l', ?c\<lparr>chan := ch\<rparr>)"
      using ok(3,5-8) ok(11) assms(2,4) ch(2-5) b by (auto simp: conn_ok_def isWriting_bit bit_new_events l1_def)
    moreover have "isReading ch = isReading (chan c)" using ch(4) by (simp add: isReading_bit bit_new_events)
    moreover have "\<exists>ch' b'. ?c\<lparr>chan := ch\<rparr> = c\<lparr>chan := ch', outputBuffer := b'\<rparr>"
      by (intro exI[of _ ch] exI[of _ b]) simp
    ultimately show "ends_in (\<lambda>(l', c'). conn_ok tid (l', c') \<and> out c' = out c @ drop n data
       \<and> (\<exists>ch b. c' = c\<lparr>chan := ch, outputBuffer := b\<rparr>)
       \<and> isReading (chan c') = isReading (chan c) \<and> revents (chan c') = revents (chan c)
       \<and> pendingJobs l' = pendingJobs l @ (if highWaterMarkCb c \<and> length (out c) < highWaterMark c
             \<and> highWaterMark c \<le> length (out c') then [HighWater (length (out c'))] else []))
     (conn_chan EnableWrite tid (l1, ?c))"
      using ch(1,5,6) b assms(4) by (simp add: l1_def)
  qed
qed

text \<open>
  The functional specification of \<open>sendInLoop\<close>, as a relation between the states: data that the
  kernel does not take at once is appended to the output buffer; nothing is lost or reordered unless
  the direct \<open>write\<close> found the connection broken; \<open>WriteComplete\<close> is queued exactly when the kernel
  took everything at once, \<open>HighWater\<close> exactly when the buffered output crosses the mark.
\<close>

definition sent_effect :: "(nat \<Rightarrow> syswrite) \<Rightarrow> byte list \<Rightarrow> 'x conn_world \<Rightarrow> 'x conn_world \<Rightarrow> bool" where
  "sent_effect wr data w w' \<longleftrightarrow> (let c = snd w; c' = snd w'; r = wr (length data) in
     (\<exists>ch b xs. c' = c\<lparr>chan := ch, outputBuffer := b, wire := xs\<rparr>)
     \<and> isReading (chan c') = isReading (chan c) \<and> revents (chan c') = revents (chan c)
     \<and> wire c' @ out c' = wire c @ out c @ (if out c = [] \<and> broken r then [] else data)
     \<and> (out c \<noteq> [] \<longrightarrow> wire c' = wire c) \<and> (out c = [] \<longrightarrow> wire c' = wire c @ take (write_count r) data)
     \<and> pendingJobs (fst w') = pendingJobs (fst w)
         @ (if out c = [] \<and> r = WriteOk (length data) \<and> writeCompleteCb c then [WriteComplete] else [])
         @ (if highWaterMarkCb c \<and> length (out c) < highWaterMark c \<and> highWaterMark c \<le> length (out c')
            then [HighWater (length (out c'))] else []))"

lemma sendInLoop_ok:
  fixes c :: "'x tcpconn_scheme"
  assumes "conn_ok tid (l, c)" "live c" "wr_ok wr" "length data \<le> vec_max"
  shows "ends_in (\<lambda>w'. conn_ok tid w' \<and> sent_effect wr data (l, c) w') (sendInLoop tid wr data (l, c))"
proof -
  note ok = conn_okD[OF assms(1)]
  define n where "n = (if out c \<noteq> [] then 0 else write_count (wr (length data)))"
  let ?c1 = "c\<lparr>wire := wire c @ take n data\<rparr>"
  let ?fault = "out c = [] \<and> broken (wr (length data))"
  have n: "n \<le> length data" using send_direct_ok(1)[OF assms] by (simp add: n_def)
  from send_direct_ok(2)[OF assms] obtain l1 where
    l1: "send_direct tid wr data (l, c) = Inr (n, ?fault, l1, ?c1)" "conn_ok tid (l1, ?c1)"
    "pendingJobs l1 = pendingJobs l @ (if out c = [] \<and> wr (length data) = WriteOk (length data) \<and> writeCompleteCb c
       then [WriteComplete] else [])" unfolding n_def by blast
  have len: "length data < size_mod" using assms(4) vec_max_size_mod(2) by linarith
  have rem: "szsub (length data) n = length data - n" using n len by (simp add: szsub_exact)
  have "state c \<noteq> kDisconnected" using assms(2) by auto
  then have eq: "sendInLoop tid wr data (l, c) =
      (if \<not> ?fault \<and> n < length data then send_rest tid data n (l1, ?c1) else Inr (l1, ?c1))"
    using ok(1) l1(1) rem n by (simp add: sendInLoop_def)
  show ?thesis
  proof (cases "\<not> ?fault \<and> n < length data")
    case True
    have live1: "live ?c1" using assms(2) by simp
    have less: "n < length data" using True by simp
    have part: "\<not> (out c = [] \<and> wr (length data) = WriteOk (length data))"
      using less by (auto simp: n_def write_count_def)
    have "ends_in (\<lambda>w'. conn_ok tid w' \<and> sent_effect wr data (l, c) w') (send_rest tid data n (l1, ?c1))"
    proof (rule ends_in_mono[OF send_rest_ok[OF l1(2) live1 assms(4) less]])
      fix w' :: "'x conn_world"
      assume spec: "case w' of (l', c') \<Rightarrow> conn_ok tid (l', c') \<and> out c' = out ?c1 @ drop n data
         \<and> (\<exists>ch b. c' = ?c1\<lparr>chan := ch, outputBuffer := b\<rparr>) \<and> isReading (chan c') = isReading (chan ?c1)
         \<and> revents (chan c') = revents (chan ?c1)
         \<and> pendingJobs l' = pendingJobs l1 @ (if highWaterMarkCb ?c1 \<and> length (out ?c1) < highWaterMark ?c1
               \<and> highWaterMark ?c1 \<le> length (out c') then [HighWater (length (out c'))] else [])"
      then obtain l' ch b where w': "w' = (l', ?c1\<lparr>chan := ch, outputBuffer := b\<rparr>)" by (cases w') auto
      have o: "content b = out c @ drop n data" "isReading ch = isReading (chan c)" "revents ch = revents (chan c)"
        "pendingJobs l' = pendingJobs l1 @ (if highWaterMarkCb c \<and> length (out c) < highWaterMark c
           \<and> highWaterMark c \<le> length (content b) then [HighWater (length (content b))] else [])"
        using spec unfolding w' by simp_all
      have "\<exists>ch' b' xs. ?c1\<lparr>chan := ch, outputBuffer := b\<rparr> = c\<lparr>chan := ch', outputBuffer := b', wire := xs\<rparr>"
        by (intro exI[of _ ch] exI[of _ b] exI[of _ "wire c @ take n data"]) simp
      moreover have "wire c @ take n data @ out c @ drop n data
          = wire c @ out c @ (if ?fault then [] else data)" using True by (cases "out c = []") (auto simp: n_def)
      ultimately show "conn_ok tid w' \<and> sent_effect wr data (l, c) w'"
        using spec part unfolding w' by (simp add: sent_effect_def Let_def o l1(3) n_def)
    qed
    then show ?thesis using True eq by simp
  next
    case False
    then have eq': "sendInLoop tid wr data (l, c) = Inr (l1, ?c1)" using eq by (simp only: if_False)
    have fault0: "n = 0" if ?fault using that by (auto simp: n_def write_count_def broken_def)
    have "\<exists>ch' b' xs. ?c1 = c\<lparr>chan := ch', outputBuffer := b', wire := xs\<rparr>"
      by (intro exI[of _ "chan c"] exI[of _ "outputBuffer c"] exI[of _ "wire c @ take n data"]) simp
    moreover have "wire c @ take n data @ out c = wire c @ out c @ (if ?fault then [] else data)"
      using False fault0 n by (cases "out c = []") (auto simp: n_def)
    ultimately have "sent_effect wr data (l, c) (l1, ?c1)"
      using l1(3) by (auto simp: sent_effect_def Let_def n_def)
    then show ?thesis using eq' l1(2) by simp
  qed
qed


subsection \<open>Draining, shutting down, reading on and off\<close>

lemma handleWrite_ok:
  assumes "conn_ok tid (l, c)" "live c" "out c \<noteq> []" "wr_ok wr"
  defines "k \<equiv> write_count (wr (length (out c)))"
  shows "\<exists>l' ch b. TcpConnection_handleWrite tid wr (l, c) =
       Inr (l', c\<lparr>chan := ch, outputBuffer := b, wire := wire c @ take k (out c),
                 shutdownWr := (shutdownWr c \<or> content b = [] \<and> state c = kDisconnecting)\<rparr>)
     \<and> conn_ok tid (l', c\<lparr>chan := ch, outputBuffer := b, wire := wire c @ take k (out c),
                 shutdownWr := (shutdownWr c \<or> content b = [] \<and> state c = kDisconnecting)\<rparr>)
     \<and> content b = drop k (out c) \<and> isReading ch = isReading (chan c)
     \<and> pendingJobs l' = pendingJobs l @ (if content b = [] \<and> writeCompleteCb c then [WriteComplete] else [])"
proof -
  note ok = conn_okD[OF assms(1)]
  let ?b = "outputBuffer c"
  have rd: "readableBytes ?b = length (out c)" by (rule readable_content[OF ok(4)])
  have wr: "isWriting (chan c)" using ok(9)[OF assms(2)] assms(3) by simp
  have conn: "state c \<noteq> kDisconnected" using assms(2) by auto
  show ?thesis
  proof (cases "wr (length (out c))")
    case (WriteFail e)
    then have k: "k = 0" by (simp add: k_def write_count_def)
    have eq: "TcpConnection_handleWrite tid wr (l, c) = Inr (l, c)"
      using WriteFail rd wr conn assms(3) by (simp add: TcpConnection_handleWrite_def Let_def)
    have c: "c\<lparr>chan := chan c, outputBuffer := ?b, wire := wire c @ take k (out c),
        shutdownWr := (shutdownWr c \<or> content ?b = [] \<and> state c = kDisconnecting)\<rparr> = c"
      using assms(3) k by simp
    show ?thesis
      by (rule exI[of _ l], rule exI[of _ "chan c"], rule exI[of _ ?b], unfold c)
         (use eq assms(1,3) k in simp)
  next
    case (WriteOk n)
    then have n: "k = n" "n \<le> length (out c)" using assms(4) by (auto simp: k_def write_count_def wr_ok_def)
    from retrieve_ok[OF ok(4) n(2)] obtain b where
      b: "retrieve n ?b = Inr b" "buf_ok b" "content b = drop n (out c)" by blast
    have rdb: "readableBytes b = length (content b)" by (rule readable_content[OF b(2)])
    have took: "range_of (bytes ?b) (peek ?b) n = take n (out c)"
      using range_content[OF ok(4) n(2)] by (simp add: peek_def)
    let ?c1 = "c\<lparr>outputBuffer := b, wire := wire c @ take n (out c)\<rparr>"
    show ?thesis
    proof (cases "content b = []")
      case False
      have "TcpConnection_handleWrite tid wr (l, c) = Inr (l, ?c1)"
        using WriteOk rd wr conn assms(3) b(1) rdb took False by (simp add: TcpConnection_handleWrite_def Let_def)
      moreover have "conn_ok tid (l, ?c1)"
        using ok(1-3,5-8) ok(11) b(2) wr False assms(2) by (auto simp: conn_ok_def)
      ultimately show ?thesis using n b(3) False
        by (intro exI[of _ l] exI[of _ "chan c"] exI[of _ b]) simp
    next
      case True
      have ev: "\<not> (events (chan ?c1) = 0 \<and> DisableWrite \<in> {DisableRead, DisableWrite, DisableAll})"
        using nonzero_bit[OF ok(8)[OF assms(2)]] by simp
      have "isInLoopThread tid l" "loop_sync [chan ?c1] l" using ok(1,2) by simp_all
      from conn_chan_ok[OF this ev] obtain ch l2 where
        ch: "conn_chan DisableWrite tid (l, ?c1) = Inr (l2, ?c1\<lparr>chan := ch\<rparr>)" "isInLoopThread tid l2"
        "loop_sync [ch] l2" "events ch = new_events DisableWrite (events (chan c))" "pendingJobs l2 = pendingJobs l" by auto
      have comm: "c\<lparr>wire := xs, outputBuffer := b\<rparr> = c\<lparr>outputBuffer := b, wire := xs\<rparr>" for xs by simp
      have ch1: "conn_chan DisableWrite tid (l, c\<lparr>wire := wire c @ take n (out c), outputBuffer := b\<rparr>) =
          Inr (l2, ?c1\<lparr>chan := ch\<rparr>)" by (subst comm) (rule ch(1))
      have nw: "\<not> isWriting ch" using ch(4) by (simp add: isWriting_bit bit_new_events)
      let ?c3 = "c\<lparr>chan := ch, outputBuffer := b, wire := wire c @ take k (out c),
                 shutdownWr := (shutdownWr c \<or> content b = [] \<and> state c = kDisconnecting)\<rparr>"
      have sh: "(if state c = kDisconnecting then shutdownInLoop tid (l2, ?c1\<lparr>chan := ch\<rparr>)
                 else Inr (l2, ?c1\<lparr>chan := ch\<rparr>)) = Inr (l2, ?c3)"
        using ch(2) nw True n(1) by (simp add: shutdownInLoop_def)
      have eq: "TcpConnection_handleWrite tid wr (l, c) =
          Inr (if writeCompleteCb c then conn_queue tid WriteComplete (l2, ?c3) else (l2, ?c3))"
        using WriteOk rd wr conn assms(3) b(1) rdb took True ch1 sh
        by (simp add: TcpConnection_handleWrite_def Let_def cong: if_cong)
      have "conn_ok tid (l2, ?c3)"
        using ok(3,5-8) ok(11) b(2) nw True assms(2) ch(2-5) by (auto simp: conn_ok_def bit_new_events)
      moreover have "isReading ch = isReading (chan c)" using ch(4) by (simp add: isReading_bit bit_new_events)
      ultimately show ?thesis using eq ch(5) n b(3) True
        by (intro exI[of _ "fst (if writeCompleteCb c then conn_queue tid WriteComplete (l2, ?c3) else (l2, ?c3))"]
              exI[of _ ch] exI[of _ b])
           (simp add: conn_queue_def conn_ok_def isInLoopThread_def)
    qed
  qed
qed

lemma shutdownInLoop_ok:
  assumes "conn_ok tid (l, c)"
  shows "shutdownInLoop tid (l, c) = Inr (l, c\<lparr>shutdownWr := (shutdownWr c \<or> live c \<and> out c = [])\<rparr>)"
    "conn_ok tid (l, c\<lparr>shutdownWr := (shutdownWr c \<or> live c \<and> out c = [])\<rparr>)"
  using assms live_cases[of c] by (auto simp: shutdownInLoop_def conn_ok_def)

lemma conn_ok_disconnecting:
  "conn_ok tid (l, c) \<Longrightarrow> live c \<Longrightarrow> conn_ok tid (l, c\<lparr>state := kDisconnecting\<rparr>)"
  by (auto simp: conn_ok_def)

lemma stop_read_ok:
  assumes "conn_ok tid (l, c)"
  shows "\<exists>l' ch. stop_read_task tid (l, c) = Inr (l', c\<lparr>chan := ch\<rparr>) \<and> conn_ok tid (l', c\<lparr>chan := ch\<rparr>)
     \<and> \<not> isReading ch \<and> pendingJobs l' = pendingJobs l \<and> revents ch = revents (chan c)
     \<and> isWriting ch = isWriting (chan c)"
proof (cases "isReading (chan c)")
  case False
  then show ?thesis using assms by (intro exI[of _ l] exI[of _ "chan c"]) (simp add: stop_read_task_def)
next
  case True
  note ok = conn_okD[OF assms]
  have "events (chan c) \<noteq> 0" using True by (auto simp: isReading_bit)
  with conn_chan_ok[OF ok(1,2), of DisableRead] obtain ch l' where
    ch: "conn_chan DisableRead tid (l, c) = Inr (l', c\<lparr>chan := ch\<rparr>)" "isInLoopThread tid l'" "loop_sync [ch] l'"
    "events ch = new_events DisableRead (events (chan c))" "pendingJobs l' = pendingJobs l"
    "revents ch = revents (chan c)" by auto
  then show ?thesis using True ok
    by (intro exI[of _ l'] exI[of _ ch])
       (simp add: stop_read_task_def conn_ok_def isReading_bit isWriting_bit bit_new_events)
qed

lemma start_read_ok:
  assumes "conn_ok tid (l, c)"
  shows "\<exists>l' ch. start_read_task tid (l, c) = Inr (l', c\<lparr>chan := ch\<rparr>) \<and> conn_ok tid (l', c\<lparr>chan := ch\<rparr>)
     \<and> isReading ch \<and> pendingJobs l' = pendingJobs l \<and> revents ch = revents (chan c)
     \<and> isWriting ch = isWriting (chan c)"
proof (cases "isReading (chan c)")
  case True
  then show ?thesis using assms by (intro exI[of _ l] exI[of _ "chan c"]) (simp add: start_read_task_def)
next
  case False
  note ok = conn_okD[OF assms]
  from conn_chan_ok[OF ok(1,2), of EnableRead] obtain ch l' where
    ch: "conn_chan EnableRead tid (l, c) = Inr (l', c\<lparr>chan := ch\<rparr>)" "isInLoopThread tid l'" "loop_sync [ch] l'"
    "events ch = new_events EnableRead (events (chan c))" "pendingJobs l' = pendingJobs l"
    "revents ch = revents (chan c)" by auto
  then show ?thesis using False ok
    by (intro exI[of _ l'] exI[of _ ch])
       (simp add: start_read_task_def conn_ok_def isReading_bit isWriting_bit bit_new_events)
qed

lemma connectEstablished_ok:
  assumes "isInLoopThread tid l" "loop_sync [chan c] l" "buf_ok (inputBuffer c)" "buf_ok (outputBuffer c)"
    and "state c = kConnecting" "out c = []" "messageCb c" "closeCb c" "\<not> isWriting (chan c)"
    and "\<forall>data. SendInLoop data \<in> set (pendingJobs l) \<longrightarrow> length data \<le> vec_max"
  shows "\<exists>l' ch. connectEstablished tid (l, c) = Inr (l', c\<lparr>state := kConnected, chan := ch\<rparr>)
     \<and> conn_ok tid (l', c\<lparr>state := kConnected, chan := ch\<rparr>) \<and> isReading ch \<and> pendingJobs l' = pendingJobs l"
proof -
  let ?c = "c\<lparr>state := kConnected, chan := Channel_tie (chan c)\<rparr>"
  have "loop_sync [chan ?c] l" using assms(2) by (simp add: loop_sync_def chan_sync_def Channel_tie_def)
  from conn_chan_ok[OF assms(1) this, of EnableRead] obtain ch l' where
    ch: "conn_chan EnableRead tid (l, ?c) = Inr (l', ?c\<lparr>chan := ch\<rparr>)" "isInLoopThread tid l'" "loop_sync [ch] l'"
    "events ch = new_events EnableRead (events (chan ?c))" "pendingJobs l' = pendingJobs l" by auto
  have ev: "events (chan ?c) = events (chan c)" by (simp add: Channel_tie_def)
  have "conn_ok tid (l', c\<lparr>state := kConnected, chan := ch\<rparr>)" "isReading ch"
    using ch(2-5) assms(3-10) ev by (simp_all add: conn_ok_def isReading_bit isWriting_bit bit_new_events)
  then show ?thesis using ch(1,5) assms(5)
    by (intro exI[of _ l'] exI[of _ ch]) (simp add: connectEstablished_def)
qed


lemma sent_effect_keeps:
  assumes "conn_ok tid w" "conn_ok tid w'" "live (snd w)" "sent_effect wr data w w'"
  shows "state (snd w') = state (snd w)" "revents (chan (snd w')) = revents (chan (snd w))"
    "isReading (chan (snd w')) = isReading (chan (snd w))" "writeCompleteCb (snd w') = writeCompleteCb (snd w)"
    "isWriting (chan (snd w)) \<Longrightarrow> isWriting (chan (snd w'))"
    "out (snd w') = [] \<Longrightarrow> out (snd w) = []"
    "\<exists>new. pendingJobs (fst w') = pendingJobs (fst w) @ new \<and> StopRead \<notin> set new
       \<and> (\<forall>n. HighWater n \<in> set new \<longrightarrow> out (snd w') \<noteq> [])"
proof -
  obtain ch b xs where c': "snd w' = (snd w)\<lparr>chan := ch, outputBuffer := b, wire := xs\<rparr>"
    using assms(4) by (auto simp: sent_effect_def Let_def)
  then show st: "state (snd w') = state (snd w)" "writeCompleteCb (snd w') = writeCompleteCb (snd w)" by simp_all
  have wo: "wire (snd w') @ out (snd w') = wire (snd w) @ out (snd w)
      @ (if out (snd w) = [] \<and> broken (wr (length data)) then [] else data)"
    "out (snd w) \<noteq> [] \<longrightarrow> wire (snd w') = wire (snd w)"
    using assms(4) unfolding sent_effect_def Let_def by blast+
  then have grow: "out (snd w) \<noteq> [] \<Longrightarrow> out (snd w') \<noteq> []" by auto
  then show "out (snd w') = [] \<Longrightarrow> out (snd w) = []" by auto
  have "isWriting (chan (snd w)) = (out (snd w) \<noteq> [])" "isWriting (chan (snd w')) = (out (snd w') \<noteq> [])"
    using assms(1-3) st(1) by (auto simp: conn_ok_def)
  then show "isWriting (chan (snd w)) \<Longrightarrow> isWriting (chan (snd w'))" using grow by simp
  show "revents (chan (snd w')) = revents (chan (snd w))" "isReading (chan (snd w')) = isReading (chan (snd w))"
    using assms(4) unfolding sent_effect_def Let_def by blast+
  have pj: "pendingJobs (fst w') = pendingJobs (fst w)
      @ (if out (snd w) = [] \<and> wr (length data) = WriteOk (length data) \<and> writeCompleteCb (snd w) then [WriteComplete] else [])
      @ (if highWaterMarkCb (snd w) \<and> length (out (snd w)) < highWaterMark (snd w)
            \<and> highWaterMark (snd w) \<le> length (out (snd w')) then [HighWater (length (out (snd w')))] else [])"
    using assms(4) unfolding sent_effect_def Let_def by blast
  show "\<exists>new. pendingJobs (fst w') = pendingJobs (fst w) @ new \<and> StopRead \<notin> set new
       \<and> (\<forall>n. HighWater n \<in> set new \<longrightarrow> out (snd w') \<noteq> [])"
    by (rule exI, rule conjI, rule pj) auto
qed

end
