(* ===== verification/Conn_Client.thy ===== *)
theory Conn_Client
  imports Conn_Invariant
begin

text \<open>
  A connection together with the user's callbacks. The locale \<open>conn_client\<close> is the contract between
  them: called in the loop's thread on a well-formed connection, a callback returns (or a buffer
  grew beyond its maximal size) with a well-formed connection, does not bring a closed connection
  back, does not stop the writing of a live one, and leaves the reported events alone. Under it
  no handler and no task of the connection fails an assertion, whatever the kernel reports.
\<close>

definition cb_frame :: "'x conn_world \<Rightarrow> 'x conn_world \<Rightarrow> bool" where
  "cb_frame w w' \<longleftrightarrow> revents (chan (snd w')) = revents (chan (snd w))
     \<and> (state (snd w) = kDisconnected \<longrightarrow> state (snd w') = kDisconnected)
     \<and> (isWriting (chan (snd w)) \<and> live (snd w') \<longrightarrow> isWriting (chan (snd w')))"

lemma cb_frame_refl [simp]: "cb_frame w w"
  by (simp add: cb_frame_def)

text \<open>The three ways in which \<open>handleRead\<close> ends.\<close>

lemma handleRead_cases:
  assumes "TcpConnection_handleRead user tid rd (l, c) = Inr w'" "conn_ok tid (l, c)" "rd_ok rd"
  shows "\<exists>b. buf_ok b \<and> (w' = (l, c\<lparr>inputBuffer := b\<rparr>) \<or> handleClose user tid (l, c\<lparr>inputBuffer := b\<rparr>) = Inr w'
     \<or> on_message user (l, c\<lparr>inputBuffer := b\<rparr>) = Inr w')"
proof -
  have rd: "length bs \<le> n" if "rd n = ReadOk bs" for n bs using assms(3) that by (auto simp: rd_ok_def)
  obtain n b e where r: "readFd rd (inputBuffer c) = Inr (n, b, e)"
    "(let w1 = (l, c\<lparr>inputBuffer := b\<rparr>) in if n = -1 then handleError w1
      else if n = 0 then handleClose user tid w1
      else if messageCb (snd w1) then on_message user w1 else Inl BadFunctionCall) = Inr w'"
    using assms(1) conn_okD(1)[OF assms(2)]
    by (auto simp: TcpConnection_handleRead_def assertR_Inr_iff bindR_Inr_iff)
  have "buf_ok b" using ends_in_Inr[OF readFd_safe[where readv = rd, OF conn_okD(3)[OF assms(2)] rd] r(1)] by simp
  then show ?thesis using r(2) by (intro exI[of _ b]) (auto simp: Let_def handleError_def split: if_splits)
qed

lemma conn_ok_pop: "conn_ok tid (l, c) \<Longrightarrow> pendingJobs l = t # ts \<Longrightarrow> conn_ok tid (l\<lparr>pendingJobs := ts\<rparr>, c)"
  by (auto simp: conn_ok_def loop_sync_def isInLoopThread_def)

text \<open>\<open>handleClose\<close> up to the close callback, for any user.\<close>

lemma handleClose_exact:
  assumes "conn_ok tid (l, c)" "live c"
  shows "\<exists>l' p. (\<forall>user. handleClose user tid (l, c) =
         on_close user (l', c\<lparr>state := kDisconnected, chan := (chan c)\<lparr>events := 0, polling := p\<rparr>\<rparr>))
     \<and> conn_ok tid (l', c\<lparr>state := kDisconnected, chan := (chan c)\<lparr>events := 0, polling := p\<rparr>\<rparr>)
     \<and> pendingJobs l' = pendingJobs l"
proof -
  note ok = conn_okD[OF assms(1)]
  have ev: "\<not> (events (chan c) = 0 \<and> DisableAll \<in> {DisableRead, DisableWrite, DisableAll})"
    using nonzero_bit[OF ok(8)[OF assms(2)]] by simp
  from chan_do_sync[of tid l "[chan c]" 0 DisableAll] ok(1,2) ev obtain ch l' where
    ch: "chan_do DisableAll tid (chan c) l = Inr (ch, l')" "loop_sync [ch] l'" "threadId l' = threadId l" by auto
  note fr = chan_do_frame[OF ch(1)]
  define p where "p = polling ch"
  have chp: "ch = (chan c)\<lparr>events := 0, polling := p\<rparr>"
    using fr(5) by (simp add: p_def new_events.simps)
  let ?c' = "c\<lparr>state := kDisconnected, chan := (chan c)\<lparr>events := 0, polling := p\<rparr>\<rparr>"
  have "\<forall>user. handleClose user tid (l, c) = on_close user (l', ?c')"
    using ok(1,7) assms(2) ch(1) chp by (auto simp: handleClose_def EventLoop_removeChannel_def Let_def)
  moreover have "conn_ok tid (l', ?c')"
    using ok(1,3,4,6,7) ok(11) ch(2,3) fr(1) chp by (simp add: conn_ok_def isInLoopThread_def isWriting_bit)
  ultimately show ?thesis using fr(1) by blast
qed

text \<open>
  A round of the loop for a connection: the events \<open>m\<close>, if \<open>epoll_wait\<close> can report them, and the
  pending tasks. For a live connection it reports writability only when it is asked for; the case of a
  hang-up without readable data but with urgent data is left out.
\<close>

definition reportable :: "mask \<Rightarrow> 'x tcpconn_scheme \<Rightarrow> bool" where
  "reportable m c \<longleftrightarrow> live c \<and> (wants_write m \<longrightarrow> isWriting (chan c)) \<and> \<not> (wants_close m \<and> wants_read m)"

definition conn_round :: "'x conn_user \<Rightarrow> nat \<Rightarrow> mask \<Rightarrow> conn_io \<Rightarrow> 'x conn_world \<Rightarrow> 'x conn_world result" where
  "conn_round user tid m io w =
     bindR (if reportable m (snd w)
            then conn_handleEvents user tid io (fst w, (snd w)\<lparr>chan := setRevents m (chan (snd w))\<rparr>)
            else Inr w)
       (doPendingJobs tid (run_conn_task user tid io))"

locale conn_client =
  fixes user :: "'x conn_user" and tid :: nat
  assumes message_ok: "conn_ok tid w \<Longrightarrow> live (snd w) \<Longrightarrow>
      ends_in (\<lambda>w'. conn_ok tid w' \<and> cb_frame w w') (on_message user w)"
    and writeComplete_ok: "conn_ok tid w \<Longrightarrow>
      ends_in (\<lambda>w'. conn_ok tid w' \<and> cb_frame w w') (on_writeComplete user w)"
    and highWater_ok: "conn_ok tid w \<Longrightarrow>
      ends_in (\<lambda>w'. conn_ok tid w' \<and> cb_frame w w') (on_highWater user n w)"
    and close_ok: "conn_ok tid w \<Longrightarrow> state (snd w) = kDisconnected \<Longrightarrow>
      ends_in (\<lambda>w'. conn_ok tid w' \<and> cb_frame w w') (on_close user w)"
begin

lemma handleClose_ok:
  assumes "conn_ok tid (l, c)" "live c"
  shows "ends_in (\<lambda>w'. conn_ok tid w' \<and> state (snd w') = kDisconnected
      \<and> revents (chan (snd w')) = revents (chan c)) (handleClose user tid (l, c))"
proof -
  from handleClose_exact[OF assms] obtain l' p where
    eq: "handleClose user tid (l, c) = on_close user (l', c\<lparr>state := kDisconnected, chan := (chan c)\<lparr>events := 0, polling := p\<rparr>\<rparr>)"
    and ok1: "conn_ok tid (l', c\<lparr>state := kDisconnected, chan := (chan c)\<lparr>events := 0, polling := p\<rparr>\<rparr>)" by blast
  show ?thesis unfolding eq by (rule ends_in_mono[OF close_ok[OF ok1]]) (auto simp: cb_frame_def)
qed

lemma handleRead_ok:
  assumes "conn_ok tid (l, c)" "live c" "rd_ok rd"
  shows "ends_in (\<lambda>w'. conn_ok tid w' \<and> cb_frame (l, c) w') (TcpConnection_handleRead user tid rd (l, c))"
proof -
  note ok = conn_okD[OF assms(1)]
  have rd: "length bs \<le> n" if "rd n = ReadOk bs" for n bs using assms(3) that by (auto simp: rd_ok_def)
  have conn: "state c \<noteq> kDisconnected" using assms(2) by auto
  have eq: "TcpConnection_handleRead user tid rd (l, c) = bindR (readFd rd (inputBuffer c)) (\<lambda>(n, b, savedErrno).
      let w1 = (l, c\<lparr>inputBuffer := b\<rparr>) in if n = -1 then handleError w1
      else if n = 0 then handleClose user tid w1
      else if messageCb (snd w1) then on_message user w1 else Inl BadFunctionCall)"
    using ok(1) conn by (simp add: TcpConnection_handleRead_def)
  show ?thesis unfolding eq
  proof (rule ends_in_bindR[OF readFd_safe[where readv = rd, OF ok(3) rd]])
    fix x :: "int \<times> buffer \<times> int option"
    assume x: "case x of (n, b', e) \<Rightarrow> buf_ok b' \<and> (n = -1 \<and> b' = inputBuffer c
        \<or> (\<exists>bs. n = int (length bs) \<and> content b' = content (inputBuffer c) @ bs))"
    obtain n b e where xe: "x = (n, b, e)" by (cases x)
    let ?w = "(l, c\<lparr>inputBuffer := b\<rparr>)"
    have ok1: "conn_ok tid ?w" using assms(1) x xe by (simp add: conn_ok_def)
    have live1: "live (snd ?w)" using assms(2) by simp
    have "ends_in (\<lambda>w'. conn_ok tid w' \<and> cb_frame (l, c) w') (handleClose user tid ?w)"
      by (rule ends_in_mono[OF handleClose_ok]) (use ok1 live1 conn in \<open>auto simp: cb_frame_def\<close>)
    moreover have "ends_in (\<lambda>w'. conn_ok tid w' \<and> cb_frame (l, c) w') (on_message user ?w)"
      by (rule ends_in_mono[OF message_ok[OF ok1 live1]]) (auto simp: cb_frame_def)
    moreover have "cb_frame (l, c) ?w" by (simp add: cb_frame_def)
    ultimately show "ends_in (\<lambda>w'. conn_ok tid w' \<and> cb_frame (l, c) w')
      (case x of (n, b, savedErrno) \<Rightarrow> let w1 = (l, c\<lparr>inputBuffer := b\<rparr>) in if n = -1 then handleError w1
        else if n = 0 then handleClose user tid w1
        else if messageCb (snd w1) then on_message user w1 else Inl BadFunctionCall)"
      using ok1 ok(6) by (simp add: xe handleError_def Let_def)
  qed
qed

text \<open>A task of the connection, taken from the pending jobs.\<close>

lemma task_ok:
  assumes "conn_ok tid w" "io_ok io" "\<And>data. t = SendInLoop data \<Longrightarrow> length data \<le> vec_max"
  shows "ends_in (conn_ok tid) (run_conn_task user tid io t w)"
proof -
  obtain l c where w: "w = (l, c)" by (cases w)
  note ok = conn_okD[OF assms(1)[unfolded w]]
  have wr: "wr_ok (io_write io)" using assms(2) by (simp add: io_ok_def)
  have mono: "ends_in (\<lambda>w'. conn_ok tid w' \<and> P w') r \<Longrightarrow> ends_in (conn_ok tid) r" for P and r :: "'x conn_world result"
    by (erule ends_in_mono) simp
  show ?thesis
  proof (cases t)
    case (SendInLoop data)
    show ?thesis
    proof (cases "state c = kDisconnected")
      case True
      then show ?thesis using SendInLoop assms(1) ok(1) by (simp add: w sendInLoop_def)
    next
      case False
      have "ends_in (conn_ok tid) (sendInLoop tid (io_write io) data (l, c))"
        by (rule mono[OF sendInLoop_ok[OF _ live_cases wr]])
           (use assms(1,3) w SendInLoop ok(5) False in auto)
      then show ?thesis using SendInLoop by (simp add: w)
    qed
  next
    case WriteComplete
    then show ?thesis using mono[OF writeComplete_ok[OF assms(1)]] by simp
  next
    case (HighWater n)
    then show ?thesis using mono[OF highWater_ok[OF assms(1)]] by simp
  next
    case ShutdownInLoop
    then show ?thesis using shutdownInLoop_ok[OF assms(1)[unfolded w]] by (simp add: w)
  next
    case ForceCloseInLoop
    have "ends_in (conn_ok tid) (handleClose user tid (l, c))" if "state c \<noteq> kDisconnected"
      by (rule mono[OF handleClose_ok]) (use assms(1) w live_cases[OF ok(5) that] in auto)
    then show ?thesis using ForceCloseInLoop assms(1) ok(1) by (simp add: w forceCloseInLoop_def)
  next
    case StopRead
    then show ?thesis using stop_read_ok[OF assms(1)[unfolded w]] by (auto simp: w)
  next
    case StartRead
    then show ?thesis using start_read_ok[OF assms(1)[unfolded w]] by (auto simp: w)
  qed
qed

lemma pending_ok:
  assumes "conn_ok tid w" "io_ok io"
  shows "ends_in (conn_ok tid) (doPendingJobs tid (run_conn_task user tid io) w)"
proof -
  obtain l c where w: "w = (l, c)" by (cases w)
  note ok = conn_okD[OF assms(1)[unfolded w]]
  let ?w1 = "(l\<lparr>pendingJobs := [], doingPendingJobs := True\<rparr>, c)"
  have "loop_sync [chan c] (l\<lparr>pendingJobs := [], doingPendingJobs := True\<rparr>)"
    using ok(2) by (simp add: loop_sync_def)
  then have ok1: "conn_ok tid ?w1" using assms(1) by (simp add: w conn_ok_def isInLoopThread_def)
  have t: "ends_in (conn_ok tid) (run_conn_task user tid io x s)"
    if "x \<in> set (pendingJobs l)" "conn_ok tid s" for x s
    by (rule task_ok[OF that(2) assms(2)]) (use ok(11) that(1) in blast)
  have "ends_in (conn_ok tid) (foldR (run_conn_task user tid io) (pendingJobs l) ?w1)"
    by (rule ends_in_foldR[where P = "conn_ok tid", OF t ok1])
  moreover have "conn_ok tid ((fst w2)\<lparr>doingPendingJobs := False\<rparr>, snd w2)" if "conn_ok tid w2" for w2 :: "'x conn_world"
    using that by (simp add: conn_ok_def loop_sync_def isInLoopThread_def)
  ultimately show ?thesis using ok(1)
    by (auto simp: w doPendingJobs_def Let_def intro!: ends_in_bindR)
qed

text \<open>
  The dispatch of reported events. \<open>reported m c\<close>: what \<open>epoll_wait\<close> can report for the connection's
  channel, namely writability only when it was asked for; and the case is left out in which the
  peer hung up, nothing can be read, and yet urgent data or a half close is reported.
\<close>

lemma handleEvents_ok:
  assumes "conn_ok tid (l, c)" "io_ok io"
    and "wants_write (revents (chan c)) \<longrightarrow> isWriting (chan c)"
    and "wants_read (revents (chan c)) \<or> wants_close (revents (chan c)) \<longrightarrow> live c"
    and "\<not> (wants_close (revents (chan c)) \<and> wants_read (revents (chan c)))"
  shows "ends_in (conn_ok tid) (conn_handleEvents user tid io (l, c))"
proof -
  define m where "m = revents (chan c)"
  define getc :: "'x conn_world \<Rightarrow> channel option" where "getc = (\<lambda>w. Some (chan (snd w)))"
  let ?upd = "\<lambda>f w. (fst w, (snd w)\<lparr>chan := f (chan (snd w))\<rparr>)"
  let ?cb = "conn_event user tid io"
  define I where "I w \<longleftrightarrow> conn_ok tid w \<and> revents (chan (snd w)) = m
      \<and> (wants_write m \<and> live (snd w) \<longrightarrow> isWriting (chan (snd w)))" for w :: "'x conn_world"
  have call: "ends_in P (call_if g k getc ?cb w)"
    if "revents (chan (snd w)) = m" "g m \<Longrightarrow> ends_in P (?cb k w)" "P w" for g k w and P :: "'x conn_world \<Rightarrow> bool"
    using that by (simp add: call_if_def with_chan_def getc_def)
  have flag: "\<And>b (w :: 'x conn_world). conn_ok tid (?upd (\<lambda>ch. ch\<lparr>handlingEvents := b\<rparr>) w) = conn_ok tid w"
    by (simp add: conn_ok_def loop_sync_def chan_sync_def isWriting_def)
  let ?w0 = "?upd (\<lambda>ch. ch\<lparr>handlingEvents := True\<rparr>) (l, c)"
  have I0: "I ?w0" using assms(1,3) flag[of "(l, c)" True] by (simp add: I_def m_def isWriting_def)
  have live0: "wants_read m \<or> wants_close m \<longrightarrow> live (snd ?w0)" using assms(4) by (simp add: m_def)
  have close: "ends_in (\<lambda>w. I w \<and> (wants_read m \<longrightarrow> live (snd w))) (call_if wants_close CloseCb getc ?cb ?w0)"
  proof (rule call)
    show "revents (chan (snd ?w0)) = m" by (simp add: m_def)
    show "I ?w0 \<and> (wants_read m \<longrightarrow> live (snd ?w0))" using I0 live0 by blast
    assume wc: "wants_close m"
    have "conn_ok tid (fst ?w0, snd ?w0)" "live (snd ?w0)" using I0 live0 wc by (simp_all add: I_def)
    from handleClose_ok[OF this] show "ends_in (\<lambda>w. I w \<and> (wants_read m \<longrightarrow> live (snd w))) (?cb CloseCb ?w0)"
      using wc assms(5) by (auto simp: I_def m_def elim!: ends_in_mono)
  qed
  have error: "ends_in (\<lambda>w. I w \<and> (wants_read m \<longrightarrow> live (snd w))) (call_if wants_error ErrorCb getc ?cb w1)"
    if "I w1 \<and> (wants_read m \<longrightarrow> live (snd w1))" for w1
    by (rule call) (use that in \<open>simp_all add: I_def handleError_def\<close>)
  have read: "ends_in I (call_if wants_read ReadCb getc ?cb w1)"
    if "I w1 \<and> (wants_read m \<longrightarrow> live (snd w1))" for w1
  proof (rule call)
    show "revents (chan (snd w1)) = m" "I w1" using that by (simp_all add: I_def)
    assume "wants_read m"
    then have r: "conn_ok tid (fst w1, snd w1)" "live (snd w1)" using that by (simp_all add: I_def)
    from handleRead_ok[OF r, of "io_read io"] assms(2)
    show "ends_in I (?cb ReadCb w1)" using that r(2)
      by (auto simp: I_def io_ok_def cb_frame_def elim!: ends_in_mono)
  qed
  have wrt: "ends_in (conn_ok tid) (call_if wants_write WriteCb getc ?cb w1)" if "I w1" for w1
  proof (rule call)
    show "revents (chan (snd w1)) = m" "conn_ok tid w1" using that by (simp_all add: I_def)
    assume ww: "wants_write m"
    obtain l1 c1 where w1: "w1 = (l1, c1)" by (cases w1)
    have ok1: "conn_ok tid (l1, c1)" using that w1 by (simp add: I_def)
    have wr: "wr_ok (io_write io)" using assms(2) by (simp add: io_ok_def)
    show "ends_in (conn_ok tid) (?cb WriteCb w1)"
    proof (cases "state c1 = kDisconnected")
      case True
      then show ?thesis using ok1 by (simp add: w1 TcpConnection_handleWrite_def Let_def)
    next
      case False
      have live1: "live c1" by (rule live_cases[OF conn_okD(5)[OF ok1] False])
      have "out c1 \<noteq> []" using conn_okD(9)[OF ok1 live1] that ww live1 by (simp add: I_def w1)
      from handleWrite_ok[OF ok1 live1 this wr] show ?thesis by (auto simp: w1)
    qed
  qed
  have wc: "with_chan getc w k = k (chan (snd w))" for w and k :: "channel \<Rightarrow> 'x conn_world result"
    by (simp add: with_chan_def getc_def)
  have "ends_in (conn_ok tid) (handleEventsWithGuard getc ?upd ?cb (l, c))"
    unfolding handleEventsWithGuard_def wc
  proof (rule ends_in_bindR[OF close])
    fix w1 :: "'x conn_world"
    assume w1: "I w1 \<and> (wants_read m \<longrightarrow> live (snd w1))"
    show "ends_in (conn_ok tid) (bindR (call_if wants_error ErrorCb getc ?cb w1) (\<lambda>w2.
        bindR (call_if wants_read ReadCb getc ?cb w2) (\<lambda>w3.
        bindR (call_if wants_write WriteCb getc ?cb w3) (\<lambda>w4.
        Inr (?upd (\<lambda>ch. ch\<lparr>handlingEvents := False\<rparr>) w4)))))"
      by (rule ends_in_bindR[OF error[OF w1]], erule ends_in_bindR[OF read], erule ends_in_bindR[OF wrt])
         (simp add: flag del: prod.collapse)
  qed
  then show ?thesis using conn_okD(1)[OF assms(1)] by (simp add: conn_handleEvents_def getc_def)
qed

lemma round_ok:
  assumes "conn_ok tid w" "io_ok io"
  shows "ends_in (conn_ok tid) (conn_round user tid m io w)"
proof -
  obtain l c where w: "w = (l, c)" by (cases w)
  let ?c = "c\<lparr>chan := setRevents m (chan c)\<rparr>"
  have ok: "conn_ok tid (l, ?c)"
    using assms(1) by (simp add: w conn_ok_def loop_sync_def chan_sync_def isWriting_def setRevents_def)
  have "ends_in (conn_ok tid) (conn_handleEvents user tid io (l, ?c))" if "reportable m c"
    using handleEvents_ok[of l ?c io] ok assms(2) that by (simp add: reportable_def setRevents_def isWriting_def)
  then have "ends_in (conn_ok tid) (if reportable m c then conn_handleEvents user tid io (l, ?c) else Inr (l, c))"
    using assms(1) w by simp
  then show ?thesis unfolding conn_round_def w fst_conv snd_conv
    by (rule ends_in_bindR) (rule pending_ok[OF _ assms(2)])
qed

end

end
