(* ===== verification/Echo_Server.thy ===== *)
theory Echo_Server
  imports Conn_Client Timer Steps
begin

text \<open>
  \<open>examples/EchoServer.cc\<close>, the callbacks of the echo server, as a client of a connection: what
  arrives is sent back; when the buffered output reaches 1024 bytes the server stops reading, and it
  reads again when everything is written; an idle connection is closed after the timeout. The
  server's map \<open>connections_\<close> from connections to expiry times appears per connection as \<open>expiry\<close>
  (\<open>None\<close> when the connection is not in the map). The contract of \<open>conn_client\<close> is discharged.
\<close>

record echo_conn = tcpconn +
  expiry :: "timestamp option"

type_synonym echo_world = "conn_task eventloop \<times> echo_conn"

definition expireAfter :: "timestamp \<Rightarrow> int \<Rightarrow> echo_world \<Rightarrow> echo_world" where
  "expireAfter now interval w = (fst w, (snd w)\<lparr>expiry := Some (nowAfter now interval)\<rparr>)"

definition echo_onConnection :: "int \<Rightarrow> timestamp \<Rightarrow> echo_world \<Rightarrow> echo_world result" where
  "echo_onConnection timeout now w =
     Inr (if TcpConnection_connected (snd w)
          then expireAfter now timeout (fst w, setHighWaterMarkCallback True 1024 (snd w))
          else (fst w, (snd w)\<lparr>expiry := None\<rparr>))"

definition echo_onMessage :: "nat \<Rightarrow> conn_io \<Rightarrow> int \<Rightarrow> timestamp \<Rightarrow> echo_world \<Rightarrow> echo_world result" where
  "echo_onMessage tid io timeout now w =
     bindR (TcpConnection_send_buffer tid (io_write io) (inputBuffer (snd w)) w) (\<lambda>(b, w1).
       Inr (expireAfter now timeout (fst w1, (snd w1)\<lparr>inputBuffer := b\<rparr>)))"

definition echo_onWriteComplete :: "nat \<Rightarrow> int \<Rightarrow> timestamp \<Rightarrow> echo_world \<Rightarrow> echo_world result" where
  "echo_onWriteComplete tid timeout now w =
     (if \<not> TcpConnection_isReading (snd w)
      then bindR (TcpConnection_startRead tid w) (\<lambda>w1. Inr (expireAfter now timeout w1))
      else Inr w)"

definition echo_onHighWaterMark :: "nat \<Rightarrow> int \<Rightarrow> timestamp \<Rightarrow> nat \<Rightarrow> echo_world \<Rightarrow> echo_world result" where
  "echo_onHighWaterMark tid timeout now mark w =
     bindR (TcpConnection_stopRead tid w) (\<lambda>w1. Inr (expireAfter now (2 * timeout) w1))"

text \<open>The body of the loop of \<open>onTimeout\<close> for this connection.\<close>

definition echo_onTimeout :: "nat \<Rightarrow> timestamp \<Rightarrow> echo_world \<Rightarrow> echo_world result" where
  "echo_onTimeout tid now w =
     (case expiry (snd w) of
        None \<Rightarrow> Inr w
      | Some t \<Rightarrow> if t \<le> now
                  then bindR (forceClose tid w) (\<lambda>w1. Inr (fst w1, (snd w1)\<lparr>expiry := None\<rparr>))
                  else Inr w)"

definition echo_user :: "nat \<Rightarrow> conn_io \<Rightarrow> int \<Rightarrow> timestamp \<Rightarrow> (\<lparr>expiry :: timestamp option\<rparr>) conn_user" where
  "echo_user tid io timeout now =
     \<lparr>on_message = echo_onMessage tid io timeout now,
      on_writeComplete = echo_onWriteComplete tid timeout now,
      on_highWater = echo_onHighWaterMark tid timeout now,
      on_close = echo_onConnection timeout now\<rparr>"

subsection \<open>The contract\<close>

lemma conn_ok_expiry [simp]:
  "conn_ok tid (l, c\<lparr>expiry := e\<rparr>) = conn_ok tid (l, c)" for c :: echo_conn
  by (simp add: conn_ok_def)

lemma expireAfter_simps [simp]:
  "fst (expireAfter now i w) = fst w"
  "snd (expireAfter now i w) = (snd w)\<lparr>expiry := Some (now + i)\<rparr>"
  by (simp_all add: expireAfter_def nowAfter_def)

lemma conn_ok_expireAfter [simp]: "conn_ok tid (expireAfter now i w) = conn_ok tid w"
  by (cases w) (simp add: expireAfter_def)

lemma cb_frame_expireAfter [simp]: "cb_frame w (expireAfter now i w') = cb_frame w w'"
  by (simp add: cb_frame_def)

text \<open>
  \<open>stays_on w w'\<close>: what the callbacks have in common. The connection stays as closed or open as it
  was, output is not forgotten, and \<open>HighWater\<close> is queued only with output left in the buffer.
\<close>

definition stays_on :: "echo_world \<Rightarrow> echo_world \<Rightarrow> bool" where
  "stays_on w w' \<longleftrightarrow> state (snd w') = state (snd w) \<and> writeCompleteCb (snd w') = writeCompleteCb (snd w)
     \<and> (out (snd w') = [] \<longrightarrow> out (snd w) = [])
     \<and> (\<exists>new. pendingJobs (fst w') = pendingJobs (fst w) @ new \<and> StopRead \<notin> set new
       \<and> (\<forall>n. HighWater n \<in> set new \<longrightarrow> out (snd w') \<noteq> []))"

lemma echo_onMessage_ok:
  assumes "conn_ok tid (l, c)" "live c" "wr_ok (io_write io)"
  shows "ends_in (\<lambda>w'. conn_ok tid w' \<and> cb_frame (l, c) w' \<and> stays_on (l, c) w'
     \<and> isReading (chan (snd w')) = isReading (chan c)) (echo_onMessage tid io timeout now (l, c))"
proof -
  note ok = conn_okD[OF assms(1)]
  have same: "conn_ok tid (l, c\<lparr>inputBuffer := inputBuffer c\<rparr>)" using assms(1) by simp
  show ?thesis
  proof (cases "state c = kConnected")
    case False
    then show ?thesis using assms(1)
      by (simp add: echo_onMessage_def TcpConnection_send_buffer_def stays_on_def cb_frame_def)
  next
    case True
    let ?d = "content (inputBuffer c)"
    have d: "range_of (bytes (inputBuffer c)) (peek (inputBuffer c)) (readableBytes (inputBuffer c)) = ?d"
      using range_content[OF ok(3), of "length ?d"] by (simp add: peek_def readable_content ok(3))
    have len: "length ?d \<le> vec_max" using buf_okD(2-4)[OF ok(3)] length_content[OF ok(3)] by linarith
    have eq: "echo_onMessage tid io timeout now (l, c) = bindR (sendInLoop tid (io_write io) ?d (l, c))
       (\<lambda>w1. Inr (expireAfter now timeout (fst w1, (snd w1)\<lparr>inputBuffer := retrieveAll (inputBuffer c)\<rparr>)))"
      using True ok(1) d by (simp add: echo_onMessage_def TcpConnection_send_buffer_def bindR_def split: sum.split)
    show ?thesis unfolding eq
    proof (rule ends_in_bindR[OF sendInLoop_ok[OF assms(1,2,3) len]])
      fix w1 :: echo_world
      assume w1: "conn_ok tid w1 \<and> sent_effect (io_write io) ?d (l, c) w1"
      then have w1': "conn_ok tid w1" "sent_effect (io_write io) ?d (l, c) w1" by blast+
      have livec: "live (snd (l, c))" using assms(2) by simp
      note k = sent_effect_keeps[OF assms(1) w1'(1) livec w1'(2)]
      let ?w2 = "(fst w1, (snd w1)\<lparr>inputBuffer := retrieveAll (inputBuffer c)\<rparr>)"
      have "conn_ok tid ?w2" using w1'(1) retrieveAll_ok(1)[OF ok(3)] by (simp add: conn_ok_def)
      moreover have "cb_frame (l, c) ?w2" using k(1,2,5) by (simp add: cb_frame_def)
      moreover have "stays_on (l, c) ?w2" using k(1,4,6,7) by (simp add: stays_on_def)
      ultimately show "ends_in (\<lambda>w'. conn_ok tid w' \<and> cb_frame (l, c) w' \<and> stays_on (l, c) w'
          \<and> isReading (chan (snd w')) = isReading (chan c)) (Inr (expireAfter now timeout ?w2))"
        using k(3) by (simp add: stays_on_def)
    qed
  qed
qed

lemma echo_onWriteComplete_ok:
  assumes "conn_ok tid (l, c)"
  shows "\<exists>l' ch e. echo_onWriteComplete tid timeout now (l, c) = Inr (l', c\<lparr>chan := ch, expiry := e\<rparr>)
     \<and> conn_ok tid (l', c\<lparr>chan := ch, expiry := e\<rparr>) \<and> cb_frame (l, c) (l', c\<lparr>chan := ch, expiry := e\<rparr>)
     \<and> isReading ch \<and> pendingJobs l' = pendingJobs l"
proof (cases "isReading (chan c)")
  case True
  then show ?thesis using assms
    by (intro exI[of _ l] exI[of _ "chan c"] exI[of _ "expiry c"])
       (simp add: echo_onWriteComplete_def TcpConnection_isReading_def)
next
  case False
  from start_read_ok[OF assms] obtain l' ch where
    ch: "start_read_task tid (l, c) = Inr (l', c\<lparr>chan := ch\<rparr>)" "conn_ok tid (l', c\<lparr>chan := ch\<rparr>)"
    "isReading ch" "pendingJobs l' = pendingJobs l" "revents ch = revents (chan c)" "isWriting ch = isWriting (chan c)" by blast
  have "conn_ok tid (l', c\<lparr>chan := ch, expiry := Some (now + timeout)\<rparr>)"
    using ch(2) by (simp add: conn_ok_def)
  then show ?thesis using False ch conn_okD(1)[OF assms]
    by (intro exI[of _ l'] exI[of _ ch] exI[of _ "Some (now + timeout)"])
       (simp add: echo_onWriteComplete_def TcpConnection_isReading_def TcpConnection_startRead_def runInLoop_def
          expireAfter_def nowAfter_def cb_frame_def)
qed

lemma echo_onHighWaterMark_ok:
  assumes "conn_ok tid (l, c)"
  shows "\<exists>l' ch e. echo_onHighWaterMark tid timeout now n (l, c) = Inr (l', c\<lparr>chan := ch, expiry := e\<rparr>)
     \<and> conn_ok tid (l', c\<lparr>chan := ch, expiry := e\<rparr>) \<and> cb_frame (l, c) (l', c\<lparr>chan := ch, expiry := e\<rparr>)
     \<and> pendingJobs l' = pendingJobs l"
proof -
  from stop_read_ok[OF assms] obtain l' ch where
    ch: "stop_read_task tid (l, c) = Inr (l', c\<lparr>chan := ch\<rparr>)" "conn_ok tid (l', c\<lparr>chan := ch\<rparr>)"
    "pendingJobs l' = pendingJobs l" "revents ch = revents (chan c)" "isWriting ch = isWriting (chan c)" by blast
  have "conn_ok tid (l', c\<lparr>chan := ch, expiry := Some (now + 2 * timeout)\<rparr>)"
    using ch(2) by (simp add: conn_ok_def)
  then show ?thesis using ch conn_okD(1)[OF assms]
    by (intro exI[of _ l'] exI[of _ ch] exI[of _ "Some (now + 2 * timeout)"])
       (simp add: echo_onHighWaterMark_def TcpConnection_stopRead_def runInLoop_def
          expireAfter_def nowAfter_def cb_frame_def)
qed

text \<open>
  The contract on the system calls is a bound on their results; \<open>bounded\<close> cuts the results of any
  function down to it.
\<close>

definition bounded :: "conn_io \<Rightarrow> conn_io" where
  "bounded io = \<lparr>io_read = (\<lambda>n. case io_read io n of ReadOk bs \<Rightarrow> ReadOk (take n bs) | r \<Rightarrow> r),
                 io_write = (\<lambda>n. case io_write io n of WriteOk k \<Rightarrow> WriteOk (min k n) | r \<Rightarrow> r)\<rparr>"

lemma bounded_ok: "io_ok (bounded io)" "wr_ok (io_write (bounded io))"
  by (auto simp: bounded_def io_ok_def wr_ok_def rd_ok_def split: sysread.splits syswrite.splits)

lemma bounded_id: "io_ok io \<Longrightarrow> bounded io = io"
  by (cases io) (auto simp: bounded_def io_ok_def wr_ok_def rd_ok_def fun_eq_iff min_def
      split: sysread.splits syswrite.splits)

interpretation echo: conn_client "echo_user tid (bounded io) timeout now" tid for tid io timeout now
proof unfold_locales
  fix w :: echo_world and n
  obtain l c where w: "w = (l, c)" by (cases w)
  show "ends_in (\<lambda>w'. conn_ok tid w' \<and> cb_frame w w') (on_message (echo_user tid (bounded io) timeout now) w)"
    if "conn_ok tid w" "live (snd w)"
    using echo_onMessage_ok[of tid l c "bounded io" timeout now] bounded_ok(2) that
    by (auto simp: echo_user_def w elim!: ends_in_mono)
  show "ends_in (\<lambda>w'. conn_ok tid w' \<and> cb_frame w w') (on_writeComplete (echo_user tid (bounded io) timeout now) w)"
    if "conn_ok tid w"
    using echo_onWriteComplete_ok[of tid l c timeout now] that by (auto simp: echo_user_def w)
  show "ends_in (\<lambda>w'. conn_ok tid w' \<and> cb_frame w w') (on_highWater (echo_user tid (bounded io) timeout now) n w)"
    if "conn_ok tid w"
    using echo_onHighWaterMark_ok[of tid l c timeout now n] that by (auto simp: echo_user_def w)
  show "ends_in (\<lambda>w'. conn_ok tid w' \<and> cb_frame w w') (on_close (echo_user tid (bounded io) timeout now) w)"
    if "conn_ok tid w" "state (snd w) = kDisconnected"
    using that by (simp add: echo_user_def echo_onConnection_def TcpConnection_connected_def w cb_frame_def)
qed

end
