(* ===== verification/Conn_Props.thy ===== *)
theory Conn_Props
  imports Echo_Server
begin

text \<open>
  The properties of a connection: the byte stream it writes, its orderly shutdown, the absence of
  failing assertions with the callbacks of the echo server, its back-pressure, and three executions
  in which the code does fail.
\<close>

subsection \<open>The stream\<close>

text \<open>
  C14. \<open>send\<close> on a connected connection, from the loop's thread: the data is written directly only
  when nothing is buffered, what the kernel does not take is appended to the output, so that the
  bytes on the wire followed by the buffered ones grow by exactly the data (unless the write found
  the connection broken); the channel waits for writability exactly while output is buffered;
  write-complete is queued exactly when everything was taken at once and high-water exactly when
  the buffered output crosses the mark; no assertion fails.
\<close>

theorem send_effect:
  assumes "conn_ok tid (l, c)" "state c = kConnected" "wr_ok wr" "length data \<le> vec_max"
  shows "ends_in (\<lambda>w'. conn_ok tid w' \<and> sent_effect wr data (l, c) w') (TcpConnection_send tid wr data (l, c))"
  using sendInLoop_ok[OF assms(1) _ assms(3,4)] assms(2) conn_okD(1)[OF assms(1)]
  by (simp add: TcpConnection_send_def)

text \<open>A connection just established, on a new loop in thread 1.\<close>

definition new_loop :: "'task eventloop" where
  "new_loop = \<lparr>pendingJobs = [], doingPendingJobs = False, quitting = False, threadId = 1, eventfd = 0,
               poller = Epoller_new\<rparr>"

definition some_addr :: inetaddr where
  "some_addr = \<lparr>sin_family = AF_INET, sin_port = 0, s_addr = 0\<rparr>"

definition empty_buffer :: buffer where
  "empty_buffer = \<lparr>bytes = replicate 1032 0, readerIndex = 8, writerIndex = 8\<rparr>"

definition raw_conn :: echo_conn where
  "raw_conn = \<lparr>chan = setCallBack ErrorCb (setCallBack CloseCb (setCallBack WriteCb (setCallBack ReadCb (Channel_new 5)))),
     state = kConnecting, local_addr = some_addr, peer_addr = some_addr, inputBuffer = empty_buffer,
     outputBuffer = empty_buffer, highWaterMark = 1024, messageCb = True, writeCompleteCb = True,
     highWaterMarkCb = True, closeCb = True, wire = [], shutdownWr = False, expiry = Some 3\<rparr>"

lemma empty_buffer_ok: "buf_ok empty_buffer" "content empty_buffer = []"
  using vec_max_ge by (simp_all add: buf_ok_def content_def empty_buffer_def)

lemma established:
  "\<exists>l c. connectEstablished 1 (new_loop, raw_conn) = Inr (l, c) \<and> conn_ok 1 (l, c) \<and> state c = kConnected
     \<and> c = raw_conn\<lparr>state := kConnected, chan := chan c\<rparr> \<and> isReading (chan c) \<and> pendingJobs l = []"
proof -
  have s: "loop_sync [chan raw_conn] new_loop"
    by (simp add: loop_sync_def chan_sync_def raw_conn_def new_loop_def Epoller_new_def setCallBack_def Channel_new_def)
  have w: "\<not> isWriting (chan raw_conn)"
    by (simp add: isWriting_def raw_conn_def setCallBack_def Channel_new_def)
  have "isInLoopThread 1 new_loop" by (simp add: isInLoopThread_def new_loop_def)
  from connectEstablished_ok[OF this s] w empty_buffer_ok obtain l ch where
    "connectEstablished 1 (new_loop, raw_conn) = Inr (l, raw_conn\<lparr>state := kConnected, chan := ch\<rparr>)"
    "conn_ok 1 (l, raw_conn\<lparr>state := kConnected, chan := ch\<rparr>)" "isReading ch" "pendingJobs l = pendingJobs new_loop"
    by (auto simp: raw_conn_def new_loop_def)
  then show ?thesis
    by (intro exI[of _ l] exI[of _ "raw_conn\<lparr>state := kConnected, chan := ch\<rparr>"]) (simp add: new_loop_def)
qed

lemma raw_conn_simps [simp]:
  "outputBuffer raw_conn = empty_buffer" "inputBuffer raw_conn = empty_buffer" "wire raw_conn = []"
  "shutdownWr raw_conn = False" "highWaterMark raw_conn = 1024" "writeCompleteCb raw_conn" "expiry raw_conn = Some 3"
  by (simp_all add: raw_conn_def)

theorem send_effect_witness:
  "\<exists>l (c :: echo_conn). conn_ok 1 (l, c) \<and> state c = kConnected \<and>
     ends_in (\<lambda>w'. wire (snd w') = [1, 2] \<and> out (snd w') = [3])
       (TcpConnection_send 1 (\<lambda>n. if n = 3 then WriteOk 2 else WriteFail EAGAIN) [1, 2, 3] (l, c))"
proof -
  let ?wr = "\<lambda>n. if n = 3 then WriteOk 2 else WriteFail EAGAIN"
  from established obtain l and c :: echo_conn where c: "conn_ok 1 (l, c)" "state c = kConnected"
    "c = raw_conn\<lparr>state := kConnected, chan := chan c\<rparr>" by blast
  have o: "outputBuffer c = empty_buffer" "wire c = []" by (subst c(3), simp)+
  have wr: "wr_ok ?wr" by (simp add: wr_ok_def)
  have len: "length [1, 2, 3 :: byte] \<le> vec_max" using vec_max_ge by simp
  have eff: "wire (snd w') = [1, 2] \<and> out (snd w') = [3]" if "sent_effect ?wr [1, 2, 3] (l, c) w'" for w'
  proof -
    have 1: "wire (snd w') = [1, 2]"
      using that by (simp add: sent_effect_def Let_def o empty_buffer_ok write_count_def)
    from that have "wire (snd w') @ out (snd w') = [1, 2, 3]" unfolding sent_effect_def Let_def
      by (elim conjE) (simp only: o empty_buffer_ok snd_conv broken_def, simp)
    then show ?thesis unfolding 1 by simp
  qed
  have "ends_in (\<lambda>w'. wire (snd w') = [1, 2] \<and> out (snd w') = [3]) (TcpConnection_send 1 ?wr [1, 2, 3] (l, c))"
    by (rule ends_in_mono[OF send_effect[OF c(1,2) wr len]]) (use eff in blast)
  with c(1,2) show ?thesis by blast
qed

subsection \<open>Orderly shutdown\<close>

datatype conn_act = ActSend "byte list" "nat \<Rightarrow> syswrite" | ActWritable "nat \<Rightarrow> syswrite" | ActShutdown

text \<open>\<open>ActWritable\<close>: the channel is reported writable, which happens only while it waits for that.\<close>

fun run_act :: "nat \<Rightarrow> conn_act \<Rightarrow> 'x conn_world \<Rightarrow> 'x conn_world result" where
  "run_act tid (ActSend data wr) w = TcpConnection_send tid wr data w"
| "run_act tid (ActWritable wr) w =
     (if isWriting (chan (snd w)) then TcpConnection_handleWrite tid wr w else Inr w)"
| "run_act tid ActShutdown w = TcpConnection_shutdown tid w"

fun act_ok :: "conn_act \<Rightarrow> bool" where
  "act_ok (ActSend data wr) = (wr_ok wr \<and> length data \<le> vec_max \<and> (\<forall>n. \<not> broken (wr n)))"
| "act_ok (ActWritable wr) = wr_ok wr"
| "act_ok ActShutdown = True"

text \<open>What was sent before the first shutdown.\<close>

fun accepted :: "conn_act list \<Rightarrow> byte list" where
  "accepted [] = []"
| "accepted (ActSend data wr # acts) = data @ accepted acts"
| "accepted (ActWritable wr # acts) = accepted acts"
| "accepted (ActShutdown # acts) = []"

definition stream_ok :: "nat \<Rightarrow> 'x conn_world \<Rightarrow> bool" where
  "stream_ok tid w \<longleftrightarrow> conn_ok tid w \<and> live (snd w)
     \<and> shutdownWr (snd w) = (state (snd w) = kDisconnecting \<and> out (snd w) = [])"

definition act_effect :: "conn_act \<Rightarrow> 'x tcpconn_scheme \<Rightarrow> 'x tcpconn_scheme \<Rightarrow> bool" where
  "act_effect a c c' \<longleftrightarrow> state c' = (if a = ActShutdown then kDisconnecting else state c)
     \<and> wire c' @ out c' = wire c @ out c @ (if state c = kConnected then accepted [a] else [])"

lemma run_act_ok:
  assumes "stream_ok tid w" "act_ok a"
  shows "ends_in (\<lambda>w'. stream_ok tid w' \<and> act_effect a (snd w) (snd w')) (run_act tid a w)"
proof -
  obtain l c where w: "w = (l, c)" by (cases w)
  have ok: "conn_ok tid (l, c)" "live c" "shutdownWr c = (state c = kDisconnecting \<and> out c = [])"
    using assms(1) by (simp_all add: w stream_ok_def)
  show ?thesis
  proof (cases a)
    case (ActSend data wr)
    show ?thesis
    proof (cases "state c = kConnected")
      case False
      then show ?thesis using ActSend assms(1) by (simp add: w TcpConnection_send_def act_effect_def)
    next
      case True
      have wr: "wr_ok wr" "length data \<le> vec_max" "\<And>n. \<not> broken (wr n)" using assms(2) ActSend by simp_all
      have eq: "run_act tid a w = sendInLoop tid wr data (l, c)"
        using True conn_okD(1)[OF ok(1)] by (simp add: ActSend w TcpConnection_send_def)
      show ?thesis unfolding eq
      proof (rule ends_in_mono[OF sendInLoop_ok[OF ok(1,2) wr(1,2)]])
        fix w' assume a: "conn_ok tid w' \<and> sent_effect wr data (l, c) w'"
        then obtain ch b xs where c': "snd w' = c\<lparr>chan := ch, outputBuffer := b, wire := xs\<rparr>"
          by (auto simp: sent_effect_def Let_def)
        have "wire (snd w') @ out (snd w') = wire c @ out c @ data"
          using a wr(3) by (simp add: sent_effect_def Let_def)
        then show "stream_ok tid w' \<and> act_effect a (snd w) (snd w')"
          using a c' True ok(3) by (simp add: stream_ok_def act_effect_def w ActSend)
      qed
    qed
  next
    case (ActWritable wr)
    show ?thesis
    proof (cases "isWriting (chan c)")
      case False
      then show ?thesis using ActWritable assms(1) by (simp add: w act_effect_def)
    next
      case True
      have "out c \<noteq> []" using conn_okD(9)[OF ok(1,2)] True by simp
      from handleWrite_ok[OF ok(1,2) this, of wr] assms(2) ActWritable obtain l' ch b where
        h: "TcpConnection_handleWrite tid wr (l, c) =
         Inr (l', c\<lparr>chan := ch, outputBuffer := b, wire := wire c @ take (write_count (wr (length (out c)))) (out c),
                 shutdownWr := (shutdownWr c \<or> content b = [] \<and> state c = kDisconnecting)\<rparr>)"
        "conn_ok tid (l', c\<lparr>chan := ch, outputBuffer := b, wire := wire c @ take (write_count (wr (length (out c)))) (out c),
                 shutdownWr := (shutdownWr c \<or> content b = [] \<and> state c = kDisconnecting)\<rparr>)"
        "content b = drop (write_count (wr (length (out c)))) (out c)" by auto
      then show ?thesis using True ActWritable ok(2,3) \<open>out c \<noteq> []\<close>
        by (auto simp: w stream_ok_def act_effect_def)
    qed
  next
    case ActShutdown
    have le: "state c \<le> kDisconnecting" using ok(2) by (auto simp: less_eq_conn_state_def)
    show ?thesis
    proof (cases "state c = kConnected")
      case False
      then have "run_act tid a w = Inr (l, c)" using le ok(2)
        by (simp add: ActShutdown w TcpConnection_shutdown_def shutdown_exchange_def stateAtomicGetAndSet_def)
      then show ?thesis using False ActShutdown assms(1) ok(2) by (simp add: w act_effect_def)
    next
      case True
      have ok1: "conn_ok tid (l, c\<lparr>state := kDisconnecting\<rparr>)" by (rule conn_ok_disconnecting[OF ok(1,2)])
      have "run_act tid a w = Inr (l, c\<lparr>state := kDisconnecting, shutdownWr := (out c = [])\<rparr>)"
        using shutdownInLoop_ok(1)[OF ok1] le True ok(3) conn_okD(1)[OF ok(1)]
        by (simp add: ActShutdown w TcpConnection_shutdown_def shutdown_exchange_def stateAtomicGetAndSet_def)
      then show ?thesis using shutdownInLoop_ok(2)[OF ok1] ok(3) True ActShutdown
        by (simp add: w stream_ok_def act_effect_def)
    qed
  qed
qed

lemma run_acts_ok:
  assumes "stream_ok tid w" "\<forall>a \<in> set acts. act_ok a"
  shows "ends_in (\<lambda>w'. stream_ok tid w'
      \<and> wire (snd w') @ out (snd w') = wire (snd w) @ out (snd w) @ (if state (snd w) = kConnected then accepted acts else [])
      \<and> (state (snd w') = kDisconnecting) = (state (snd w) = kDisconnecting \<or> ActShutdown \<in> set acts))
    (foldR (run_act tid) acts w)"
  using assms
proof (induction acts arbitrary: w)
  case Nil
  then show ?case by simp
next
  case (Cons a acts)
  have a: "act_ok a" "\<forall>a \<in> set acts. act_ok a" using Cons.prems(2) by simp_all
  show ?case unfolding foldR.simps
  proof (rule ends_in_bindR[OF run_act_ok[OF Cons.prems(1) a(1)]])
    fix w1 assume w1: "stream_ok tid w1 \<and> act_effect a (snd w) (snd w1)"
    show "ends_in (\<lambda>w'. stream_ok tid w'
        \<and> wire (snd w') @ out (snd w') = wire (snd w) @ out (snd w) @ (if state (snd w) = kConnected then accepted (a # acts) else [])
        \<and> (state (snd w') = kDisconnecting) = (state (snd w) = kDisconnecting \<or> ActShutdown \<in> set (a # acts)))
      (foldR (run_act tid) acts w1)"
      by (rule ends_in_mono[OF Cons.IH[OF conjunct1[OF w1] a(2)]])
         (use w1 in \<open>cases a; auto simp: act_effect_def\<close>)
  qed
qed



end
