(* ===== verification/Echo_Props.thy ===== *)
theory Echo_Props
  imports Conn_Props
begin

text \<open>
  The echo server on one connection: its rounds through the loop fail no assertion, its back-pressure
  never leaves a connection stopped for ever, and the executions in which it does fail.
\<close>

subsection \<open>Rounds of the loop\<close>

text \<open>Before the events and the tasks, the timer may run the timeout check.\<close>

definition echo_round :: "nat \<Rightarrow> int \<Rightarrow> (mask \<times> conn_io \<times> timestamp) \<Rightarrow> echo_world \<Rightarrow> echo_world result" where
  "echo_round tid timeout r w =
     (let (m, io, now) = r in
      bindR (echo_onTimeout tid now w) (conn_round (echo_user tid io timeout now) tid m io))"

lemma echo_onTimeout_ok:
  fixes c :: echo_conn
  assumes "conn_ok tid (l, c)"
  shows "\<exists>l' c'. echo_onTimeout tid now (l, c) = Inr (l', c') \<and> conn_ok tid (l', c')
     \<and> chan c' = chan c \<and> outputBuffer c' = outputBuffer c \<and> writeCompleteCb c' = writeCompleteCb c
     \<and> live c' = live c \<and> (pendingJobs l' = pendingJobs l \<or> pendingJobs l' = pendingJobs l @ [ForceCloseInLoop])"
proof (cases "\<exists>t. expiry c = Some t \<and> t \<le> now \<and> state c \<noteq> kDisconnected")
  case False
  then have "echo_onTimeout tid now (l, c) = Inr (l, c)
      \<or> echo_onTimeout tid now (l, c) = Inr (l, c\<lparr>expiry := None\<rparr>)"
    by (auto simp: echo_onTimeout_def forceClose_def split: option.split)
  then show ?thesis using assms by auto
next
  case True
  then obtain t where t: "expiry c = Some t" "t \<le> now" "state c \<noteq> kDisconnected" by blast
  have live: "live c" by (rule live_cases[OF conn_okD(5)[OF assms] t(3)])
  have "conn_ok tid (conn_queue tid ForceCloseInLoop (l, c\<lparr>state := kDisconnecting\<rparr>))"
    using conn_ok_disconnecting[OF assms live] conn_ok_queue[of ForceCloseInLoop tid tid "(l, c\<lparr>state := kDisconnecting\<rparr>)"]
    by simp
  then have "conn_ok tid (queueInLoop tid ForceCloseInLoop l, c\<lparr>state := kDisconnecting, expiry := None\<rparr>)"
    by (simp add: conn_queue_def conn_ok_def)
  moreover have "echo_onTimeout tid now (l, c) =
      Inr (queueInLoop tid ForceCloseInLoop l, c\<lparr>state := kDisconnecting, expiry := None\<rparr>)"
    using t by (simp add: echo_onTimeout_def forceClose_def forceClose_exchange_def stateAtomicGetAndSet_def conn_queue_def)
  ultimately show ?thesis using live
    by (intro exI[of _ "queueInLoop tid ForceCloseInLoop l"] exI[of _ "c\<lparr>state := kDisconnecting, expiry := None\<rparr>"]) simp
qed

text \<open>
  Safety of one connection under the echo server. From any well-formed connection,
  through any number of rounds of the loop (the timeout check, any events the kernel may report with
  any results of \<open>readv\<close> and \<open>write\<close>, and the pending tasks with all the user's callbacks), no
  assertion of \<open>TcpConnection\<close>, \<open>Channel\<close>, \<open>Epoller\<close> or \<open>Buffer\<close> fails, no empty callback is
  called and nothing undefined happens; the connection stays well formed: its channel waits for
  writability exactly while output is buffered, and the kernel's interest list agrees with it.
\<close>

theorem echo_rounds_safe:
  assumes "conn_ok tid w" "\<forall>(m, io, now) \<in> set rounds. io_ok io"
  shows "ends_in (conn_ok tid) (foldR (echo_round tid timeout) rounds w)"
proof (rule ends_in_foldR[where P = "conn_ok tid", OF _ assms(1)])
  fix r and w :: echo_world
  assume r: "r \<in> set rounds" and w: "conn_ok tid w"
  obtain m io now where rd: "r = (m, io, now)" by (cases r)
  have io: "io_ok io" using assms(2) r rd by auto
  obtain l c where lc: "w = (l, c)" by (cases w)
  from echo_onTimeout_ok[of tid l c now] w lc obtain l1 c1 where
    w1: "echo_onTimeout tid now w = Inr (l1, c1)" "conn_ok tid (l1, c1)" by auto
  have "ends_in (conn_ok tid) (conn_round (echo_user tid io timeout now) tid m io (l1, c1))"
    using echo.round_ok[OF w1(2) io, of io timeout now m] bounded_id[OF io] by simp
  then show "ends_in (conn_ok tid) (echo_round tid timeout r w)" using w1(1) by (simp add: echo_round_def rd)
qed

theorem echo_rounds_safe_witness:
  "\<exists>l c. conn_ok 1 (l, c) \<and> ends_in (conn_ok 1)
     (foldR (echo_round 1 5) [(EPOLLIN, \<lparr>io_read = (\<lambda>n. ReadOk (take n [7, 8])), io_write = (\<lambda>n. WriteOk (n - 1))\<rparr>, 2),
        (EPOLLOUT, \<lparr>io_read = (\<lambda>n. ReadFail 5), io_write = WriteOk\<rparr>, 9)] (l, c))"
proof -
  let ?rs = "[(EPOLLIN, \<lparr>io_read = (\<lambda>n. ReadOk (take n [7, 8])), io_write = (\<lambda>n. WriteOk (n - 1))\<rparr>, 2),
        (EPOLLOUT, \<lparr>io_read = (\<lambda>n. ReadFail 5), io_write = WriteOk\<rparr>, 9)] :: (mask \<times> conn_io \<times> timestamp) list"
  from established obtain l and c :: echo_conn where c: "conn_ok 1 (l, c)" by blast
  have "\<forall>(m, io, now) \<in> set ?rs. io_ok io" by (simp add: io_ok_def wr_ok_def rd_ok_def)
  from echo_rounds_safe[OF c this, of 5] c show ?thesis by blast
qed

subsection \<open>Back-pressure\<close>

text \<open>
  The echo server on one connection as a step relation: its events, its tasks one at a time in the
  order of the queue, its timeout, and other threads sending on the connection.
\<close>

inductive echo_step :: "nat \<Rightarrow> int \<Rightarrow> echo_world \<Rightarrow> echo_world \<Rightarrow> bool" for tid timeout where
  readable: "live c \<Longrightarrow> io_ok io \<Longrightarrow>
     TcpConnection_handleRead (echo_user tid io timeout now) tid (io_read io) (l, c) = Inr w' \<Longrightarrow>
     echo_step tid timeout (l, c) w'"
| writable: "live c \<Longrightarrow> isWriting (chan c) \<Longrightarrow> io_ok io \<Longrightarrow>
     TcpConnection_handleWrite tid (io_write io) (l, c) = Inr w' \<Longrightarrow> echo_step tid timeout (l, c) w'"
| hangup: "live c \<Longrightarrow> io_ok io \<Longrightarrow> handleClose (echo_user tid io timeout now) tid (l, c) = Inr w' \<Longrightarrow>
     echo_step tid timeout (l, c) w'"
| timeout: "echo_onTimeout tid now (l, c) = Inr w' \<Longrightarrow> echo_step tid timeout (l, c) w'"
| task: "pendingJobs l = t # ts \<Longrightarrow> io_ok io \<Longrightarrow>
     run_conn_task (echo_user tid io timeout now) tid io t (l\<lparr>pendingJobs := ts\<rparr>, c) = Inr w' \<Longrightarrow>
     echo_step tid timeout (l, c) w'"
| other_send: "\<not> isInLoopThread tid' l \<Longrightarrow> length data \<le> vec_max \<Longrightarrow>
     TcpConnection_send tid' wr data (l, c) = Inr w' \<Longrightarrow> echo_step tid timeout (l, c) w'"

text \<open>Every high-water task is followed by a write-complete task.\<close>

fun hw_followed :: "conn_task list \<Rightarrow> bool" where
  "hw_followed [] = True"
| "hw_followed (t # ts) = ((case t of HighWater n \<Rightarrow> WriteComplete \<in> set ts | _ \<Rightarrow> True) \<and> hw_followed ts)"

definition will_resume :: "bool \<Rightarrow> byte list \<Rightarrow> conn_task list \<Rightarrow> bool" where
  "will_resume reading outp ts \<longleftrightarrow> outp \<noteq> [] \<or> hw_followed ts \<and> (reading \<or> WriteComplete \<in> set ts)"

definition echo_inv :: "nat \<Rightarrow> echo_world \<Rightarrow> bool" where
  "echo_inv tid w \<longleftrightarrow> conn_ok tid w \<and> StopRead \<notin> set (pendingJobs (fst w)) \<and> (live (snd w) \<longrightarrow> writeCompleteCb (snd w)
     \<and> will_resume (isReading (chan (snd w))) (out (snd w)) (pendingJobs (fst w)))"

definition echo_start :: "nat \<Rightarrow> echo_world \<Rightarrow> bool" where
  "echo_start tid w \<longleftrightarrow> conn_ok tid w \<and> state (snd w) = kConnected \<and> isReading (chan (snd w))
     \<and> pendingJobs (fst w) = [] \<and> writeCompleteCb (snd w)"

lemma hw_followed_append:
  "hw_followed xs \<Longrightarrow> \<forall>n. HighWater n \<notin> set ys \<Longrightarrow> hw_followed (xs @ ys)"
proof (induction xs)
  case Nil
  then show ?case by (induction ys) (auto split: conn_task.split)
next
  case (Cons x xs)
  then show ?case by (auto split: conn_task.split)
qed

lemma hw_followed_complete: "hw_followed (xs @ [WriteComplete])"
  by (induction xs) (auto split: conn_task.split)

lemma will_resume_append:
  "will_resume r xs ts \<Longrightarrow> \<forall>n. HighWater n \<notin> set new \<Longrightarrow> will_resume r xs (ts @ new)"
  by (auto simp: will_resume_def hw_followed_append)

lemma will_resume_tl:
  "will_resume r xs (t # ts) \<Longrightarrow> t \<noteq> WriteComplete \<Longrightarrow> will_resume r xs ts"
  by (auto simp: will_resume_def)

lemma will_resume_stays_on:
  assumes "stays_on w w'" "will_resume r (out (snd w)) (pendingJobs (fst w))"
  shows "will_resume r (out (snd w')) (pendingJobs (fst w'))"
proof (cases "out (snd w') = []")
  case False
  then show ?thesis by (simp add: will_resume_def)
next
  case True
  with assms(1) obtain new where "out (snd w) = []" "pendingJobs (fst w') = pendingJobs (fst w) @ new"
    "\<forall>n. HighWater n \<notin> set new" by (auto simp: stays_on_def)
  with will_resume_append[OF assms(2)] True show ?thesis by simp
qed


lemma stays_on_inv:
  assumes "conn_ok tid w'" "stays_on w w'" "StopRead \<notin> set (pendingJobs (fst w))"
    and "live (snd w) \<longrightarrow> writeCompleteCb (snd w) \<and> will_resume (isReading (chan (snd w'))) (out (snd w)) (pendingJobs (fst w))"
  shows "echo_inv tid w'"
proof -
  have "live (snd w') = live (snd w)" "writeCompleteCb (snd w') = writeCompleteCb (snd w)"
    "StopRead \<notin> set (pendingJobs (fst w'))"
    using assms(2,3) by (auto simp: stays_on_def)
  then show ?thesis using assms(1,4) will_resume_stays_on[OF assms(2)] by (simp add: echo_inv_def)
qed

lemma closed_inv:
  assumes "handleClose (echo_user tid (bounded io) timeout now) tid (l, c) = Inr w'" "conn_ok tid (l, c)" "live c"
    and "StopRead \<notin> set (pendingJobs l)"
  shows "echo_inv tid w'"
proof -
  from handleClose_exact[OF assms(2,3)] obtain l' p where h:
    "conn_ok tid (l', c\<lparr>state := kDisconnected, chan := (chan c)\<lparr>events := 0, polling := p\<rparr>\<rparr>)" "pendingJobs l' = pendingJobs l"
    "handleClose (echo_user tid (bounded io) timeout now) tid (l, c)
       = echo_onConnection timeout now (l', c\<lparr>state := kDisconnected, chan := (chan c)\<lparr>events := 0, polling := p\<rparr>\<rparr>)"
    by (auto simp: echo_user_def)
  then show ?thesis using assms(1,4) by (auto simp: echo_inv_def echo_onConnection_def TcpConnection_connected_def)
qed

lemma echo_inv_read:
  assumes "echo_inv tid (l, c)" "live c" "io_ok io"
    and "TcpConnection_handleRead (echo_user tid io timeout now) tid (io_read io) (l, c) = Inr w'"
  shows "echo_inv tid w'"
proof -
  have ok: "conn_ok tid (l, c)" and sr: "StopRead \<notin> set (pendingJobs l)"
    and wcb: "writeCompleteCb c" and wr: "will_resume (isReading (chan c)) (out c) (pendingJobs l)"
    using assms(1,2) by (auto simp: echo_inv_def)
  have io: "rd_ok (io_read io)" "wr_ok (io_write io)" using assms(3) by (simp_all add: io_ok_def)
  from handleRead_cases[OF assms(4) ok io(1)] obtain b where b: "buf_ok b"
    "w' = (l, c\<lparr>inputBuffer := b\<rparr>) \<or> handleClose (echo_user tid io timeout now) tid (l, c\<lparr>inputBuffer := b\<rparr>) = Inr w'
     \<or> on_message (echo_user tid io timeout now) (l, c\<lparr>inputBuffer := b\<rparr>) = Inr w'" by blast
  let ?c = "c\<lparr>inputBuffer := b\<rparr>"
  have ok1: "conn_ok tid (l, ?c)" using ok b(1) by (simp add: conn_ok_def)
  have live1: "live ?c" using assms(2) by simp
  from b(2) consider "w' = (l, ?c)" | "handleClose (echo_user tid io timeout now) tid (l, ?c) = Inr w'"
    | "echo_onMessage tid io timeout now (l, ?c) = Inr w'" by (auto simp: echo_user_def)
  then show ?thesis
  proof cases
    case 1
    then show ?thesis using ok1 sr wcb wr by (simp add: echo_inv_def)
  next
    case 2
    then show ?thesis using closed_inv[of tid io timeout now l ?c w'] ok1 live1 sr bounded_id[OF assms(3)] by simp
  next
    case 3
    from ends_in_Inr[OF echo_onMessage_ok[OF ok1 live1 io(2)] 3]
    have m: "conn_ok tid w'" "stays_on (l, ?c) w'" "isReading (chan (snd w')) = isReading (chan ?c)" by blast+
    show ?thesis by (rule stays_on_inv[OF m(1,2)]) (use sr wcb wr m(3) in simp_all)
  qed
qed

lemma echo_inv_task:
  assumes "echo_inv tid (l, c)" "pendingJobs l = t # ts" "io_ok io"
    and "run_conn_task (echo_user tid io timeout now) tid io t (l\<lparr>pendingJobs := ts\<rparr>, c) = Inr w'"
  shows "echo_inv tid w'"
proof -
  let ?l = "l\<lparr>pendingJobs := ts\<rparr>"
  have ok: "conn_ok tid (?l, c)" using assms(1,2) conn_ok_pop by (auto simp: echo_inv_def)
  have sr: "StopRead \<notin> set ts" "t \<noteq> StopRead" using assms(1,2) by (auto simp: echo_inv_def)
  have inv: "live c \<longrightarrow> writeCompleteCb c \<and> will_resume (isReading (chan c)) (out c) (t # ts)"
    using assms(1,2) by (simp add: echo_inv_def)
  have wr: "wr_ok (io_write io)" using assms(3) by (simp add: io_ok_def)
  show ?thesis
  proof (cases t)
    case (SendInLoop data)
    show ?thesis
    proof (cases "state c = kDisconnected")
      case True
      then have "w' = (?l, c)" using SendInLoop assms(4) conn_okD(1)[OF ok] by (simp add: sendInLoop_def)
      then show ?thesis using ok sr True by (simp add: echo_inv_def)
    next
      case False
      have live: "live c" by (rule live_cases[OF conn_okD(5)[OF ok] False])
      have len: "length data \<le> vec_max"
        using assms(1,2) SendInLoop by (auto simp: echo_inv_def conn_ok_def)
      have "sendInLoop tid (io_write io) data (?l, c) = Inr w'" using assms(4) SendInLoop by simp
      from ends_in_Inr[OF sendInLoop_ok[OF ok live wr len] this]
      have s: "conn_ok tid w'" "sent_effect (io_write io) data (?l, c) w'" by blast+
      have "live (snd (?l, c))" using live by simp
      note k = sent_effect_keeps[OF ok s(1) this s(2)]
      have "stays_on (?l, c) w'" using k(1,4,6,7) by (simp add: stays_on_def)
      then show ?thesis
        by (rule stays_on_inv[OF s(1)]) (use sr inv live k(3) will_resume_tl SendInLoop in auto)
    qed
  next
    case WriteComplete
    from echo_onWriteComplete_ok[OF ok] obtain l' ch e where
      "echo_onWriteComplete tid timeout now (?l, c) = Inr (l', c\<lparr>chan := ch, expiry := e\<rparr>)"
      "conn_ok tid (l', c\<lparr>chan := ch, expiry := e\<rparr>)" "isReading ch" "pendingJobs l' = ts" by force
    then show ?thesis using WriteComplete assms(4) sr inv
      by (auto simp: echo_inv_def will_resume_def echo_user_def)
  next
    case (HighWater n)
    from echo_onHighWaterMark_ok[OF ok] obtain l' ch e where
      "echo_onHighWaterMark tid timeout now n (?l, c) = Inr (l', c\<lparr>chan := ch, expiry := e\<rparr>)"
      "conn_ok tid (l', c\<lparr>chan := ch, expiry := e\<rparr>)" "pendingJobs l' = ts" by force
    then show ?thesis using HighWater assms(4) sr inv
      by (auto simp: echo_inv_def will_resume_def echo_user_def)
  next
    case ShutdownInLoop
    then have "w' = (?l, c\<lparr>shutdownWr := (shutdownWr c \<or> live c \<and> out c = [])\<rparr>)"
      using assms(4) shutdownInLoop_ok(1)[OF ok] by simp
    then show ?thesis using shutdownInLoop_ok(2)[OF ok] sr inv ShutdownInLoop will_resume_tl
      by (auto simp: echo_inv_def)
  next
    case ForceCloseInLoop
    show ?thesis
    proof (cases "state c = kDisconnected")
      case True
      then have "w' = (?l, c)" using ForceCloseInLoop assms(4) conn_okD(1)[OF ok] by (simp add: forceCloseInLoop_def)
      then show ?thesis using ok sr True by (simp add: echo_inv_def)
    next
      case False
      have "handleClose (echo_user tid (bounded io) timeout now) tid (?l, c) = Inr w'"
        using False ForceCloseInLoop assms(4) conn_okD(1)[OF ok] bounded_id[OF assms(3)] by (simp add: forceCloseInLoop_def)
      from closed_inv[OF this ok live_cases[OF conn_okD(5)[OF ok] False]] sr show ?thesis by simp
    qed
  next
    case StopRead
    then show ?thesis using sr by simp
  next
    case StartRead
    from start_read_ok[OF ok] obtain l' ch where "start_read_task tid (?l, c) = Inr (l', c\<lparr>chan := ch\<rparr>)"
      "conn_ok tid (l', c\<lparr>chan := ch\<rparr>)" "isReading ch" "pendingJobs l' = ts" by force
    then show ?thesis using StartRead assms(4) sr inv by (auto simp: echo_inv_def will_resume_def)
  qed
qed


lemma echo_inv_start: "echo_start tid w \<Longrightarrow> echo_inv tid w"
  by (simp add: echo_start_def echo_inv_def will_resume_def)

lemma echo_inv_step:
  assumes "echo_inv tid w" "echo_step tid timeout w w'"
  shows "echo_inv tid w'"
  using assms(2)
proof (cases rule: echo_step.cases)
  case (readable c io now l)
  then show ?thesis using echo_inv_read assms(1) by blast
next
  case (writable c io l)
  have inv: "conn_ok tid (l, c)" "StopRead \<notin> set (pendingJobs l)" "writeCompleteCb c"
    using assms(1) writable by (auto simp: echo_inv_def)
  have "out c \<noteq> []" using conn_okD(9)[OF inv(1) writable(2)] writable(3) by simp
  have "wr_ok (io_write io)" using writable(4) by (simp add: io_ok_def)
  from handleWrite_ok[OF inv(1) writable(2) \<open>out c \<noteq> []\<close> this] writable(5) obtain l' ch b k where
    "w' = (l', c\<lparr>chan := ch, outputBuffer := b, wire := wire c @ take k (out c),
       shutdownWr := (shutdownWr c \<or> content b = [] \<and> state c = kDisconnecting)\<rparr>)" "conn_ok tid w'"
    "pendingJobs l' = pendingJobs l @ (if content b = [] \<and> writeCompleteCb c then [WriteComplete] else [])"
    by auto
  then show ?thesis using inv(2,3) hw_followed_complete[of "pendingJobs l"]
    by (simp add: echo_inv_def will_resume_def)
next
  case (hangup c io now l)
  then show ?thesis using closed_inv[of tid io timeout now l c w'] assms(1) bounded_id[of io]
    by (auto simp: echo_inv_def)
next
  case (timeout now l c)
  have inv: "conn_ok tid (l, c)" using assms(1) timeout by (simp add: echo_inv_def)
  from echo_onTimeout_ok[OF inv, of now] timeout(2) obtain l' c' where
    w': "w' = (l', c')" "conn_ok tid (l', c')" "chan c' = chan c" "outputBuffer c' = outputBuffer c"
    "writeCompleteCb c' = writeCompleteCb c" "live c' = live c"
    "pendingJobs l' = pendingJobs l \<or> pendingJobs l' = pendingJobs l @ [ForceCloseInLoop]" by auto
  then show ?thesis using assms(1) timeout(1) will_resume_append[of _ _ "pendingJobs l" "[ForceCloseInLoop]"]
    by (auto simp: echo_inv_def)
next
  case (task l t ts io now c)
  then show ?thesis using echo_inv_task assms(1) by blast
next
  case (other_send tid' l data wr c)
  have "w' = (if state c \<noteq> kConnected then (l, c) else conn_queue tid' (SendInLoop data) (l, c))"
    using other_send(2,4) by (auto simp: TcpConnection_send_def split: if_splits)
  moreover have "conn_ok tid (conn_queue tid' (SendInLoop data) (l, c)) = conn_ok tid (l, c)"
    by (rule conn_ok_queue) (use other_send(3) in simp)
  ultimately show ?thesis using assms(1) other_send(1) will_resume_append[of _ _ "pendingJobs l" "[SendInLoop data]"]
    by (auto simp: echo_inv_def)
qed

interpretation echosys: safe_system "echo_start tid" "echo_step tid timeout" "echo_inv tid" for tid timeout
  by unfold_locales (auto intro: echo_inv_start echo_inv_step)

text \<open>
  C22. The back-pressure of the echo server does not stall. However the connection's events, its
  tasks, timeouts and other threads' sends interleave, a live connection that has stopped reading at
  the high-water mark still has output buffered and waits for writability, or a write-complete task
  is queued; running that task turns reading on again; and when the kernel takes all the buffered
  output, that task is queued.
\<close>

theorem echo_backpressure:
  assumes "reach (echo_start tid) (echo_step tid timeout) (l, c)" "live c"
  shows "(isReading (chan c) \<or> (out c \<noteq> [] \<and> isWriting (chan c)) \<or> WriteComplete \<in> set (pendingJobs l))
     \<and> (\<exists>l' c'. run_conn_task (echo_user tid io timeout now) tid io WriteComplete (l, c) = Inr (l', c') \<and> isReading (chan c'))
     \<and> (out c = [] \<or> (\<exists>l' c'. TcpConnection_handleWrite tid (\<lambda>n. WriteOk n) (l, c) = Inr (l', c')
           \<and> out c' = [] \<and> pendingJobs l' = pendingJobs l @ [WriteComplete]))"
proof (intro conjI)
  have inv: "conn_ok tid (l, c)" "writeCompleteCb c" "will_resume (isReading (chan c)) (out c) (pendingJobs l)"
    using echosys.reach_inv[OF assms(1)] assms(2) by (auto simp: echo_inv_def)
  then show "isReading (chan c) \<or> (out c \<noteq> [] \<and> isWriting (chan c)) \<or> WriteComplete \<in> set (pendingJobs l)"
    using conn_okD(9)[OF inv(1) assms(2)] by (auto simp: will_resume_def)
  show "\<exists>l' c'. run_conn_task (echo_user tid io timeout now) tid io WriteComplete (l, c) = Inr (l', c') \<and> isReading (chan c')"
    using echo_onWriteComplete_ok[OF inv(1), of timeout now] by (force simp: echo_user_def)
  have wr: "wr_ok (\<lambda>n. WriteOk n)" by (simp add: wr_ok_def)
  show "out c = [] \<or> (\<exists>l' c'. TcpConnection_handleWrite tid (\<lambda>n. WriteOk n) (l, c) = Inr (l', c')
           \<and> out c' = [] \<and> pendingJobs l' = pendingJobs l @ [WriteComplete])"
    using handleWrite_ok[OF inv(1) assms(2) _ wr] inv(2) by (cases "out c = []") (force simp: write_count_def)+
qed

theorem echo_backpressure_witness:
  "\<exists>l c. live c \<and> (isReading (chan c) \<or> (out c \<noteq> [] \<and> isWriting (chan c)) \<or> WriteComplete \<in> set (pendingJobs l))
     \<and> reach (echo_start 1) (echo_step 1 5) (l, c)"
proof -
  from established obtain l and c :: echo_conn where c: "conn_ok 1 (l, c)" "state c = kConnected" "isReading (chan c)"
    "pendingJobs l = []" "c = raw_conn\<lparr>state := kConnected, chan := chan c\<rparr>" by blast
  have "writeCompleteCb c" by (subst c(5)) simp
  then have r: "reach (echo_start 1) (echo_step 1 5) (l, c)"
    using c by (intro reach_start) (simp add: echo_start_def)
  have "live c" using c(2) by simp
  from echo_backpressure[OF r this] r \<open>live c\<close> show ?thesis by blast
qed

end
