(* ===== verification/Conn_Failures.thy ===== *)
theory Conn_Failures
  imports Echo_Props
begin

text \<open>
  Executions in which a connection fails: reading turned on again after the connection was closed, a
  state exchange that overtakes the close, and a hang-up reported together with urgent data.
\<close>

lemma echo_close_exact:
  fixes c :: echo_conn
  assumes "conn_ok tid (l, c)" "live c"
  shows "\<exists>l' p. handleClose (echo_user tid io timeout now) tid (l, c)
       = Inr (l', c\<lparr>state := kDisconnected, chan := (chan c)\<lparr>events := 0, polling := p\<rparr>, expiry := None\<rparr>)
     \<and> conn_ok tid (l', c\<lparr>state := kDisconnected, chan := (chan c)\<lparr>events := 0, polling := p\<rparr>, expiry := None\<rparr>)
     \<and> pendingJobs l' = pendingJobs l"
proof -
  note ok = conn_okD[OF assms(1)]
  have ev: "\<not> (events (chan c) = 0 \<and> DisableAll \<in> {DisableRead, DisableWrite, DisableAll})"
    using nonzero_bit[OF ok(8)[OF assms(2)]] by simp
  from chan_do_sync[of tid l "[chan c]" 0 DisableAll] ok(1,2) ev obtain ch l' where
    ch: "chan_do DisableAll tid (chan c) l = Inr (ch, l')" "loop_sync [ch] l'" "threadId l' = threadId l" by auto
  note fr = chan_do_frame[OF ch(1)]
  define p where "p = polling ch"
  have chp: "ch = (chan c)\<lparr>events := 0, polling := p\<rparr>"
    using fr(5) by (simp add: p_def new_events.simps)
  let ?c' = "c\<lparr>state := kDisconnected, chan := (chan c)\<lparr>events := 0, polling := p\<rparr>, expiry := None\<rparr>"
  have "handleClose (echo_user tid io timeout now) tid (l, c) = Inr (l', ?c')"
    using ok(1,7) assms(2) ch(1) chp
    by (auto simp: handleClose_def EventLoop_removeChannel_def Let_def echo_user_def echo_onConnection_def
        TcpConnection_connected_def)
  moreover have "conn_ok tid (l', ?c')"
    using ok(1,3,4,6,7) ok(11) ch(2,3) fr(1) chp by (simp add: conn_ok_def isInLoopThread_def isWriting_bit)
  ultimately show ?thesis using fr(1) by blast
qed

lemma handleRead_closed:
  "isInLoopThread tid l \<Longrightarrow> state c = kDisconnected \<Longrightarrow> TcpConnection_handleRead user tid rd (l, c) = Inl AssertFailed"
  by (simp add: TcpConnection_handleRead_def)

text \<open>
  C23. Reading turned on after the close. On the echo server, when a connection with buffered output
  has timed out and its socket becomes writable in the same round, the close is queued before the
  write-complete task; the write-complete callback then finds the closed connection not reading and
  calls \<open>startRead\<close>, which registers the closed connection's descriptor with epoll again; whatever
  is read next, \<open>handleRead\<close> fails its assertion and the process aborts.
\<close>

theorem read_after_close_aborts:
  assumes "conn_ok tid (l, c)" "state c = kConnected" "out c \<noteq> []" "pendingJobs l = []" "writeCompleteCb c"
    and "expiry c = Some t" "t \<le> now"
  shows "\<exists>l3 c3. bindR (echo_onTimeout tid now (l, c)) (\<lambda>w1. bindR (TcpConnection_handleWrite tid WriteOk w1)
       (doPendingJobs tid (run_conn_task (echo_user tid io timeout now) tid io))) = Inr (l3, c3)
     \<and> state c3 = kDisconnected \<and> isReading (chan c3)
     \<and> interest (ctl_log (poller l3)) Map.empty (chfd (chan c3)) = Some (events (chan c3))
     \<and> (\<forall>user rd. TcpConnection_handleRead user tid rd (l3, c3) = Inl AssertFailed)"
proof -
  let ?l1 = "queueInLoop tid ForceCloseInLoop l"
  let ?c1 = "c\<lparr>state := kDisconnecting, expiry := None\<rparr>"
  let ?user = "echo_user tid io timeout now"
  have 1: "echo_onTimeout tid now (l, c) = Inr (?l1, ?c1)"
    using assms(2,6,7)
    by (simp add: echo_onTimeout_def forceClose_def forceClose_exchange_def stateAtomicGetAndSet_def conn_queue_def)
  from echo_onTimeout_ok[OF assms(1), of now] 1 have ok1: "conn_ok tid (?l1, ?c1)" by auto
  have wr: "wr_ok WriteOk" by (simp add: wr_ok_def)
  have "live ?c1" "out ?c1 \<noteq> []" using assms(3) by simp_all
  from handleWrite_ok[OF ok1 this wr] assms(4,5) obtain l2 c2 where
    2: "TcpConnection_handleWrite tid WriteOk (?l1, ?c1) = Inr (l2, c2)" "conn_ok tid (l2, c2)"
    "state c2 = kDisconnecting" "pendingJobs l2 = [ForceCloseInLoop, WriteComplete]"
    by (fastforce simp: write_count_def)
  let ?l2 = "l2\<lparr>pendingJobs := [], doingPendingJobs := True\<rparr>"
  have ok2: "conn_ok tid (?l2, c2)" using 2(2) by (simp add: conn_ok_def loop_sync_def isInLoopThread_def)
  have live2: "live c2" using 2(3) by simp
  from echo_close_exact[OF ok2 live2, of io timeout now] obtain l' p where
    3: "handleClose ?user tid (?l2, c2)
       = Inr (l', c2\<lparr>state := kDisconnected, chan := (chan c2)\<lparr>events := 0, polling := p\<rparr>, expiry := None\<rparr>)"
    "conn_ok tid (l', c2\<lparr>state := kDisconnected, chan := (chan c2)\<lparr>events := 0, polling := p\<rparr>, expiry := None\<rparr>)" by blast
  let ?c3 = "c2\<lparr>state := kDisconnected, chan := (chan c2)\<lparr>events := 0, polling := p\<rparr>, expiry := None\<rparr>"
  from echo_onWriteComplete_ok[OF 3(2), of timeout now] obtain l4 ch e where
    4: "echo_onWriteComplete tid timeout now (l', ?c3) = Inr (l4, ?c3\<lparr>chan := ch, expiry := e\<rparr>)"
    "conn_ok tid (l4, ?c3\<lparr>chan := ch, expiry := e\<rparr>)" "isReading ch" by blast
  let ?w5 = "(l4\<lparr>doingPendingJobs := False\<rparr>, ?c3\<lparr>chan := ch, expiry := e\<rparr>)"
  have "run_conn_task ?user tid io ForceCloseInLoop (?l2, c2) = Inr (l', ?c3)"
    using 3(1) live2 conn_okD(1)[OF ok2] 2(3) by (simp add: forceCloseInLoop_def)
  then have 5: "doPendingJobs tid (run_conn_task ?user tid io) (l2, c2) = Inr ?w5"
    using 2(4) 4(1) conn_okD(1)[OF 2(2)] by (simp add: doPendingJobs_def Let_def echo_user_def)
  have "loop_sync [ch] l4" using conn_okD(2)[OF 4(2)] by simp
  then have "interest (ctl_log (poller l4)) Map.empty (chfd ch) = Some (events ch)"
    using 4(3) by (auto simp: loop_sync_def chan_sync_def isReading_bit split: if_splits)
  moreover have "TcpConnection_handleRead user tid rd ?w5 = Inl AssertFailed" for user :: "\<lparr>expiry :: timestamp option\<rparr> conn_user" and rd
    using conn_okD(1)[OF 4(2)] by (intro handleRead_closed) (simp_all add: isInLoopThread_def)
  ultimately show ?thesis using 1 2(1) 5 4(3)
    by (intro exI[of _ "l4\<lparr>doingPendingJobs := False\<rparr>"] exI[of _ "?c3\<lparr>chan := ch, expiry := e\<rparr>"]) simp
qed

text \<open>A connection with one byte of output that waits for writability.\<close>

definition busy_loop :: "conn_task eventloop" where
  "busy_loop = new_loop\<lparr>poller := \<lparr>evCapacity = 128,
     ctl_log = [\<lparr>ctl_op = EPOLL_CTL_ADD, ctl_fd = 5, ctl_events = 7\<rparr>]\<rparr>\<rparr>"

definition busy_conn :: echo_conn where
  "busy_conn = raw_conn\<lparr>state := kConnected, chan := (chan raw_conn)\<lparr>events := 7, polling := True\<rparr>,
     outputBuffer := \<lparr>bytes = replicate 16 0, readerIndex = 8, writerIndex = 9\<rparr>\<rparr>"

lemma busy_ok:
  "conn_ok 1 (busy_loop, busy_conn)" "state busy_conn = kConnected" "out busy_conn \<noteq> []"
  "pendingJobs busy_loop = []" "writeCompleteCb busy_conn" "expiry busy_conn = Some 3"
  "\<not> handlingEvents (chan busy_conn)" "CloseCb \<in> set (callbacks (chan busy_conn))" "ReadCb \<in> set (callbacks (chan busy_conn))"
proof -
  let ?b = "\<lparr>bytes = replicate 16 0, readerIndex = 8, writerIndex = 9\<rparr> :: buffer"
  have b1: "buf_ok ?b" using vec_max_ge by (simp add: buf_ok_def)
  have "length (content ?b) = 1" using length_content[OF b1] by simp
  then have b: "buf_ok ?b" "content ?b \<noteq> []" using b1 by auto
  have ch: "events (chan busy_conn) = 7" "polling (chan busy_conn)" "chfd (chan busy_conn) = 5"
    by (simp_all add: busy_conn_def raw_conn_def setCallBack_def Channel_new_def)
  have "bit (7 :: mask) 1" "bit (7 :: mask) 2" by simp_all
  then have bits: "bit (events (chan busy_conn)) 1" "isWriting (chan busy_conn)"
    by (simp_all only: ch isWriting_bit)
  have sync: "loop_sync [chan busy_conn] busy_loop"
    using ch by (simp add: loop_sync_def chan_sync_def busy_loop_def ctl_legal_def ctl_effect_def)
  show o: "out busy_conn \<noteq> []" "state busy_conn = kConnected" "pendingJobs busy_loop = []"
    "writeCompleteCb busy_conn" "expiry busy_conn = Some 3"
    using b(2) by (simp_all add: busy_conn_def busy_loop_def new_loop_def)
  show "\<not> handlingEvents (chan busy_conn)" "CloseCb \<in> set (callbacks (chan busy_conn))"
    "ReadCb \<in> set (callbacks (chan busy_conn))"
    by (simp_all add: busy_conn_def raw_conn_def setCallBack_def Channel_new_def)
  have "buf_ok (inputBuffer busy_conn)" "buf_ok (outputBuffer busy_conn)" "messageCb busy_conn" "closeCb busy_conn"
    using b(1) empty_buffer_ok(1) by (simp_all add: busy_conn_def raw_conn_def)
  moreover have "isInLoopThread 1 busy_loop" by (simp add: isInLoopThread_def busy_loop_def new_loop_def)
  ultimately show "conn_ok 1 (busy_loop, busy_conn)" using sync bits o by (simp add: conn_ok_def)
qed

theorem read_after_close_aborts_witness:
  "\<forall>io rd. \<exists>l c l3 c3. bindR (echo_onTimeout 1 4 (l, c)) (\<lambda>w1. bindR (TcpConnection_handleWrite 1 WriteOk w1)
       (doPendingJobs 1 (run_conn_task (echo_user 1 io 5 4) 1 io))) = Inr (l3, c3)
     \<and> state c = kConnected \<and> TcpConnection_handleRead (echo_user 1 io 5 4) 1 rd (l3, c3) = Inl AssertFailed"
proof (intro allI)
  fix io :: "conn_io" and rd :: "nat \<Rightarrow> sysread"
  have "3 \<le> (4 :: timestamp)" by simp
  from read_after_close_aborts[OF busy_ok(1-6) this, of io 5] busy_ok(2) show "\<exists>l c l3 c3. bindR (echo_onTimeout 1 4 (l, c)) (\<lambda>w1. bindR (TcpConnection_handleWrite 1 WriteOk w1)
       (doPendingJobs 1 (run_conn_task (echo_user 1 io 5 4) 1 io))) = Inr (l3, c3)
     \<and> state c = kConnected \<and> TcpConnection_handleRead (echo_user 1 io 5 4) 1 rd (l3, c3) = Inl AssertFailed" by blast
qed

text \<open>
  C24. Closing races with the loop. \<open>forceClose\<close> and \<open>shutdown\<close>, which any thread may call, test the
  state and then exchange it. When the loop's thread closes the connection between the two, the
  exchange brings the closed connection back to \<open>kDisconnecting\<close> and queues nothing, so nobody closes
  it again and its destructor's assertion fails; without the exchange it would have held.
\<close>

theorem close_race_aborts:
  assumes "conn_ok tid (l, c)" "live c" "\<not> handlingEvents (chan c)"
  shows "forceClose tid2 (l, c) = Inr (forceClose_exchange tid2 (l, c))
     \<and> TcpConnection_shutdown tid2 (l, c) = shutdown_exchange tid2 (l, c)
     \<and> (\<exists>w1. handleClose (echo_user tid io timeout now) tid (l, c) = Inr w1
         \<and> TcpConnection_delete (snd w1) = Inr ()
         \<and> pendingJobs (fst (forceClose_exchange tid2 w1)) = pendingJobs (fst w1)
         \<and> TcpConnection_delete (snd (forceClose_exchange tid2 w1)) = Inl AssertFailed
         \<and> (\<exists>w2. shutdown_exchange tid2 w1 = Inr w2 \<and> TcpConnection_delete (snd w2) = Inl AssertFailed))"
proof (intro conjI)
  show "forceClose tid2 (l, c) = Inr (forceClose_exchange tid2 (l, c))" using assms(2) by (auto simp: forceClose_def)
  show "TcpConnection_shutdown tid2 (l, c) = shutdown_exchange tid2 (l, c)"
    using assms(2) by (auto simp: TcpConnection_shutdown_def less_eq_conn_state_def)
  from echo_close_exact[OF assms(1,2), of io timeout now] obtain l' p where
    h: "handleClose (echo_user tid io timeout now) tid (l, c)
       = Inr (l', c\<lparr>state := kDisconnected, chan := (chan c)\<lparr>events := 0, polling := p\<rparr>, expiry := None\<rparr>)" by blast
  show "\<exists>w1. handleClose (echo_user tid io timeout now) tid (l, c) = Inr w1
         \<and> TcpConnection_delete (snd w1) = Inr ()
         \<and> pendingJobs (fst (forceClose_exchange tid2 w1)) = pendingJobs (fst w1)
         \<and> TcpConnection_delete (snd (forceClose_exchange tid2 w1)) = Inl AssertFailed
         \<and> (\<exists>w2. shutdown_exchange tid2 w1 = Inr w2 \<and> TcpConnection_delete (snd w2) = Inl AssertFailed)"
    by (rule exI, rule conjI, rule h)
       (use assms(3) in \<open>simp add: TcpConnection_delete_def Channel_delete_def forceClose_exchange_def
          shutdown_exchange_def stateAtomicGetAndSet_def\<close>)
qed

theorem close_race_aborts_witness:
  "\<forall>io. \<exists>l c w1. live c \<and> handleClose (echo_user 1 io 5 4) 1 (l, c) = Inr w1
     \<and> TcpConnection_delete (snd w1) = Inr ()
     \<and> TcpConnection_delete (snd (forceClose_exchange 2 w1)) = Inl AssertFailed"
proof (intro allI)
  fix io :: "conn_io"
  have "live busy_conn" using busy_ok(2) by simp
  from close_race_aborts[OF busy_ok(1) this busy_ok(7), of 2 io 5 4] this show "\<exists>l c w1. live c \<and> handleClose (echo_user 1 io 5 4) 1 (l, c) = Inr w1
     \<and> TcpConnection_delete (snd w1) = Inr ()
     \<and> TcpConnection_delete (snd (forceClose_exchange 2 w1)) = Inl AssertFailed" by blast
qed



end
