(* ===== verification/Acceptor.thy ===== *)
theory Acceptor
  imports EventLoop Inet_Address
begin

text \<open>
  \<open>leven/Acceptor.h\<close> and \<open>Acceptor.cc\<close>: the listening socket. The results of the system calls are
  arguments; \<open>accept4\<close> gives a descriptor with the peer's address, as the 16 bytes of its
  \<open>sockaddr_in\<close>, or an \<open>errno\<close>. The kernel stores at most \<open>len\<close> bytes of the address, and the code
  passes \<open>len = sizeof(char)\<close>; what the uninitialised \<open>addr\<close> held before is the argument \<open>stack\<close>.
  The new-connection callback works on the owner's state.
\<close>

record acceptor =
  listening :: bool
  acceptFd :: int
  acceptChannel :: channel
  acc_local :: inetaddr

datatype sysaccept = AcceptFail int | AcceptOk int "byte list"

definition ECONNABORTED :: int where "ECONNABORTED = 103"
definition EMFILE :: int where "EMFILE = 24"

definition createSocket :: "int \<Rightarrow> int result" where
  "createSocket r = (if r = -1 then Inl Aborted else Inr r)"

text \<open>The constructor, from the results of \<open>socket\<close>, the two \<open>setsockopt\<close> and \<open>bind\<close>.\<close>

definition Acceptor_new :: "int \<Rightarrow> int \<Rightarrow> int \<Rightarrow> int \<Rightarrow> inetaddr \<Rightarrow> acceptor result" where
  "Acceptor_new sock reuseaddr reuseport bnd loc =
     bindR (createSocket sock) (\<lambda>fd.
       let acc = \<lparr>listening = False, acceptFd = fd, acceptChannel = Channel_new fd, acc_local = loc\<rparr>
       in if reuseaddr = -1 then Inl Aborted
          else if reuseport = -1 then Inl Aborted
          else if bnd = -1 then Inl Aborted
          else Inr acc)"

definition Acceptor_listning :: "acceptor \<Rightarrow> bool" where
  "Acceptor_listning acc \<longleftrightarrow> listening acc"

definition Acceptor_listen :: "nat \<Rightarrow> int \<Rightarrow> 'task eventloop \<times> acceptor \<Rightarrow> ('task eventloop \<times> acceptor) result" where
  "Acceptor_listen tid ret w =
     assertInLoopThread tid (fst w)
       (if ret = -1 then Inl Aborted
        else bindR (chan_do EnableRead tid (setCallBack ReadCb (acceptChannel (snd w))) (fst w))
               (\<lambda>(ch, l). Inr (l, (snd w)\<lparr>acceptChannel := ch\<rparr>)))"

text \<open>The \<open>sockaddr_in\<close> in 16 bytes of memory.\<close>

definition sockaddr_of :: "byte list \<Rightarrow> inetaddr" where
  "sockaddr_of bs = \<lparr>sin_family = of_le_bytes (range_of bs 0 2), sin_port = of_le_bytes (range_of bs 2 2),
                     s_addr = of_le_bytes (range_of bs 4 4)\<rparr>"

definition store_addr :: "nat \<Rightarrow> byte list \<Rightarrow> byte list \<Rightarrow> byte list" where
  "store_addr len bs mem = overwrite mem 0 (take len bs)"

definition Acceptor_handleRead :: "nat \<Rightarrow> (int \<Rightarrow> inetaddr \<Rightarrow> inetaddr \<Rightarrow> 'task eventloop \<times> 'x \<Rightarrow> ('task eventloop \<times> 'x) result) option
    \<Rightarrow> acceptor \<Rightarrow> sysaccept \<Rightarrow> byte list \<Rightarrow> 'task eventloop \<times> 'x \<Rightarrow> ('task eventloop \<times> 'x) result" where
  "Acceptor_handleRead tid cb acc acc4 stack w =
     assertInLoopThread tid (fst w)
       (bindR (case acc4 of
                 AcceptOk fd bs \<Rightarrow> Inr (fd, store_addr 1 bs stack)
               | AcceptFail e \<Rightarrow> if e = ECONNABORTED \<or> e = EMFILE then Inr (-1, stack) else Inl Aborted)
         (\<lambda>(sockfd, addr).
            case cb of
              Some f \<Rightarrow> f sockfd (acc_local acc) (setAddress (sockaddr_of addr) (InetAddress_port 0 False)) w
            | None \<Rightarrow> Inr w))"

subsection \<open>The peer's address\<close>

text \<open>The bytes of an IPv4 socket address in memory, as the kernel delivers them.\<close>

definition sockaddr_bytes :: "inetaddr \<Rightarrow> byte list" where
  "sockaddr_bytes a = le_bytes 2 (sin_family a) @ le_bytes 2 (sin_port a) @ le_bytes 4 (s_addr a) @ replicate 8 0"

lemma sockaddr_of_bytes: "sockaddr_of (sockaddr_bytes a) = a"
  by (cases a) (simp add: sockaddr_of_def sockaddr_bytes_def range_of_def of_le_bytes_le_bytes)

text \<open>
  C26. The address of an accepted peer. Because the address length passed to \<open>accept4\<close> is one byte,
  the address handed to the new-connection callback does not depend on the peer: whatever the peer's
  IPv4 address and port are, the callback gets the same arguments, made of what was on the stack.
  With the full length it would get the peer's address.
\<close>

theorem accepted_peer_address_lost:
  assumes "sin_family a = AF_INET" "sin_family b = AF_INET" "length stack = 16"
  shows "Acceptor_handleRead tid cb acc (AcceptOk fd (sockaddr_bytes a)) stack w
       = Acceptor_handleRead tid cb acc (AcceptOk fd (sockaddr_bytes b)) stack w
     \<and> sin_port (sockaddr_of (store_addr 1 (sockaddr_bytes a) stack)) = sin_port (sockaddr_of stack)
     \<and> s_addr (sockaddr_of (store_addr 1 (sockaddr_bytes a) stack)) = s_addr (sockaddr_of stack)
     \<and> sockaddr_of (store_addr 16 (sockaddr_bytes a) stack) = a"
proof -
  have one: "take 1 (sockaddr_bytes x) = [2]" if "sin_family x = AF_INET" for x
    using that by (simp add: sockaddr_bytes_def le_bytes_def AF_INET_def upt_conv_Cons)
  have full: "store_addr 16 (sockaddr_bytes a) stack = sockaddr_bytes a"
    using assms(3) by (simp add: store_addr_def overwrite_def sockaddr_bytes_def)
  have far: "range_of (store_addr 1 bs stack) i n = range_of stack i n" if "take 1 bs = [2]" "1 \<le> i" for bs i n
    unfolding store_addr_def that(1) by (rule range_of_overwrite_after) (use that(2) assms(3) in simp_all)
  show ?thesis
    using one[OF assms(1)] one[OF assms(2)] full far[of "sockaddr_bytes a"]
    by (simp add: Acceptor_handleRead_def store_addr_def sockaddr_of_bytes) (simp add: sockaddr_of_def)
qed

theorem accepted_peer_address_lost_witness:
  "\<exists>a b acc. s_addr a \<noteq> s_addr b \<and>
     (\<forall>w :: nat eventloop \<times> inetaddr list. Acceptor_handleRead 1 (Some (\<lambda>fd loc peer w. Inr (fst w, snd w @ [peer]))) acc
        (AcceptOk 7 (sockaddr_bytes a)) (replicate 16 9) w
      = Acceptor_handleRead 1 (Some (\<lambda>fd loc peer w. Inr (fst w, snd w @ [peer]))) acc
        (AcceptOk 7 (sockaddr_bytes b)) (replicate 16 9) w)"
proof -
  let ?a = "InetAddress_port 80 False" and ?b = "InetAddress_port 80 True"
  have "sin_family ?a = AF_INET" "sin_family ?b = AF_INET" "length (replicate 16 (9 :: byte)) = 16"
    by (simp_all add: InetAddress_port_def Let_def)
  note same = conjunct1[OF accepted_peer_address_lost[OF this]]
  have "s_addr ?a \<noteq> s_addr ?b"
  proof
    assume "s_addr ?a = s_addr ?b"
    then have "bswap 4 (bswap 4 INADDR_ANY) = bswap 4 (bswap 4 INADDR_LOOPBACK)"
      by (simp add: InetAddress_port_def htobe32_def)
    then show False by (simp add: bswap_bswap INADDR_ANY_def INADDR_LOOPBACK_def)
  qed
  then show ?thesis using same
    by (intro exI[of _ ?a] exI[of _ ?b] exI[of _ "\<lparr>listening = False, acceptFd = 3, acceptChannel = Channel_new 3, acc_local = ?a\<rparr>"]) blast
qed

end
