(* ===== verification/Tcp_Server.thy ===== *)
theory Tcp_Server
  imports Conn_Failures Acceptor
begin

text \<open>
  \<open>leven/TcpServer.h\<close> and \<open>TcpServer.cc\<close>: connections are made from accepted sockets, kept in a set of
  shared pointers, and erased when they close. For one connection, \<open>in_set\<close> tells whether the set
  holds it, \<open>other_refs\<close> whether a shared pointer outside the set and the pending tasks does, and
  \<open>alive\<close> whether its object exists. When the last shared pointer goes, the destructors of the
  connection and of its channel run. The connection callback is the argument \<open>cb\<close> (\<open>None\<close> when it is
  not set).
\<close>

record srv_conn = tcpconn +
  in_set :: bool
  other_refs :: bool
  alive :: bool

type_synonym srv_world = "conn_task eventloop \<times> srv_conn"

record tcpserver =
  srv_acceptor :: acceptor
  srv_messageCb :: bool
  srv_writeCompleteCb :: bool

definition TcpServer_new :: "acceptor result \<Rightarrow> tcpserver result" where
  "TcpServer_new acc = bindR acc (\<lambda>a. Inr \<lparr>srv_acceptor = a, srv_messageCb = False, srv_writeCompleteCb = False\<rparr>)"

definition TcpServer_setMessageCallback :: "bool \<Rightarrow> tcpserver \<Rightarrow> tcpserver" where
  "TcpServer_setMessageCallback cb srv = srv\<lparr>srv_messageCb := cb\<rparr>"

definition TcpServer_setWriteCompleteCallback :: "bool \<Rightarrow> tcpserver \<Rightarrow> tcpserver" where
  "TcpServer_setWriteCompleteCallback cb srv = srv\<lparr>srv_writeCompleteCb := cb\<rparr>"

definition TcpServer_start :: "nat \<Rightarrow> int \<Rightarrow> 'task eventloop \<times> tcpserver \<Rightarrow> ('task eventloop \<times> tcpserver) result" where
  "TcpServer_start tid ret w =
     bindR (Acceptor_listen tid ret (fst w, srv_acceptor (snd w)))
       (\<lambda>(l, acc). Inr (l, (snd w)\<lparr>srv_acceptor := acc\<rparr>))"

definition conn_callback :: "(srv_world \<Rightarrow> srv_world result) option \<Rightarrow> srv_world \<Rightarrow> srv_world result" where
  "conn_callback cb w = (case cb of None \<Rightarrow> Inl BadFunctionCall | Some f \<Rightarrow> f w)"

definition TcpServer_newConnection :: "nat \<Rightarrow> tcpserver \<Rightarrow> (srv_world \<Rightarrow> srv_world result) option
    \<Rightarrow> int \<Rightarrow> inetaddr \<Rightarrow> inetaddr \<Rightarrow> conn_task eventloop \<Rightarrow> srv_world result" where
  "TcpServer_newConnection tid srv cb connfd loc peer l =
     assertInLoopThread tid l
       (bindR (TcpConnection_new connfd loc peer) (\<lambda>c.
          let conn = tcpconn.extend c \<lparr>in_set = True, other_refs = True, alive = True\<rparr>;
              conn = setMessageCallback (srv_messageCb srv) conn;
              conn = setWriteCompleteCallback (srv_writeCompleteCb srv) conn;
              conn = setCloseCallBack True conn
          in bindR (connectEstablished tid (l, conn)) (\<lambda>w.
               bindR (conn_callback cb w) (\<lambda>w1. Inr (fst w1, (snd w1)\<lparr>other_refs := False\<rparr>)))))"

definition TcpServer_closeConnection :: "nat \<Rightarrow> (srv_world \<Rightarrow> srv_world result) option \<Rightarrow> srv_world \<Rightarrow> srv_world result" where
  "TcpServer_closeConnection tid cb w =
     assertInLoopThread tid (fst w)
       (assertR (in_set (snd w)) (conn_callback cb (fst w, (snd w)\<lparr>in_set := False\<rparr>)))"

text \<open>
  The tasks of a connection hold a shared pointer to it, except those of \<open>stopRead\<close> and \<open>startRead\<close>,
  which capture \<open>this\<close>. \<open>release\<close> drops a temporary shared pointer, such as the argument
  \<open>shared_from_this()\<close> of the close callback.
\<close>

fun holds_ref :: "conn_task \<Rightarrow> bool" where
  "holds_ref StopRead = False"
| "holds_ref StartRead = False"
| "holds_ref _ = True"

definition release :: "srv_world \<Rightarrow> srv_world result" where
  "release w =
     (if in_set (snd w) \<or> other_refs (snd w) \<or> list_ex holds_ref (pendingJobs (fst w)) then Inr w
      else bindR (TcpConnection_delete (snd w)) (\<lambda>_. Inr (fst w, (snd w)\<lparr>alive := False\<rparr>)))"

text \<open>The user's callbacks with the server's close callback.\<close>

definition srv_user :: "nat \<Rightarrow> (srv_world \<Rightarrow> srv_world result) option
    \<Rightarrow> \<lparr>in_set :: bool, other_refs :: bool, alive :: bool\<rparr> conn_user
    \<Rightarrow> \<lparr>in_set :: bool, other_refs :: bool, alive :: bool\<rparr> conn_user" where
  "srv_user tid cb user =
     user\<lparr>on_close := (\<lambda>w. bindR (TcpServer_closeConnection tid cb w) release)\<rparr>"

text \<open>
  The pending tasks: while the batch runs, its tasks hold their shared pointers; they are dropped
  when \<open>doPendingJobs\<close> returns. A task of an object that is gone works on freed memory.
\<close>

definition srv_task :: "\<lparr>in_set :: bool, other_refs :: bool, alive :: bool\<rparr> conn_user \<Rightarrow> nat \<Rightarrow> conn_io \<Rightarrow> conn_task
    \<Rightarrow> srv_world \<Rightarrow> srv_world result" where
  "srv_task user tid io t w = (if alive (snd w) then run_conn_task user tid io t w else Inl UndefinedBehaviour)"

definition srv_pending :: "\<lparr>in_set :: bool, other_refs :: bool, alive :: bool\<rparr> conn_user \<Rightarrow> nat \<Rightarrow> conn_io
    \<Rightarrow> srv_world \<Rightarrow> srv_world result" where
  "srv_pending user tid io w =
     (let held = list_ex holds_ref (pendingJobs (fst w)); old = other_refs (snd w)
      in bindR (doPendingJobs tid (srv_task user tid io) (fst w, (snd w)\<lparr>other_refs := held \<or> old\<rparr>))
           (\<lambda>w1. release (fst w1, (snd w1)\<lparr>other_refs := old\<rparr>)))"

subsection \<open>Properties\<close>

lemma srv_conn_ok [simp]:
  "conn_ok tid (l, c\<lparr>in_set := a\<rparr>) = conn_ok tid (l, c)"
  "conn_ok tid (l, c\<lparr>other_refs := b\<rparr>) = conn_ok tid (l, c)"
  "conn_ok tid (l, c\<lparr>alive := b\<rparr>) = conn_ok tid (l, c)" for c :: srv_conn
  by (simp_all add: conn_ok_def)

lemma closed_by_peer:
  fixes c :: srv_conn
  assumes "conn_ok tid (l, c)" "live c" "in_set c" "\<not> other_refs c" "pendingJobs l = []"
    and "ReadCb \<in> set (callbacks (chan c))" "revents (chan c) = EPOLLIN" "io_read io = (\<lambda>_. ReadOk [])"
  shows "conn_handleEvents (srv_user tid (Some Inr) user) tid io (l, c) = Inl ChannelInUse"
proof -
  let ?u = "srv_user tid (Some Inr) user"
  let ?c = "c\<lparr>chan := (chan c)\<lparr>handlingEvents := True\<rparr>\<rparr>"
  note ok = conn_okD[OF assms(1)]
  have ok0: "conn_ok tid (l, ?c)"
    using assms(1) by (simp add: conn_ok_def loop_sync_def chan_sync_def isWriting_def)
  have live0: "live ?c" "state ?c \<noteq> kDisconnected" using assms(2) by auto
  have "length ([] :: byte list) \<le> writableBytes (inputBuffer c)" by simp
  from readFd_fits[where readv = "\<lambda>_. ReadOk []", OF ok(3) refl this] obtain b where
    b: "readFd (\<lambda>_. ReadOk []) (inputBuffer c) = Inr (0, b, None)" "buf_ok b" by auto
  have okb: "conn_ok tid (l, ?c\<lparr>inputBuffer := b\<rparr>)" using ok0 b(2) by (simp add: conn_ok_def)
  have liveb: "live (?c\<lparr>inputBuffer := b\<rparr>)" using live0 by simp
  from handleClose_exact[OF okb liveb] obtain l' p where
    h: "\<forall>user :: \<lparr>in_set :: bool, other_refs :: bool, alive :: bool\<rparr> conn_user.
      handleClose user tid (l, ?c\<lparr>inputBuffer := b\<rparr>) = on_close user (l', ?c\<lparr>inputBuffer := b, state := kDisconnected,
         chan := (chan ?c)\<lparr>events := 0, polling := p\<rparr>\<rparr>)"
    "conn_ok tid (l', ?c\<lparr>inputBuffer := b, state := kDisconnected, chan := (chan ?c)\<lparr>events := 0, polling := p\<rparr>\<rparr>)"
    "pendingJobs l' = pendingJobs l" by fastforce
  have "on_close ?u (l', ?c\<lparr>inputBuffer := b, state := kDisconnected, chan := (chan ?c)\<lparr>events := 0, polling := p\<rparr>\<rparr>)
      = Inl ChannelInUse"
    using conn_okD(1)[OF h(2)] assms(3-5) h(3)
    by (simp add: srv_user_def TcpServer_closeConnection_def conn_callback_def release_def
        TcpConnection_delete_def Channel_delete_def)
  with h(1) have "handleClose ?u tid (l, ?c\<lparr>inputBuffer := b\<rparr>) = Inl ChannelInUse" by simp
  then have r: "TcpConnection_handleRead ?u tid (io_read io) (l, ?c) = Inl ChannelInUse"
    using ok(1) live0(2) assms(8) b(1) by (simp add: TcpConnection_handleRead_def Let_def)
  have m: "\<not> wants_close EPOLLIN" "\<not> wants_error EPOLLIN" "wants_read EPOLLIN"
    by (simp_all add: wants_close_def wants_error_def wants_read_def epoll_bits)
  show "conn_handleEvents ?u tid io (l, c) = Inl ChannelInUse"
    using ok(1) r m assms(6,7) by (simp add: conn_handleEvents_def handleEventsWithGuard_def with_chan_def call_if_def)
qed

text \<open>
  A connection closed by the task of \<open>forceClose\<close>. While the batch runs, other threads may post tasks,
  here \<open>ts\<close> at the moment of the connection callback: the connection lives on when one of them holds
  a shared pointer to it.
\<close>

lemma closed_by_task:
  fixes c :: srv_conn
  assumes "conn_ok tid (l, c)" "live c" "alive c" "in_set c" "\<not> other_refs c" "\<not> handlingEvents (chan c)" "pendingJobs l = []"
    and cb: "\<And>l' c'. threadId l' = tid \<Longrightarrow> cb (l', c') = Inr (post l', c')"
    and post: "\<And>l'. threadId (post l') = threadId l' \<and> poller (post l') = poller l' \<and> pendingJobs (post l') = pendingJobs l' @ ts"
  shows "\<exists>l1 c1 l2 c2. forceClose tid (l, c) = Inr (l1, c1)
     \<and> srv_pending (srv_user tid (Some cb) user) tid io (l1, c1) = Inr (l2, c2)
     \<and> alive c2 = list_ex holds_ref ts \<and> \<not> in_set c2 \<and> \<not> other_refs c2 \<and> state c2 = kDisconnected
     \<and> threadId l2 = tid \<and> pendingJobs l2 = ts \<and> interest (ctl_log (poller l2)) Map.empty (chfd (chan c2)) = None"
proof -
  let ?u = "srv_user tid (Some cb) user"
  note ok = conn_okD[OF assms(1)]
  let ?l1 = "queueInLoop tid ForceCloseInLoop l" and ?c1 = "c\<lparr>state := kDisconnecting\<rparr>"
  have f: "forceClose tid (l, c) = Inr (?l1, ?c1)"
    using assms(2) by (auto simp: forceClose_def forceClose_exchange_def stateAtomicGetAndSet_def conn_queue_def)
  let ?l2 = "?l1\<lparr>pendingJobs := [], doingPendingJobs := True\<rparr>" and ?c2 = "?c1\<lparr>other_refs := True\<rparr>"
  have "conn_ok tid (l, ?c2)" using conn_ok_disconnecting[OF assms(1,2)] by (simp add: conn_ok_def)
  then have ok2: "conn_ok tid (?l2, ?c2)" by (simp add: conn_ok_def loop_sync_def isInLoopThread_def)
  have live2: "live ?c2" by simp
  from handleClose_exact[OF ok2 live2] obtain l' p where
    h: "\<forall>user :: \<lparr>in_set :: bool, other_refs :: bool, alive :: bool\<rparr> conn_user.
      handleClose user tid (?l2, ?c2) = on_close user (l', ?c2\<lparr>state := kDisconnected,
         chan := (chan ?c2)\<lparr>events := 0, polling := p\<rparr>\<rparr>)"
    "conn_ok tid (l', ?c2\<lparr>state := kDisconnected, chan := (chan ?c2)\<lparr>events := 0, polling := p\<rparr>\<rparr>)"
    "pendingJobs l' = pendingJobs ?l2" by blast
  let ?c3 = "?c2\<lparr>state := kDisconnected, chan := (chan ?c2)\<lparr>events := 0, polling := p\<rparr>\<rparr>"
  have l': "threadId l' = tid" using conn_okD(1)[OF h(2)] by (simp add: isInLoopThread_def)
  have cl: "handleClose ?u tid (?l2, ?c2) = Inr (post l', ?c3\<lparr>in_set := False\<rparr>)"
    using h(1) l' assms(4) cb[OF l']
    by (simp add: srv_user_def TcpServer_closeConnection_def conn_callback_def release_def isInLoopThread_def)
  have tid: "isInLoopThread tid ?l2" "isInLoopThread tid ?l1" using ok(1) by (simp_all add: isInLoopThread_def)
  let ?l3 = "(post l')\<lparr>doingPendingJobs := False\<rparr>"
  let ?c4 = "?c3\<lparr>in_set := False, other_refs := False, alive := list_ex holds_ref ts\<rparr>"
  have "srv_pending ?u tid io (?l1, ?c1) = Inr (?l3, ?c4)"
    using tid cl assms(3,5,6,7) h(3) post[of l']
    by (simp add: srv_pending_def srv_task_def doPendingJobs_def Let_def forceCloseInLoop_def release_def
        TcpConnection_delete_def Channel_delete_def)
  moreover have "interest (ctl_log (poller ?l3)) Map.empty (chfd (chan ?c4)) = None"
    using conn_okD(2)[OF h(2)] post[of l'] by (simp add: loop_sync_def chan_sync_def)
  moreover have "pendingJobs ?l3 = ts" "threadId ?l3 = tid" using post[of l'] h(3) l' by simp_all
  ultimately show ?thesis using f
    by (intro exI[of _ ?l1] exI[of _ ?c1] exI[of _ ?l3] exI[of _ ?c4]) simp
qed

text \<open>
  The end of a connection. When the peer closes, and nothing but the server's set holds the
  connection, the close callback erases the last shared pointer while the connection's channel is
  handling the event: the channel's destructor fails its assertion, whatever else the connection's
  state is. When the connection is closed by a task instead (\<open>forceClose\<close>), the task holds it until
  the batch is over and it is destroyed without a failure.
\<close>

theorem end_of_connection:
  assumes "conn_ok tid (l, c)" "live c" "alive c" "in_set c" "\<not> other_refs c" "\<not> handlingEvents (chan c)"
    and "ReadCb \<in> set (callbacks (chan c))" "revents (chan c) = EPOLLIN" "pendingJobs l = []"
    and "io_read io = (\<lambda>_. ReadOk [])"
  shows "conn_handleEvents (srv_user tid (Some Inr) user) tid io (l, c) = Inl ChannelInUse
     \<and> (\<exists>l1 c1 l2 c2. forceClose tid (l, c) = Inr (l1, c1)
         \<and> srv_pending (srv_user tid (Some Inr) user) tid io (l1, c1) = Inr (l2, c2)
         \<and> \<not> alive c2 \<and> \<not> in_set c2 \<and> state c2 = kDisconnected
         \<and> interest (ctl_log (poller l2)) Map.empty (chfd (chan c2)) = None)"
proof
  show "conn_handleEvents (srv_user tid (Some Inr) user) tid io (l, c) = Inl ChannelInUse"
    by (rule closed_by_peer) (use assms in simp_all)
  from closed_by_task[where post = "\<lambda>l. l" and ts = "[]" and cb = Inr and user = user and io = io, OF assms(1-6,9)]
  show "\<exists>l1 c1 l2 c2. forceClose tid (l, c) = Inr (l1, c1)
         \<and> srv_pending (srv_user tid (Some Inr) user) tid io (l1, c1) = Inr (l2, c2)
         \<and> \<not> alive c2 \<and> \<not> in_set c2 \<and> state c2 = kDisconnected
         \<and> interest (ctl_log (poller l2)) Map.empty (chfd (chan c2)) = None" by fastforce
qed

text \<open>
  C27. The tasks of \<open>stopRead\<close> and \<open>startRead\<close> capture \<open>this\<close>. When another thread calls one of them while
  the loop runs the task that closes the connection, the connection is destroyed at the end of that
  batch, and the task, which runs in the next one, works on freed memory. Any other task holds a
  shared pointer, and the connection is still there.
\<close>

theorem read_task_outlives_connection:
  assumes "conn_ok tid (l, c)" "live c" "alive c" "in_set c" "\<not> other_refs c" "\<not> handlingEvents (chan c)" "pendingJobs l = []"
    and "tid2 \<noteq> tid"
  shows "(\<forall>f \<in> {TcpConnection_stopRead, TcpConnection_startRead}. \<exists>l1 c1 l2 c2. forceClose tid (l, c) = Inr (l1, c1)
       \<and> srv_pending (srv_user tid (Some (f tid2)) user) tid io (l1, c1) = Inr (l2, c2) \<and> \<not> alive c2
       \<and> srv_pending (srv_user tid cb user) tid io2 (l2, c2) = Inl UndefinedBehaviour)
     \<and> (\<forall>t. holds_ref t \<longrightarrow> (\<exists>l1 c1 l2 c2. forceClose tid (l, c) = Inr (l1, c1)
       \<and> srv_pending (srv_user tid (Some (\<lambda>w. Inr (conn_queue tid2 t w))) user) tid io (l1, c1) = Inr (l2, c2) \<and> alive c2))"
proof -
  have posted: "\<exists>l1 c1 l2 c2. forceClose tid (l, c) = Inr (l1, c1)
     \<and> srv_pending (srv_user tid (Some cb') user) tid io (l1, c1) = Inr (l2, c2)
     \<and> alive c2 = holds_ref t \<and> threadId l2 = tid \<and> pendingJobs l2 = [t]"
    if "\<And>l' c'. threadId l' = tid \<Longrightarrow> cb' (l', c') = Inr (queueInLoop tid2 t l', c')" for cb' t
    using closed_by_task[where post = "queueInLoop tid2 t" and ts = "[t]" and cb = cb' and user = user and io = io, OF assms(1-7) that]
    by (fastforce simp: queueInLoop_def EventLoop_wakeup_def Let_def)
  have dead: "srv_pending (srv_user tid cb user) tid io2 (l2, c2) = Inl UndefinedBehaviour"
    if "threadId l2 = tid" "pendingJobs l2 = [t]" "\<not> alive c2" for l2 c2 t
    using that by (simp add: srv_pending_def doPendingJobs_def isInLoopThread_def srv_task_def Let_def)
  have "\<exists>l1 c1 l2 c2. forceClose tid (l, c) = Inr (l1, c1)
       \<and> srv_pending (srv_user tid (Some (f tid2)) user) tid io (l1, c1) = Inr (l2, c2) \<and> \<not> alive c2
       \<and> srv_pending (srv_user tid cb user) tid io2 (l2, c2) = Inl UndefinedBehaviour"
    if "f = TcpConnection_stopRead \<and> t = StopRead \<or> f = TcpConnection_startRead \<and> t = StartRead" for f t
  proof -
    have "f tid2 (l', c') = Inr (queueInLoop tid2 t l', c')" if "threadId l' = tid" for l' and c' :: srv_conn
      using that \<open>f = _ \<and> _ \<or> _\<close> assms(8)
      by (auto simp: TcpConnection_stopRead_def TcpConnection_startRead_def runInLoop_def isInLoopThread_def)
    moreover have "\<not> holds_ref t" using that by auto
    ultimately show ?thesis using posted[of "f tid2" t] dead by blast
  qed
  moreover have "\<exists>l1 c1 l2 c2. forceClose tid (l, c) = Inr (l1, c1)
       \<and> srv_pending (srv_user tid (Some (\<lambda>w. Inr (conn_queue tid2 t w))) user) tid io (l1, c1) = Inr (l2, c2) \<and> alive c2" if "holds_ref t" for t
    using posted[of "\<lambda>w. Inr (conn_queue tid2 t w)" t] that unfolding conn_queue_def by fastforce
  ultimately show ?thesis by blast
qed

definition idle_srv_conn :: srv_conn where
  "idle_srv_conn = tcpconn.extend (tcpconn.truncate busy_conn) \<lparr>in_set = True, other_refs = False, alive = True\<rparr>
     \<lparr>chan := setRevents EPOLLIN (chan busy_conn)\<rparr>"

lemma idle_srv_conn_simps [simp]:
  "chan idle_srv_conn = setRevents EPOLLIN (chan busy_conn)" "state idle_srv_conn = kConnected"
  "inputBuffer idle_srv_conn = inputBuffer busy_conn" "outputBuffer idle_srv_conn = outputBuffer busy_conn"
  "messageCb idle_srv_conn = messageCb busy_conn" "closeCb idle_srv_conn = closeCb busy_conn"
  "alive idle_srv_conn" "in_set idle_srv_conn" "\<not> other_refs idle_srv_conn"
  using busy_ok(2) by (simp_all add: idle_srv_conn_def tcpconn.defs)

lemma idle_srv_conn_ok: "conn_ok 1 (busy_loop, idle_srv_conn)"
  using busy_ok(1,2) by (simp add: conn_ok_def loop_sync_def chan_sync_def setRevents_def isWriting_def)

definition idle_io :: conn_io where
  "idle_io = \<lparr>io_read = (\<lambda>_. ReadOk []), io_write = WriteOk\<rparr>"

theorem end_of_connection_witness:
  "\<forall>user. \<exists>l (c :: srv_conn). state c = kConnected \<and> revents (chan c) = EPOLLIN
     \<and> conn_handleEvents (srv_user 1 (Some Inr) user) 1 idle_io (l, c) = Inl ChannelInUse"
proof
  fix user :: "\<lparr>in_set :: bool, other_refs :: bool, alive :: bool\<rparr> conn_user"
  have "conn_ok 1 (busy_loop, idle_srv_conn)" by (rule idle_srv_conn_ok)
  moreover have "live idle_srv_conn" "alive idle_srv_conn" "in_set idle_srv_conn" "\<not> other_refs idle_srv_conn" by simp_all
  moreover have "\<not> handlingEvents (chan idle_srv_conn)" "ReadCb \<in> set (callbacks (chan idle_srv_conn))"
    "revents (chan idle_srv_conn) = EPOLLIN" using busy_ok(7,9) by (simp_all add: setRevents_def)
  moreover have "io_read idle_io = (\<lambda>_. ReadOk [])" by (simp add: idle_io_def)
  ultimately have "conn_handleEvents (srv_user 1 (Some Inr) user) 1 idle_io (busy_loop, idle_srv_conn) = Inl ChannelInUse"
    using end_of_connection[of 1 busy_loop idle_srv_conn idle_io user] busy_ok(4) by blast
  then show "\<exists>l (c :: srv_conn). state c = kConnected \<and> revents (chan c) = EPOLLIN
     \<and> conn_handleEvents (srv_user 1 (Some Inr) user) 1 idle_io (l, c) = Inl ChannelInUse"
    by (intro exI[of _ busy_loop] exI[of _ idle_srv_conn]) (simp add: setRevents_def)
qed

theorem read_task_outlives_connection_witness:
  "\<forall>user. \<exists>l1 c1 l2 (c2 :: srv_conn). srv_pending (srv_user 1 (Some (TcpConnection_stopRead 2)) user) 1 idle_io (l1, c1) = Inr (l2, c2)
     \<and> srv_pending (srv_user 1 None user) 1 idle_io (l2, c2) = Inl UndefinedBehaviour"
proof
  fix user :: "\<lparr>in_set :: bool, other_refs :: bool, alive :: bool\<rparr> conn_user"
  have "conn_ok 1 (busy_loop, idle_srv_conn)" by (rule idle_srv_conn_ok)
  moreover have "live idle_srv_conn" "\<not> handlingEvents (chan idle_srv_conn)" using busy_ok(7,9) by (simp_all add: setRevents_def)
  ultimately show "\<exists>l1 c1 l2 (c2 :: srv_conn). srv_pending (srv_user 1 (Some (TcpConnection_stopRead 2)) user) 1 idle_io (l1, c1) = Inr (l2, c2)
     \<and> srv_pending (srv_user 1 None user) 1 idle_io (l2, c2) = Inl UndefinedBehaviour"
    using read_task_outlives_connection[of 1 busy_loop idle_srv_conn 2 user idle_io None idle_io] busy_ok(4) by fastforce
qed

text \<open>
  The server behind the acceptor: what \<open>handleRead\<close> of the acceptor does when its callback is the
  server's \<open>newConnection\<close>. The result is the new connection.
\<close>

definition accept_connection :: "nat \<Rightarrow> tcpserver \<Rightarrow> (srv_world \<Rightarrow> srv_world result) option \<Rightarrow> sysaccept \<Rightarrow> byte list
    \<Rightarrow> conn_task eventloop \<Rightarrow> (conn_task eventloop \<times> srv_conn option) result" where
  "accept_connection tid srv cb acc4 stack l =
     Acceptor_handleRead tid (Some (\<lambda>connfd loc peer w.
         bindR (TcpServer_newConnection tid srv cb connfd loc peer (fst w)) (\<lambda>(l, c). Inr (l, Some c))))
       (srv_acceptor srv) acc4 stack (l, None)"

lemma newConnection_ok:
  assumes "isInLoopThread tid l" "all_legal (ctl_log (poller l)) Map.empty"
    and "interest (ctl_log (poller l)) Map.empty fd = None" "srv_messageCb srv"
    and "\<forall>data. SendInLoop data \<in> set (pendingJobs l) \<longrightarrow> length data \<le> vec_max"
  shows "\<exists>l' c. TcpServer_newConnection tid srv (Some Inr) fd loc peer l = Inr (l', c)
     \<and> conn_ok tid (l', c) \<and> state c = kConnected \<and> isReading (chan c) \<and> in_set c \<and> peer_addr c = peer
     \<and> local_addr c = loc \<and> interest (ctl_log (poller l')) Map.empty fd \<noteq> None"
proof -
  have "kInitialSize + 8 \<le> vec_max" using vec_max_ge by simp
  from Buffer_new_ok[OF this] obtain b where b: "Buffer_new kInitialSize = Inr b" "buf_ok b" "content b = []" by blast
  let ?ch = "setCallBack ErrorCb (setCallBack CloseCb (setCallBack WriteCb (setCallBack ReadCb (Channel_new fd))))"
  let ?c = "\<lparr>chan = ?ch, state = kConnecting, local_addr = loc, peer_addr = peer, inputBuffer = b, outputBuffer = b,
      highWaterMark = 0, messageCb = True, writeCompleteCb = srv_writeCompleteCb srv, highWaterMarkCb = False,
      closeCb = True, wire = [], shutdownWr = False, in_set = True, other_refs = True, alive = True\<rparr> :: srv_conn"
  have new: "TcpConnection_new fd loc peer = Inr (tcpconn.truncate (?c\<lparr>messageCb := False, writeCompleteCb := False, closeCb := False\<rparr>))"
    using b(1) by (simp add: TcpConnection_new_def tcpconn.defs del: kInitialSize_def)
  have sync: "loop_sync [chan ?c] l"
    using assms(2,3) by (simp add: loop_sync_def chan_sync_def setCallBack_def Channel_new_def)
  have w: "\<not> isWriting (chan ?c)" by (simp add: isWriting_def setCallBack_def Channel_new_def)
  from connectEstablished_ok[OF assms(1) sync] b w assms(5) obtain l' ch where
    e: "connectEstablished tid (l, ?c) = Inr (l', ?c\<lparr>state := kConnected, chan := ch\<rparr>)"
    "conn_ok tid (l', ?c\<lparr>state := kConnected, chan := ch\<rparr>)" "isReading ch" by auto
  have "TcpServer_newConnection tid srv (Some Inr) fd loc peer l
      = Inr (l', ?c\<lparr>state := kConnected, chan := ch, other_refs := False\<rparr>)"
    using assms(1,4) e(1) by (simp add: TcpServer_newConnection_def new tcpconn.defs setMessageCallback_def
        setWriteCompleteCallback_def setCloseCallBack_def conn_callback_def Let_def)
  moreover have "conn_ok tid (l', ?c\<lparr>state := kConnected, chan := ch, other_refs := False\<rparr>)"
    using e(2) by (simp add: conn_ok_def)
  moreover have "chfd ch = fd"
    using e(1) by (auto simp: connectEstablished_def conn_chan_def Channel_tie_def result_iffs setCallBack_def
        Channel_new_def dest!: chan_do_keeps(1))
  then have "interest (ctl_log (poller l')) Map.empty fd \<noteq> None"
    using conn_okD(2)[OF e(2)] e(3) by (auto simp: loop_sync_def chan_sync_def isReading_bit)
  ultimately show ?thesis using e(3)
    by (intro exI[of _ l'] exI[of _ "?c\<lparr>state := kConnected, chan := ch, other_refs := False\<rparr>"]) simp
qed



end
