(* ===== verification/Thread_Pool.thy ===== *)
theory Thread_Pool
  imports Steps "HOL-Library.Multiset"
begin

text \<open>
  \<open>leven/util/ThreadPool.h\<close> and \<open>ThreadPool.cc\<close>: a bounded task queue served by worker threads, as a
  step relation. The state has the queue, the flag \<open>running_\<close>, the owner of the mutex, and for each
  worker, each producer (a thread that calls \<open>runTask\<close>) and the thread that calls \<open>stop\<close> where it is
  in the code. A step is what happens atomically: taking the mutex, testing the loop conditions
  under it, going to sleep (which releases it), one notification with the unlock after it, and the
  store to \<open>running_\<close>, which \<open>stop\<close> makes without the mutex. A sleeping thread may also wake up
  spuriously. With no worker threads \<open>runTask\<close> runs the task itself. A call of \<open>runTask\<close> or \<open>stop\<close> when
  \<open>running_\<close> is false fails the assertion and ends the process: there is no step for it. The
  thread-initialisation callback runs before the loop and touches nothing of the pool. Tasks are numbers; \<open>pushed\<close>, \<open>taken\<close> and \<open>executed\<close> record what happened.
\<close>

datatype worker_pc = WCheck | WLock | WTest | WSleep | WWaiting | WRun nat | WExited
datatype producer_pc = PIdle | PLock nat | PTest nat | PSleep nat | PWaiting nat
datatype stop_pc = SIdle | SLock | SNotify | SJoin | SDone
datatype owner = Free | Worker nat | Producer nat | Stopper

record pool =
  numThreads :: nat
  maxQueueSize :: nat
  running :: bool
  taskQueue :: "nat list"
  mutex :: owner
  worker :: "nat \<Rightarrow> worker_pc"
  producer :: "nat \<Rightarrow> producer_pc"
  stopper :: stop_pc
  pushed :: "nat list"
  taken :: "nat list"
  executed :: "nat list"

definition ThreadPool_new :: "nat \<Rightarrow> nat \<Rightarrow> pool result" where
  "ThreadPool_new numThread maxSize =
     assertR (maxSize > 0)
       (Inr \<lparr>numThreads = numThread, maxQueueSize = maxSize, running = True, taskQueue = [], mutex = Free,
             worker = (\<lambda>_. WCheck), producer = (\<lambda>_. PIdle), stopper = SIdle,
             pushed = [], taken = [], executed = []\<rparr>)"

definition notify_worker :: "pool \<Rightarrow> (nat \<Rightarrow> worker_pc) \<Rightarrow> bool" where
  "notify_worker s w \<longleftrightarrow>
     (\<exists>i < numThreads s. worker s i = WWaiting \<and> w = (worker s)(i := WLock))
     \<or> ((\<forall>i < numThreads s. worker s i \<noteq> WWaiting) \<and> w = worker s)"

definition notify_producer :: "pool \<Rightarrow> (nat \<Rightarrow> producer_pc) \<Rightarrow> bool" where
  "notify_producer s p \<longleftrightarrow>
     (\<exists>k t. producer s k = PWaiting t \<and> p = (producer s)(k := PLock t))
     \<or> ((\<forall>k t. producer s k \<noteq> PWaiting t) \<and> p = producer s)"

inductive pool_step :: "pool \<Rightarrow> pool \<Rightarrow> bool" where
  w_check: "i < numThreads s \<Longrightarrow> worker s i = WCheck \<Longrightarrow>
     pool_step s (s\<lparr>worker := (worker s)(i := (if running s then WLock else WExited))\<rparr>)"
| w_lock: "i < numThreads s \<Longrightarrow> worker s i = WLock \<Longrightarrow> mutex s = Free \<Longrightarrow>
     pool_step s (s\<lparr>worker := (worker s)(i := WTest), mutex := Worker i\<rparr>)"
| w_sleep: "i < numThreads s \<Longrightarrow> worker s i = WTest \<Longrightarrow> taskQueue s = [] \<Longrightarrow> running s \<Longrightarrow>
     pool_step s (s\<lparr>worker := (worker s)(i := WSleep)\<rparr>)"
| w_wait: "i < numThreads s \<Longrightarrow> worker s i = WSleep \<Longrightarrow>
     pool_step s (s\<lparr>worker := (worker s)(i := WWaiting), mutex := Free\<rparr>)"
| w_spurious: "i < numThreads s \<Longrightarrow> worker s i = WWaiting \<Longrightarrow>
     pool_step s (s\<lparr>worker := (worker s)(i := WLock)\<rparr>)"
| w_take: "i < numThreads s \<Longrightarrow> worker s i = WTest \<Longrightarrow> taskQueue s = t # ts \<Longrightarrow> notify_producer s p \<Longrightarrow>
     pool_step s (s\<lparr>taskQueue := ts, worker := (worker s)(i := WRun t), producer := p, mutex := Free,
                    taken := taken s @ [t]\<rparr>)"
| w_none: "i < numThreads s \<Longrightarrow> worker s i = WTest \<Longrightarrow> taskQueue s = [] \<Longrightarrow> \<not> running s \<Longrightarrow>
     pool_step s (s\<lparr>worker := (worker s)(i := WCheck), mutex := Free\<rparr>)"
| w_run: "i < numThreads s \<Longrightarrow> worker s i = WRun t \<Longrightarrow>
     pool_step s (s\<lparr>worker := (worker s)(i := WCheck), executed := executed s @ [t]\<rparr>)"
| p_inline: "numThreads s = 0 \<Longrightarrow> running s \<Longrightarrow> pool_step s (s\<lparr>executed := executed s @ [t]\<rparr>)"
| p_call: "producer s k = PIdle \<Longrightarrow> running s \<Longrightarrow> 0 < numThreads s \<Longrightarrow>
     pool_step s (s\<lparr>producer := (producer s)(k := PLock t)\<rparr>)"
| p_lock: "producer s k = PLock t \<Longrightarrow> mutex s = Free \<Longrightarrow>
     pool_step s (s\<lparr>producer := (producer s)(k := PTest t), mutex := Producer k\<rparr>)"
| p_full: "producer s k = PTest t \<Longrightarrow> length (taskQueue s) \<ge> maxQueueSize s \<Longrightarrow>
     pool_step s (s\<lparr>producer := (producer s)(k := PSleep t)\<rparr>)"
| p_wait: "producer s k = PSleep t \<Longrightarrow>
     pool_step s (s\<lparr>producer := (producer s)(k := PWaiting t), mutex := Free\<rparr>)"
| p_spurious: "producer s k = PWaiting t \<Longrightarrow>
     pool_step s (s\<lparr>producer := (producer s)(k := PLock t)\<rparr>)"
| p_push: "producer s k = PTest t \<Longrightarrow> \<not> length (taskQueue s) \<ge> maxQueueSize s \<Longrightarrow> notify_worker s w \<Longrightarrow>
     pool_step s (s\<lparr>taskQueue := taskQueue s @ [t], producer := (producer s)(k := PIdle), worker := w,
                    mutex := Free, pushed := pushed s @ [t]\<rparr>)"
| s_set: "stopper s = SIdle \<Longrightarrow> running s \<Longrightarrow> pool_step s (s\<lparr>running := False, stopper := SLock\<rparr>)"
| s_lock: "stopper s = SLock \<Longrightarrow> mutex s = Free \<Longrightarrow> pool_step s (s\<lparr>stopper := SNotify, mutex := Stopper\<rparr>)"
| s_notify: "stopper s = SNotify \<Longrightarrow>
     pool_step s (s\<lparr>worker := (\<lambda>i. if worker s i = WWaiting then WLock else worker s i), mutex := Free, stopper := SJoin\<rparr>)"
| s_join: "stopper s = SJoin \<Longrightarrow> \<forall>i < numThreads s. worker s i = WExited \<Longrightarrow> pool_step s (s\<lparr>stopper := SDone\<rparr>)"

definition pool_start :: "pool \<Rightarrow> bool" where
  "pool_start s \<longleftrightarrow> (\<exists>n m. 0 < n \<and> ThreadPool_new n m = Inr s)"

subsection \<open>Invariants\<close>

definition busy_tasks :: "(nat \<Rightarrow> worker_pc) \<Rightarrow> nat \<Rightarrow> nat multiset" where
  "busy_tasks w n = (\<Sum>i < n. case w i of WRun t \<Rightarrow> {#t#} | _ \<Rightarrow> {#})"

definition awake :: "worker_pc \<Rightarrow> bool" where
  "awake pc \<longleftrightarrow> pc \<noteq> WSleep \<and> pc \<noteq> WWaiting \<and> pc \<noteq> WExited"

text \<open>Who holds the mutex.\<close>

definition mutex_inv :: "pool \<Rightarrow> bool" where
  "mutex_inv s \<longleftrightarrow> (\<forall>i. worker s i = WTest \<or> worker s i = WSleep \<longrightarrow> mutex s = Worker i)
     \<and> (\<forall>k t. producer s k = PTest t \<or> producer s k = PSleep t \<longrightarrow> mutex s = Producer k)
     \<and> (stopper s = SNotify \<longrightarrow> mutex s = Stopper)
     \<and> (\<forall>i \<ge> numThreads s. worker s i = WCheck)"

definition queue_inv :: "pool \<Rightarrow> bool" where
  "queue_inv s \<longleftrightarrow> length (taskQueue s) \<le> maxQueueSize s \<and> pushed s = taken s @ taskQueue s
     \<and> mset (taken s) = mset (executed s) + busy_tasks (worker s) (numThreads s)"

definition wake_inv :: "pool \<Rightarrow> bool" where
  "wake_inv s \<longleftrightarrow> 0 < numThreads s \<and> running s = (stopper s = SIdle)
     \<and> (\<forall>i. worker s i = WExited \<longrightarrow> \<not> running s)
     \<and> (\<forall>i. worker s i = WSleep \<longrightarrow> taskQueue s = [])
     \<and> (stopper s = SJoin \<or> stopper s = SDone \<longrightarrow> (\<forall>i. worker s i \<noteq> WSleep \<and> worker s i \<noteq> WWaiting))
     \<and> (running s \<and> taskQueue s \<noteq> [] \<longrightarrow> (\<exists>i < numThreads s. awake (worker s i)))"

definition pool_inv :: "pool \<Rightarrow> bool" where
  "pool_inv s \<longleftrightarrow> mutex_inv s \<and> queue_inv s \<and> wake_inv s"

lemma busy_tasks_other:
  assumes "\<And>t. w i \<noteq> WRun t" "\<And>t. pc \<noteq> WRun t"
  shows "busy_tasks (w(i := pc)) n = busy_tasks w n"
  unfolding busy_tasks_def using assms by (intro sum.cong) (auto split: worker_pc.split)

lemma busy_tasks_split:
  assumes "i < n"
  shows "busy_tasks w n = (case w i of WRun t \<Rightarrow> {#t#} | _ \<Rightarrow> {#}) + (\<Sum>j \<in> {..<n} - {i}. case w j of WRun t \<Rightarrow> {#t#} | _ \<Rightarrow> {#})"
  unfolding busy_tasks_def using assms by (subst sum.remove[of _ i]) auto

lemma busy_tasks_upd:
  assumes "i < n"
  shows "busy_tasks (w(i := pc)) n + (case w i of WRun t \<Rightarrow> {#t#} | _ \<Rightarrow> {#})
       = busy_tasks w n + (case pc of WRun t \<Rightarrow> {#t#} | _ \<Rightarrow> {#})"
proof -
  have "(\<Sum>j \<in> {..<n} - {i}. case (w(i := pc)) j of WRun t \<Rightarrow> {#t#} | _ \<Rightarrow> {#})
      = (\<Sum>j \<in> {..<n} - {i}. case w j of WRun t \<Rightarrow> {#t#} | _ \<Rightarrow> {#})"
    by (rule sum.cong) auto
  then show ?thesis
    by (simp add: busy_tasks_split[OF assms, of w] busy_tasks_split[OF assms, of "w(i := pc)"] ac_simps)
qed

lemma pool_inv_start: "pool_start s \<Longrightarrow> pool_inv s"
  by (auto simp: pool_start_def ThreadPool_new_def assertR_Inr_iff pool_inv_def mutex_inv_def queue_inv_def wake_inv_def
      busy_tasks_def)

text \<open>What a notification does to the workers and producers.\<close>

lemma notify_workerD:
  assumes "notify_worker s w"
  shows "busy_tasks w n = busy_tasks (worker s) n"
    "(w i = WTest) = (worker s i = WTest)" "(w i = WSleep) = (worker s i = WSleep)" "(w i = WExited) = (worker s i = WExited)"
    "w i = WWaiting \<Longrightarrow> worker s i = WWaiting" "i \<ge> numThreads s \<Longrightarrow> w i = worker s i"
    "awake (worker s i) \<Longrightarrow> awake (w i)"
    "(\<exists>i < numThreads s. awake (w i)) \<or> (\<forall>i < numThreads s. worker s i = WSleep \<or> worker s i = WExited)"
proof -
  consider (woken) j where "j < numThreads s" "worker s j = WWaiting" "w = (worker s)(j := WLock)"
    | (none) "\<forall>i < numThreads s. worker s i \<noteq> WWaiting" "w = worker s"
    using assms by (auto simp: notify_worker_def)
  then have "busy_tasks w n = busy_tasks (worker s) n
    \<and> (w i = WTest) = (worker s i = WTest) \<and> (w i = WSleep) = (worker s i = WSleep) \<and> (w i = WExited) = (worker s i = WExited)
    \<and> (w i = WWaiting \<longrightarrow> worker s i = WWaiting) \<and> (i \<ge> numThreads s \<longrightarrow> w i = worker s i)
    \<and> (awake (worker s i) \<longrightarrow> awake (w i))
    \<and> ((\<exists>i < numThreads s. awake (w i)) \<or> (\<forall>i < numThreads s. worker s i = WSleep \<or> worker s i = WExited))"
  proof cases
    case woken
    then have "busy_tasks w n = busy_tasks (worker s) n" by (simp add: busy_tasks_other)
    with woken show ?thesis by (auto simp: awake_def)
  next
    case none
    then show ?thesis by (auto simp: awake_def)
  qed
  then show "busy_tasks w n = busy_tasks (worker s) n"
    "(w i = WTest) = (worker s i = WTest)" "(w i = WSleep) = (worker s i = WSleep)" "(w i = WExited) = (worker s i = WExited)"
    "w i = WWaiting \<Longrightarrow> worker s i = WWaiting" "i \<ge> numThreads s \<Longrightarrow> w i = worker s i"
    "awake (worker s i) \<Longrightarrow> awake (w i)"
    "(\<exists>i < numThreads s. awake (w i)) \<or> (\<forall>i < numThreads s. worker s i = WSleep \<or> worker s i = WExited)"
    by blast+
qed

lemma notify_producerD:
  assumes "notify_producer s p"
  shows "(p k = PTest t) = (producer s k = PTest t)" "(p k = PSleep t) = (producer s k = PSleep t)"
  using assms by (auto simp: notify_producer_def split: if_splits)

lemma mutex_invD:
  assumes "mutex_inv s"
  shows "worker s i = WTest \<Longrightarrow> mutex s = Worker i" "worker s i = WSleep \<Longrightarrow> mutex s = Worker i"
    "producer s k = PTest t \<Longrightarrow> mutex s = Producer k" "producer s k = PSleep t \<Longrightarrow> mutex s = Producer k"
    "stopper s = SNotify \<Longrightarrow> mutex s = Stopper" "i \<ge> numThreads s \<Longrightarrow> worker s i = WCheck"
  using assms unfolding mutex_inv_def by blast+

lemma mutex_invI:
  assumes "\<And>i. worker s i = WTest \<Longrightarrow> mutex s = Worker i" "\<And>i. worker s i = WSleep \<Longrightarrow> mutex s = Worker i"
    "\<And>k t. producer s k = PTest t \<Longrightarrow> mutex s = Producer k" "\<And>k t. producer s k = PSleep t \<Longrightarrow> mutex s = Producer k"
    "stopper s = SNotify \<Longrightarrow> mutex s = Stopper" "\<And>i. i \<ge> numThreads s \<Longrightarrow> worker s i = WCheck"
  shows "mutex_inv s"
  using assms unfolding mutex_inv_def by blast

lemma mutex_others:
  assumes "mutex_inv s"
  shows "mutex s = Worker i \<Longrightarrow> (\<forall>j. j \<noteq> i \<longrightarrow> worker s j \<noteq> WTest \<and> worker s j \<noteq> WSleep)
      \<and> (\<forall>k t. producer s k \<noteq> PTest t \<and> producer s k \<noteq> PSleep t) \<and> stopper s \<noteq> SNotify"
    "mutex s = Producer k \<Longrightarrow> (\<forall>j. worker s j \<noteq> WTest \<and> worker s j \<noteq> WSleep)
      \<and> (\<forall>l t. l \<noteq> k \<longrightarrow> producer s l \<noteq> PTest t \<and> producer s l \<noteq> PSleep t) \<and> stopper s \<noteq> SNotify"
    "mutex s = Stopper \<or> mutex s = Free \<Longrightarrow> (\<forall>j. worker s j \<noteq> WTest \<and> worker s j \<noteq> WSleep)
      \<and> (\<forall>l t. producer s l \<noteq> PTest t \<and> producer s l \<noteq> PSleep t)"
    "mutex s = Free \<Longrightarrow> stopper s \<noteq> SNotify"
  using assms unfolding mutex_inv_def by (metis owner.inject owner.distinct)+

lemma mutex_inv_step:
  assumes "pool_step s t" "mutex_inv s"
  shows "mutex_inv t"
  using assms(1)
proof (cases rule: pool_step.cases)
  case (w_take i tk ts p)
  show ?thesis unfolding w_take(1)
    using mutex_others(1)[OF assms(2) mutex_invD(1)[OF assms(2) w_take(3)]] notify_producerD[OF w_take(5)] w_take(2)
    by (intro mutex_invI) (auto intro: mutex_invD[OF assms(2)] split: if_splits)
next
  case (p_push k tk w)
  show ?thesis unfolding p_push(1)
    using mutex_others(2)[OF assms(2) mutex_invD(3)[OF assms(2) p_push(2)]] notify_workerD(2,3,6)[OF p_push(4)]
    by (intro mutex_invI) (auto intro: mutex_invD[OF assms(2)] split: if_splits)
next
  case (w_sleep i)
  then show ?thesis
    using mutex_others(1)[OF assms(2) mutex_invD(1)[OF assms(2) w_sleep(3)]] mutex_invD(1)[OF assms(2) w_sleep(3)]
    by (intro mutex_invI) (auto intro: mutex_invD[OF assms(2)] split: if_splits)
next
  case (w_wait i)
  then show ?thesis using mutex_others(1)[OF assms(2) mutex_invD(2)[OF assms(2) w_wait(3)]]
    by (intro mutex_invI) (auto intro: mutex_invD[OF assms(2)] split: if_splits)
next
  case (w_none i)
  then show ?thesis using mutex_others(1)[OF assms(2) mutex_invD(1)[OF assms(2) w_none(3)]]
    by (intro mutex_invI) (auto intro: mutex_invD[OF assms(2)] split: if_splits)
next
  case (p_full k tk)
  then show ?thesis
    using mutex_others(2)[OF assms(2) mutex_invD(3)[OF assms(2) p_full(2)]] mutex_invD(3)[OF assms(2) p_full(2)]
    by (intro mutex_invI) (auto intro: mutex_invD[OF assms(2)] split: if_splits)
next
  case (p_wait k tk)
  then show ?thesis using mutex_others(2)[OF assms(2) mutex_invD(4)[OF assms(2) p_wait(2)]]
    by (intro mutex_invI) (auto intro: mutex_invD[OF assms(2)] split: if_splits)
next
  case s_notify
  then show ?thesis
    using mutex_others(3)[OF assms(2)] mutex_invD(5)[OF assms(2) s_notify(2)] mutex_invD(6)[OF assms(2)]
    by (intro mutex_invI) (auto intro: mutex_invD[OF assms(2)] split: if_splits)
next
  case (w_lock i)
  then show ?thesis using mutex_others(3,4)[OF assms(2)]
    by (intro mutex_invI) (auto intro: mutex_invD[OF assms(2)] split: if_splits)
next
  case (p_lock k tk)
  then show ?thesis using mutex_others(3,4)[OF assms(2)]
    by (intro mutex_invI) (auto intro: mutex_invD[OF assms(2)] split: if_splits)
next
  case s_lock
  then show ?thesis using mutex_others(3,4)[OF assms(2)]
    by (intro mutex_invI) (auto intro: mutex_invD[OF assms(2)] split: if_splits)
qed (intro mutex_invI; auto intro: mutex_invD[OF assms(2)] split: if_splits)+

lemma queue_inv_step:
  assumes "pool_step s t" "wake_inv s" "queue_inv s"
  shows "queue_inv t"
  using assms
proof (cases rule: pool_step.cases)
  case (w_take i tk ts p)
  then show ?thesis using assms(3) busy_tasks_upd[OF w_take(2), of "worker s" "WRun tk"]
    by (simp add: queue_inv_def)
next
  case (w_run i tk)
  then show ?thesis using assms(3) busy_tasks_upd[OF w_run(2), of "worker s" WCheck]
    by (simp add: queue_inv_def)
next
  case (p_push k tk w)
  then show ?thesis using assms(3) notify_workerD(1)[OF p_push(4)] by (simp add: queue_inv_def)
next
  case s_notify
  have "busy_tasks (\<lambda>i. if worker s i = WWaiting then WLock else worker s i) n = busy_tasks (worker s) n" for n
    unfolding busy_tasks_def by (rule sum.cong) auto
  then show ?thesis using s_notify assms(3) by (simp add: queue_inv_def)
next
  case (p_inline tk)
  then show ?thesis using assms(2) by (simp add: wake_inv_def)
qed (auto simp: queue_inv_def busy_tasks_other)


lemma wake_inv_step:
  assumes "pool_step s t" "mutex_inv s" "wake_inv s"
  shows "wake_inv t"
  using assms(1)
proof (cases rule: pool_step.cases)
  case (w_check i)
  then show ?thesis using assms(3) by (auto simp: wake_inv_def awake_def)
next
  case (w_lock i)
  then show ?thesis using assms(3) by (auto simp: wake_inv_def awake_def)
next
  case (w_sleep i)
  then show ?thesis using assms(3) by (auto simp: wake_inv_def)
next
  case (w_wait i)
  then show ?thesis using assms(3) by (auto simp: wake_inv_def)
next
  case (w_spurious i)
  then show ?thesis using assms(3) by (auto simp: wake_inv_def awake_def)
next
  case (w_take i tk ts p)
  have m: "mutex s = Worker i" using assms(2) w_take(3) by (auto simp: mutex_inv_def)
  then have "worker s j \<noteq> WSleep" if "j \<noteq> i" for j using assms(2) that by (auto simp: mutex_inv_def)
  then show ?thesis using assms(3) w_take by (auto simp: wake_inv_def awake_def)
next
  case (w_none i)
  then show ?thesis using assms(3) by (auto simp: wake_inv_def)
next
  case (w_run i tk)
  then show ?thesis using assms(3) by (auto simp: wake_inv_def awake_def)
next
  case (p_push k tk w)
  note n = notify_workerD[OF p_push(4)]
  have m: "mutex s = Producer k" using assms(2) p_push(2) by (auto simp: mutex_inv_def)
  then have ns: "worker s j \<noteq> WSleep" for j using assms(2) by (auto simp: mutex_inv_def)
  have "\<exists>i < numThreads s. awake (w i)" if "running s"
  proof -
    have "0 < numThreads s" "\<forall>i. worker s i \<noteq> WExited" using assms(3) that by (auto simp: wake_inv_def)
    then show ?thesis using n(8) ns by blast
  qed
  then show ?thesis using assms(3) p_push(1) n(3,4) ns n(5) by (auto simp: wake_inv_def)
next
  case s_notify
  have "mutex s = Stopper" using assms(2) s_notify(2) by (auto simp: mutex_inv_def)
  then have "worker s j \<noteq> WSleep" for j using assms(2) by (auto simp: mutex_inv_def)
  then show ?thesis using assms(3) s_notify by (auto simp: wake_inv_def)
qed (use assms(3) in \<open>auto simp: wake_inv_def\<close>)

lemma pool_inv_step: "pool_inv s \<Longrightarrow> pool_step s t \<Longrightarrow> pool_inv t"
  by (simp add: pool_inv_def mutex_inv_step queue_inv_step wake_inv_step)

interpretation pool: safe_system pool_start pool_step pool_inv
  by unfold_locales (fact pool_inv_start, fact pool_inv_step)

text \<open>
  C29. The queue of the thread pool. Under any interleaving of workers, producers and \<open>stop\<close>: the
  queue never exceeds \<open>maxQueueSize\<close>; the tasks pushed are those taken followed by those queued, in
  order; and each task taken has been executed exactly once or is being executed by one worker.
\<close>

theorem pool_queue:
  assumes "reach pool_start pool_step s"
  shows "length (taskQueue s) \<le> maxQueueSize s \<and> pushed s = taken s @ taskQueue s
     \<and> mset (taken s) = mset (executed s) + busy_tasks (worker s) (numThreads s)"
  using pool.reach_inv[OF assms] by (simp add: pool_inv_def queue_inv_def)

text \<open>
  C30. No worker sleeps through its wake-up. While the pool runs and tasks are queued, some worker is
  awake (about to test the queue, or running a task after which it will); and once \<open>stop\<close> has
  notified and waits for the workers to end, none of them is asleep, although \<open>stop\<close> clears
  \<open>running_\<close> without the mutex.
\<close>

theorem pool_no_lost_wakeup:
  assumes "reach pool_start pool_step s"
  shows "(running s \<and> taskQueue s \<noteq> [] \<longrightarrow> (\<exists>i < numThreads s. awake (worker s i)))
     \<and> (stopper s = SJoin \<longrightarrow> (\<forall>i < numThreads s. worker s i \<noteq> WSleep \<and> worker s i \<noteq> WWaiting))"
  using pool.reach_inv[OF assms] by (simp add: pool_inv_def wake_inv_def)

subsection \<open>A run\<close>

text \<open>One worker and room for one task: a task is queued, a second caller waits, the pool is stopped.\<close>

definition one_pool :: pool where
  "one_pool = \<lparr>numThreads = 1, maxQueueSize = 1, running = True, taskQueue = [], mutex = Free,
     worker = (\<lambda>_. WCheck), producer = (\<lambda>_. PIdle), stopper = SIdle, pushed = [], taken = [], executed = []\<rparr>"

lemma one_pool_start: "pool_start one_pool"
  unfolding pool_start_def by (intro exI[of _ 1]) (simp add: ThreadPool_new_def one_pool_def)

definition queued_pool :: pool where
  "queued_pool = one_pool\<lparr>taskQueue := [1], producer := (producer one_pool)(0 := PLock 1, 0 := PTest 1, 0 := PIdle),
     pushed := [1]\<rparr>"

lemma queued_reachable: "reach pool_start pool_step queued_pool"
proof -
  let ?a = "one_pool\<lparr>producer := (producer one_pool)(0 := PLock 1)\<rparr>"
  let ?b = "?a\<lparr>producer := (producer ?a)(0 := PTest 1), mutex := Producer 0\<rparr>"
  have n: "notify_worker ?b (worker ?b)" by (simp add: notify_worker_def one_pool_def)
  have 1: "pool_step one_pool ?a" by (rule pool_step.p_call) (simp_all add: one_pool_def)
  have 2: "pool_step ?a ?b" by (rule pool_step.p_lock) (simp_all add: one_pool_def)
  have "pool_step ?b (?b\<lparr>taskQueue := taskQueue ?b @ [1], producer := (producer ?b)(0 := PIdle), worker := worker ?b,
      mutex := Free, pushed := pushed ?b @ [1]\<rparr>)"
    by (rule pool_step.p_push[OF _ _ n]) (simp_all add: one_pool_def)
  then have 3: "pool_step ?b queued_pool" by (simp add: queued_pool_def one_pool_def)
  from 1 2 3 have "path pool_step one_pool [?a, ?b, queued_pool]" by simp
  from reach_path[OF reach_start[of pool_start, OF one_pool_start] this] show ?thesis by simp
qed

theorem pool_queue_witness:
  "\<exists>s. reach pool_start pool_step s \<and> taskQueue s = [1] \<and> length (taskQueue s) \<le> maxQueueSize s
     \<and> pushed s = taken s @ taskQueue s"
proof -
  have "taskQueue queued_pool = [1]" by (simp add: queued_pool_def)
  with pool_queue[OF queued_reachable] queued_reachable show ?thesis by blast
qed

theorem pool_no_lost_wakeup_witness:
  "\<exists>s. reach pool_start pool_step s \<and> running s \<and> taskQueue s = [1] \<and> (\<exists>i < numThreads s. awake (worker s i))"
proof -
  have "running queued_pool" "taskQueue queued_pool = [1]" by (simp_all add: queued_pool_def one_pool_def)
  with pool_no_lost_wakeup[OF queued_reachable] queued_reachable show ?thesis by force
qed

text \<open>What stays so once the pool is stopped with a full queue and a caller of \<open>runTask\<close> inside it.\<close>

definition stranded :: "pool \<Rightarrow> bool" where
  "stranded s \<longleftrightarrow> 0 < numThreads s \<and> stopper s = SDone \<and> \<not> running s \<and> (\<forall>i < numThreads s. worker s i = WExited)
     \<and> length (taskQueue s) \<ge> maxQueueSize s \<and> executed s = []
     \<and> (producer s 1 = PLock 2 \<or> producer s 1 = PTest 2 \<or> producer s 1 = PSleep 2 \<or> producer s 1 = PWaiting 2)"

lemma stranded_step:
  assumes "pool_step s t" "stranded s"
  shows "stranded t"
  using assms
proof (cases rule: pool_step.cases)
  case (w_take i tk ts p)
  then show ?thesis using assms(2) by (auto simp: stranded_def)
qed (auto simp: stranded_def)

lemma stranded_forever:
  assumes "stranded s"
  shows "{t. reach (\<lambda>u. u = s) pool_step t} \<subseteq> {t. producer t 1 \<noteq> PIdle \<and> executed t = []}"
proof clarify
  fix t
  assume "reach (\<lambda>u. u = s) pool_step t"
  then have "stranded t" by (induction rule: reach.induct) (auto intro: stranded_step assms)
  then show "producer t 1 \<noteq> PIdle \<and> executed t = []" by (auto simp: stranded_def)
qed

text \<open>
  C31. What \<open>stop\<close> leaves behind. There is a run in which \<open>stop\<close> returns, having joined all workers,
  while a task whose \<open>runTask\<close> call returned is still queued and will not be executed, and another
  thread is still inside \<open>runTask\<close>: \<open>stop\<close> does not notify \<open>nonFull_\<close>, and from then on, whatever
  steps follow, spurious wake-ups included, that call never returns and nothing is executed.
\<close>

theorem stop_strands_callers:
  "\<exists>s. reach pool_start pool_step s \<and> stopper s = SDone \<and> pushed s = [1] \<and> executed s = []
     \<and> {t. reach (\<lambda>u. u = s) pool_step t} \<subseteq> {t. producer t 1 \<noteq> PIdle \<and> executed t = []}"
proof -
  let ?q = queued_pool
  let ?a = "?q\<lparr>producer := (producer ?q)(1 := PLock 2)\<rparr>"
  let ?b = "?a\<lparr>producer := (producer ?a)(1 := PTest 2), mutex := Producer 1\<rparr>"
  let ?c = "?b\<lparr>producer := (producer ?b)(1 := PSleep 2)\<rparr>"
  let ?d = "?c\<lparr>producer := (producer ?c)(1 := PWaiting 2), mutex := Free\<rparr>"
  let ?e = "?d\<lparr>running := False, stopper := SLock\<rparr>"
  let ?f = "?e\<lparr>stopper := SNotify, mutex := Stopper\<rparr>"
  let ?g = "?f\<lparr>worker := (\<lambda>i. if worker ?f i = WWaiting then WLock else worker ?f i), mutex := Free, stopper := SJoin\<rparr>"
  let ?h = "?g\<lparr>worker := (worker ?g)(0 := (if running ?g then WLock else WExited))\<rparr>"
  let ?i = "?h\<lparr>stopper := SDone\<rparr>"
  have 1: "pool_step ?q ?a" by (rule pool_step.p_call) (simp_all add: queued_pool_def one_pool_def)
  have 2: "pool_step ?a ?b" by (rule pool_step.p_lock) (simp_all add: queued_pool_def one_pool_def)
  have 3: "pool_step ?b ?c" by (rule pool_step.p_full) (simp_all add: queued_pool_def one_pool_def)
  have 4: "pool_step ?c ?d" by (rule pool_step.p_wait) simp
  have 5: "pool_step ?d ?e" by (rule pool_step.s_set) (simp_all add: queued_pool_def one_pool_def)
  have 6: "pool_step ?e ?f" by (rule pool_step.s_lock) simp_all
  have 7: "pool_step ?f ?g" by (rule pool_step.s_notify) simp
  have 8: "pool_step ?g ?h" by (rule pool_step.w_check) (simp_all add: queued_pool_def one_pool_def)
  have 9: "pool_step ?h ?i" by (rule pool_step.s_join) (simp_all add: queued_pool_def one_pool_def)
  from 1 2 3 4 5 6 7 8 9 have "path pool_step ?q [?a, ?b, ?c, ?d, ?e, ?f, ?g, ?h, ?i]"
    by (simp only: path.simps simp_thms)
  from reach_path[OF queued_reachable this] have r: "reach pool_start pool_step ?i"
    by (simp only: last.simps list.simps if_False if_True refl)
  have st: "stranded ?i" by (simp add: stranded_def queued_pool_def one_pool_def)
  have "stopper ?i = SDone" "pushed ?i = [1]" "executed ?i = []"
    by (simp_all add: queued_pool_def one_pool_def)
  then show ?thesis using r stranded_forever[OF st] by (intro exI[of _ ?i] conjI)
qed

end
