(* ===== verification/Server_Threads.thy ===== *)
theory Server_Threads
  imports Steps
begin

text \<open>
  \<open>leven/TcpServerThreaded.h\<close> and \<open>TcpServerThreaded.cc\<close>: a server with one event loop per thread, as a
  step relation. The thread of the base loop calls \<open>setNumThread\<close>, \<open>start\<close> and the destructor; thread
  \<open>i\<close> runs \<open>runInThread(i)\<close>. A step is what happens atomically. The entry \<open>eventLoops_[i]\<close> is \<open>Some j\<close>
  when it points to the loop of thread \<open>j\<close>; of that loop the model has \<open>quit_\<close> and whether its eventfd
  is readable, and the loop exists while its thread is between the constructor and the end of
  \<open>runInThread\<close>. \<open>loop()\<close> resets \<open>quit_\<close>, then tests it and waits in turn. What the loops do besides,
  and the servers and callbacks they are given, is in the other theories. \<open>BCrashed\<close> is reached when
  the destructor dereferences a null pointer, fails the assertion of \<open>quit\<close>, or uses a loop that no
  longer exists.
\<close>

datatype base_pc = BIdle | BCreate nat | BLock nat | BTest nat | BSleep nat | BWaiting nat | BRunning
  | BQuit nat | BCall nat | BWake nat nat | BJoin nat | BDone | BCrashed
datatype thread_pc = TNone | TInit | TLock | THold | TStarting | TTest | TPolling | TLeft | TNulled | TExited
datatype holder = Unlocked | HeldByBase | HeldBy nat

record threaded =
  numThreads :: nat
  started :: bool
  threads :: "nat list"
  eventLoops :: "nat option list"
  guard :: holder
  base :: base_pc
  thread :: "nat \<Rightarrow> thread_pc"
  loopQuit :: "nat \<Rightarrow> bool"
  readable :: "nat \<Rightarrow> bool"

definition TcpServerThreaded_new :: threaded where
  "TcpServerThreaded_new = \<lparr>numThreads = 1, started = False, threads = [], eventLoops = [], guard = Unlocked,
     base = BIdle, thread = (\<lambda>_. TNone), loopQuit = (\<lambda>_. False), readable = (\<lambda>_. False)\<rparr>"

definition setNumThread :: "nat \<Rightarrow> threaded \<Rightarrow> threaded result" where
  "setNumThread n s = assertR (n > 0) (assertR (\<not> started s)
     (Inr (s\<lparr>numThreads := n, eventLoops := take n (eventLoops s) @ replicate (n - length (eventLoops s)) None\<rparr>)))"

definition TcpServerThreaded_start :: "threaded \<Rightarrow> threaded" where
  "TcpServerThreaded_start s = (if started s then s else s\<lparr>started := True, base := BCreate 1\<rparr>)"

definition loop_exists :: "thread_pc \<Rightarrow> bool" where
  "loop_exists pc \<longleftrightarrow> pc \<noteq> TNone \<and> pc \<noteq> TInit \<and> pc \<noteq> TExited"

text \<open>\<open>cond_.notify_one()\<close>: only the base waits on \<open>cond_\<close>.\<close>

definition woken :: "base_pc \<Rightarrow> base_pc" where
  "woken b = (case b of BWaiting j \<Rightarrow> BLock j | _ \<Rightarrow> b)"

inductive threaded_step :: "threaded \<Rightarrow> threaded \<Rightarrow> bool" where
  set_num: "base s = BIdle \<Longrightarrow> setNumThread n s = Inr t \<Longrightarrow> threaded_step s t"
| start: "base s = BIdle \<or> base s = BRunning \<Longrightarrow> threaded_step s (TcpServerThreaded_start s)"
| create: "base s = BCreate i \<Longrightarrow> i < numThreads s \<Longrightarrow>
     threaded_step s (s\<lparr>thread := (thread s)(i := TInit), base := BLock i\<rparr>)"
| all_created: "base s = BCreate i \<Longrightarrow> \<not> i < numThreads s \<Longrightarrow> threaded_step s (s\<lparr>base := BRunning\<rparr>)"
| b_lock: "base s = BLock i \<Longrightarrow> guard s = Unlocked \<Longrightarrow> threaded_step s (s\<lparr>base := BTest i, guard := HeldByBase\<rparr>)"
| b_null: "base s = BTest i \<Longrightarrow> eventLoops s ! i = None \<Longrightarrow> threaded_step s (s\<lparr>base := BSleep i\<rparr>)"
| b_wait: "base s = BSleep i \<Longrightarrow> threaded_step s (s\<lparr>base := BWaiting i, guard := Unlocked\<rparr>)"
| b_spurious: "base s = BWaiting i \<Longrightarrow> threaded_step s (s\<lparr>base := BLock i\<rparr>)"
| b_next: "base s = BTest i \<Longrightarrow> eventLoops s ! i = Some j \<Longrightarrow>
     threaded_step s (s\<lparr>base := BCreate (Suc i), guard := Unlocked, threads := threads s @ [i]\<rparr>)"
| t_init: "thread s i = TInit \<Longrightarrow> threaded_step s (s\<lparr>thread := (thread s)(i := TLock)\<rparr>)"
| t_lock: "thread s i = TLock \<Longrightarrow> guard s = Unlocked \<Longrightarrow>
     threaded_step s (s\<lparr>thread := (thread s)(i := THold), guard := HeldBy i\<rparr>)"
| t_register: "thread s i = THold \<Longrightarrow>
     threaded_step s (s\<lparr>thread := (thread s)(i := TStarting), eventLoops := (eventLoops s)[i := Some i],
        base := woken (base s), guard := Unlocked\<rparr>)"
| t_enter: "thread s i = TStarting \<Longrightarrow>
     threaded_step s (s\<lparr>thread := (thread s)(i := TTest), loopQuit := (loopQuit s)(i := False)\<rparr>)"
| t_test: "thread s i = TTest \<Longrightarrow>
     threaded_step s (s\<lparr>thread := (thread s)(i := (if loopQuit s i then TLeft else TPolling))\<rparr>)"
| t_woken: "thread s i = TPolling \<Longrightarrow> readable s i \<Longrightarrow>
     threaded_step s (s\<lparr>thread := (thread s)(i := TTest), readable := (readable s)(i := False)\<rparr>)"
| t_other: "thread s i = TPolling \<Longrightarrow> threaded_step s (s\<lparr>thread := (thread s)(i := TTest)\<rparr>)"
| t_unregister: "thread s i = TLeft \<Longrightarrow>
     threaded_step s (s\<lparr>thread := (thread s)(i := TNulled), eventLoops := (eventLoops s)[i := None]\<rparr>)"
| t_exit: "thread s i = TNulled \<Longrightarrow> threaded_step s (s\<lparr>thread := (thread s)(i := TExited)\<rparr>)"
| destroy: "base s = BIdle \<or> base s = BRunning \<Longrightarrow> threaded_step s (s\<lparr>base := BQuit 0\<rparr>)"
| d_skip: "base s = BQuit i \<Longrightarrow> i < length (eventLoops s) \<Longrightarrow> eventLoops s ! i = None \<Longrightarrow>
     threaded_step s (s\<lparr>base := BQuit (Suc i)\<rparr>)"
| d_found: "base s = BQuit i \<Longrightarrow> i < length (eventLoops s) \<Longrightarrow> eventLoops s ! i = Some j \<Longrightarrow>
     threaded_step s (s\<lparr>base := BCall i\<rparr>)"
| d_quit: "base s = BCall i \<Longrightarrow> eventLoops s ! i = Some j \<Longrightarrow> \<not> loopQuit s j \<Longrightarrow>
     threaded_step s (s\<lparr>loopQuit := (loopQuit s)(j := True), base := BWake i j\<rparr>)"
| d_crash: "base s = BCall i \<Longrightarrow> eventLoops s ! i = None \<or> (\<exists>j. eventLoops s ! i = Some j \<and> loopQuit s j) \<Longrightarrow>
     threaded_step s (s\<lparr>base := BCrashed\<rparr>)"
| d_wake: "base s = BWake i j \<Longrightarrow>
     threaded_step s (if loop_exists (thread s j) then s\<lparr>readable := (readable s)(j := True), base := BQuit (Suc i)\<rparr>
                      else s\<lparr>base := BCrashed\<rparr>)"
| d_quit_all: "base s = BQuit i \<Longrightarrow> \<not> i < length (eventLoops s) \<Longrightarrow> threaded_step s (s\<lparr>base := BJoin 0\<rparr>)"
| d_join: "base s = BJoin k \<Longrightarrow> k < length (threads s) \<Longrightarrow> thread s (threads s ! k) = TExited \<Longrightarrow>
     threaded_step s (s\<lparr>base := BJoin (Suc k)\<rparr>)"
| d_done: "base s = BJoin k \<Longrightarrow> \<not> k < length (threads s) \<Longrightarrow> threaded_step s (s\<lparr>base := BDone\<rparr>)"

definition threaded_start :: "threaded \<Rightarrow> bool" where
  "threaded_start s \<longleftrightarrow> s = TcpServerThreaded_new"

subsection \<open>Invariants\<close>

text \<open>How many threads the base has created, and how many it has seen register.\<close>

definition created :: "threaded \<Rightarrow> nat" where
  "created s = (case base s of BIdle \<Rightarrow> 1 | BCreate i \<Rightarrow> i | BLock i \<Rightarrow> Suc i | BTest i \<Rightarrow> Suc i | BSleep i \<Rightarrow> Suc i
     | BWaiting i \<Rightarrow> Suc i | _ \<Rightarrow> if started s then numThreads s else 1)"

definition seen :: "threaded \<Rightarrow> nat" where
  "seen s = (case base s of BLock i \<Rightarrow> i | BTest i \<Rightarrow> i | BSleep i \<Rightarrow> i | BWaiting i \<Rightarrow> i | _ \<Rightarrow> created s)"

fun starting :: "base_pc \<Rightarrow> bool" where
  "starting (BCreate i) = True"
| "starting (BLock i) = True"
| "starting (BTest i) = True"
| "starting (BSleep i) = True"
| "starting (BWaiting i) = True"
| "starting _ = False"

definition existing :: "(nat \<Rightarrow> thread_pc) \<Rightarrow> nat set" where
  "existing th = {i. th i \<noteq> TNone}"

lemma existing_upd [simp]:
  "th j \<noteq> TNone \<Longrightarrow> pc \<noteq> TNone \<Longrightarrow> existing (th(j := pc)) = existing th"
  by (auto simp: existing_def)

lemma existing_new: "pc \<noteq> TNone \<Longrightarrow> existing (th(j := pc)) = insert j (existing th)"
  by (auto simp: existing_def)

text \<open>The bounds of the indices.\<close>

definition size_inv :: "threaded \<Rightarrow> bool" where
  "size_inv s \<longleftrightarrow> 0 < numThreads s \<and> (length (eventLoops s) = numThreads s \<or> numThreads s = 1 \<and> eventLoops s = [])
     \<and> created s \<le> numThreads s \<and> 1 \<le> seen s \<and> threads s = [1..<seen s] \<and> (base s = BIdle \<longrightarrow> \<not> started s)
     \<and> (base s = BRunning \<or> starting (base s) \<longrightarrow> started s)
     \<and> existing (thread s) = {1..<created s}"

definition early :: "thread_pc \<Rightarrow> bool" where
  "early pc \<longleftrightarrow> pc = TInit \<or> pc = TLock \<or> pc = THold"

definition entered :: "thread_pc \<Rightarrow> bool" where
  "entered pc \<longleftrightarrow> pc = TStarting \<or> pc = TTest \<or> pc = TPolling \<or> pc = TLeft"

definition ended :: "thread_pc \<Rightarrow> bool" where
  "ended pc \<longleftrightarrow> pc = TLeft \<or> pc = TNulled \<or> pc = TExited"

text \<open>An entry of \<open>eventLoops_\<close> is set exactly while its thread is registered.\<close>

definition register_inv :: "threaded \<Rightarrow> bool" where
  "register_inv s \<longleftrightarrow> (\<forall>i < length (eventLoops s). eventLoops s ! i = (if entered (thread s i) then Some i else None))"

text \<open>Which loops the destructor may have asked to quit so far.\<close>

definition asked :: "base_pc \<Rightarrow> nat \<Rightarrow> bool" where
  "asked b j \<longleftrightarrow> (case b of BQuit i \<Rightarrow> j < i | BCall i \<Rightarrow> j < i | BWake i k \<Rightarrow> j \<le> i
     | BJoin k \<Rightarrow> True | BDone \<Rightarrow> True | BCrashed \<Rightarrow> True | _ \<Rightarrow> False)"

definition quit_inv :: "threaded \<Rightarrow> bool" where
  "quit_inv s \<longleftrightarrow> (\<forall>i. ended (thread s i) \<longrightarrow> loopQuit s i)
     \<and> (\<forall>j. loopQuit s j \<longrightarrow> asked (base s) j)
     \<and> (\<forall>i. base s = BCall i \<longrightarrow> i < length (eventLoops s) \<and> entered (thread s i))
     \<and> (\<forall>i k. base s = BWake i k \<longrightarrow> k = i)"

text \<open>The handshake of \<open>start\<close> with a thread it has created.\<close>

definition handshake_inv :: "threaded \<Rightarrow> bool" where
  "handshake_inv s \<longleftrightarrow> (\<forall>i. thread s i = THold \<longrightarrow> guard s = HeldBy i)
     \<and> (\<forall>i. base s = BTest i \<or> base s = BSleep i \<longrightarrow> guard s = HeldByBase)
     \<and> (\<forall>i. base s = BSleep i \<or> base s = BWaiting i \<longrightarrow> early (thread s i))
     \<and> (\<forall>i < seen s. \<not> early (thread s i))"

lemma setNumThread_Inr:
  assumes "setNumThread n s = Inr t"
  shows "0 < n" "\<not> started s"
    "t = s\<lparr>numThreads := n, eventLoops := take n (eventLoops s) @ replicate (n - length (eventLoops s)) None\<rparr>"
  using assms unfolding setNumThread_def assertR_Inr_iff by auto

lemma woken_simps [simp]:
  "base s = b \<Longrightarrow> created (s\<lparr>base := woken b\<rparr>) = created s" "base s = b \<Longrightarrow> seen (s\<lparr>base := woken b\<rparr>) = seen s"
  "woken b = BIdle \<longleftrightarrow> b = BIdle" "woken b = BRunning \<longleftrightarrow> b = BRunning" "starting (woken b) = starting b"
  "woken b = BTest i \<longleftrightarrow> b = BTest i" "woken b = BSleep i \<longleftrightarrow> b = BSleep i" "woken b \<noteq> BWaiting i"
  "woken b = BQuit i \<longleftrightarrow> b = BQuit i" "woken b = BCall i \<longleftrightarrow> b = BCall i" "woken b = BWake i k \<longleftrightarrow> b = BWake i k"
  by (auto simp: woken_def created_def seen_def split: base_pc.splits)

lemma asked_woken [simp]: "asked (woken b) j = asked b j"
  by (simp add: asked_def woken_def split: base_pc.split)

lemma created_frame [simp]:
  "created (s\<lparr>thread := th\<rparr>) = created s" "seen (s\<lparr>thread := th\<rparr>) = seen s"
  "created (s\<lparr>guard := g\<rparr>) = created s" "seen (s\<lparr>guard := g\<rparr>) = seen s"
  "created (s\<lparr>loopQuit := q\<rparr>) = created s" "seen (s\<lparr>loopQuit := q\<rparr>) = seen s"
  "created (s\<lparr>readable := r\<rparr>) = created s" "seen (s\<lparr>readable := r\<rparr>) = seen s"
  "created (s\<lparr>eventLoops := e\<rparr>) = created s" "seen (s\<lparr>eventLoops := e\<rparr>) = seen s"
  "created (s\<lparr>threads := ts\<rparr>) = created s" "seen (s\<lparr>threads := ts\<rparr>) = seen s"
  by (simp_all add: created_def seen_def split: base_pc.split)

lemma base_pc_simps:
  "base s = BIdle \<Longrightarrow> created s = 1" "base s = BCreate i \<Longrightarrow> created s = i" "base s = BLock i \<Longrightarrow> created s = Suc i"
  "base s = BTest i \<Longrightarrow> created s = Suc i" "base s = BSleep i \<Longrightarrow> created s = Suc i"
  "base s = BWaiting i \<Longrightarrow> created s = Suc i"
  "base s = BLock i \<Longrightarrow> seen s = i" "base s = BTest i \<Longrightarrow> seen s = i" "base s = BSleep i \<Longrightarrow> seen s = i"
  "base s = BWaiting i \<Longrightarrow> seen s = i"
  "base s = BIdle \<Longrightarrow> seen s = created s" "base s = BCreate i \<Longrightarrow> seen s = created s"
  "base s = BRunning \<Longrightarrow> created s = (if started s then numThreads s else 1)" "base s = BRunning \<Longrightarrow> seen s = created s"
  "base s = BQuit i \<Longrightarrow> created s = (if started s then numThreads s else 1)" "base s = BQuit i \<Longrightarrow> seen s = created s"
  "base s = BCall i \<Longrightarrow> created s = (if started s then numThreads s else 1)" "base s = BCall i \<Longrightarrow> seen s = created s"
  "base s = BWake i j \<Longrightarrow> created s = (if started s then numThreads s else 1)" "base s = BWake i j \<Longrightarrow> seen s = created s"
  "base s = BJoin i \<Longrightarrow> created s = (if started s then numThreads s else 1)" "base s = BJoin i \<Longrightarrow> seen s = created s"
  "base s = BDone \<Longrightarrow> created s = (if started s then numThreads s else 1)" "base s = BDone \<Longrightarrow> seen s = created s"
  "base s = BCrashed \<Longrightarrow> created s = (if started s then numThreads s else 1)" "base s = BCrashed \<Longrightarrow> seen s = created s"
  by (simp_all add: created_def seen_def)

lemma start_cases:
  assumes "size_inv s" "base s = BIdle \<or> base s = BRunning"
  shows "TcpServerThreaded_start s = s
    \<or> base s = BIdle \<and> TcpServerThreaded_start s = s\<lparr>started := True, base := BCreate 1\<rparr>"
  using assms by (auto simp: TcpServerThreaded_start_def size_inv_def)

lemma size_inv_step:
  assumes "threaded_step s t" "size_inv s"
  shows "size_inv t"
  using assms(1)
proof (cases rule: threaded_step.cases)
  case (set_num n)
  note t = setNumThread_Inr[OF set_num(2)]
  have "created s = 1" "seen s = 1" "created t = 1" "seen t = 1" using set_num(1) t(3) by (simp_all add: created_def seen_def)
  moreover have "length (eventLoops t) = n" using t(3) by (simp add: min_def)
  ultimately show ?thesis using assms(2) t set_num(1) by (simp add: size_inv_def)
next
  case start
  from start_cases[OF assms(2) start(2)] show ?thesis using start(1) assms(2)
    by (auto simp: size_inv_def base_pc_simps)
next
  case (t_register i)
  then show ?thesis using assms(2) by (simp add: size_inv_def)
next
  case (create i)
  have "{1..<Suc i} = insert i {1..<i}" using assms(2) create(2) by (auto simp: size_inv_def base_pc_simps)
  then show ?thesis using assms(2) create by (auto simp: size_inv_def base_pc_simps existing_new)
next
  case destroy
  from destroy(2) show ?thesis using assms(2) destroy(1)
    by (elim disjE) (simp_all add: size_inv_def base_pc_simps)
qed (use assms(2) in \<open>auto simp: size_inv_def base_pc_simps\<close>)

lemma size_invD:
  assumes "size_inv s"
  shows "thread s i = TNone \<longleftrightarrow> i \<notin> {1..<created s}" "created s \<le> numThreads s" "1 \<le> seen s" "threads s = [1..<seen s]"
    "length (eventLoops s) = numThreads s \<or> numThreads s = 1 \<and> eventLoops s = []" "0 < numThreads s"
proof -
  have "i \<in> existing (thread s) \<longleftrightarrow> thread s i \<noteq> TNone" by (simp add: existing_def)
  then show "thread s i = TNone \<longleftrightarrow> i \<notin> {1..<created s}" using assms by (simp add: size_inv_def)
qed (use assms in \<open>simp_all add: size_inv_def\<close>)

lemma in_range:
  assumes "size_inv s" "thread s i \<noteq> TNone"
  shows "1 \<le> i" "i < created s" "i < length (eventLoops s)"
  using size_invD(1)[OF assms(1), of i] size_invD(2,5)[OF assms(1)] assms(2) by auto

lemma register_inv_step:
  assumes "threaded_step s t" "size_inv s" "register_inv s"
  shows "register_inv t"
  using assms(1)
proof (cases rule: threaded_step.cases)
  case (set_num n)
  note t = setNumThread_Inr(3)[OF set_num(2)]
  have n: "\<not> entered (thread s i)" for i
    using size_invD(1)[OF assms(2), of i] set_num(1) by (simp add: base_pc_simps entered_def)
  have "eventLoops t ! i = None" if "i < n" for i
    unfolding t using assms(3) n that by (simp add: register_inv_def nth_append)
  moreover have "length (eventLoops t) = n" "thread t = thread s" using t by (simp_all add: min_def)
  ultimately show ?thesis using n by (simp add: register_inv_def)
next
  case start
  then show ?thesis using assms(3) by (simp add: register_inv_def TcpServerThreaded_start_def)
next
  case (create i)
  then have "thread s i = TNone" using size_invD(1)[OF assms(2), of i] by (simp add: base_pc_simps)
  then show ?thesis using create assms(3) by (simp add: register_inv_def entered_def)
qed (use assms(3) in \<open>simp_all add: register_inv_def entered_def nth_list_update\<close>)

lemma handshake_invD:
  assumes "handshake_inv s"
  shows "thread s i = THold \<Longrightarrow> guard s = HeldBy i" "base s = BTest i \<Longrightarrow> guard s = HeldByBase"
    "base s = BSleep i \<Longrightarrow> guard s = HeldByBase" "base s = BSleep i \<Longrightarrow> early (thread s i)"
    "base s = BWaiting i \<Longrightarrow> early (thread s i)" "i < seen s \<Longrightarrow> \<not> early (thread s i)"
  using assms by (auto simp: handshake_inv_def)

lemma handshake_frame [simp]:
  "handshake_inv (s\<lparr>loopQuit := q\<rparr>) = handshake_inv s" "handshake_inv (s\<lparr>readable := r\<rparr>) = handshake_inv s"
  "handshake_inv (s\<lparr>eventLoops := e\<rparr>) = handshake_inv s"
  by (simp_all add: handshake_inv_def)

lemma early_simps [simp]:
  "early TInit" "early TLock" "early THold" "\<not> early TNone" "\<not> early TStarting" "\<not> early TTest" "\<not> early TPolling"
  "\<not> early TLeft" "\<not> early TNulled" "\<not> early TExited"
  by (simp_all add: early_def)

lemma handshake_thread:
  assumes "handshake_inv s" "early pc = early (thread s j)" "pc \<noteq> THold"
  shows "handshake_inv (s\<lparr>thread := (thread s)(j := pc)\<rparr>)"
  using assms by (auto simp: handshake_inv_def)

lemma handshake_base:
  assumes "handshake_inv s" "seen (s\<lparr>base := b\<rparr>) = seen s" "\<And>i. b \<notin> {BTest i, BSleep i, BWaiting i}"
  shows "handshake_inv (s\<lparr>base := b\<rparr>)"
  using assms by (auto simp: handshake_inv_def)

lemma quit_inv_starting:
  assumes "quit_inv s" "starting (base s)"
  shows "\<not> loopQuit s j" "\<not> ended (thread s j)"
proof -
  show "\<not> loopQuit s j" using assms unfolding quit_inv_def asked_def by (cases "base s") auto
  then show "\<not> ended (thread s j)" using assms(1) by (auto simp: quit_inv_def)
qed

lemma handshake_inv_step:
  assumes "threaded_step s t" "size_inv s" "register_inv s" "quit_inv s" "handshake_inv s"
  shows "handshake_inv t"
  using assms(1)
proof (cases rule: threaded_step.cases)
  case (set_num n)
  then show ?thesis using assms(5) setNumThread_Inr(3)[OF set_num(2)] by (simp add: handshake_inv_def base_pc_simps)
next
  case start
  from start_cases[OF assms(2) start(2)] show ?thesis using start(1) assms(5)
    by (auto simp: handshake_inv_def base_pc_simps)
next
  case (create i)
  then show ?thesis using assms(5) by (auto simp: handshake_inv_def base_pc_simps)
next
  case (all_created i)
  then have "started s" "i = numThreads s" using assms(2) by (auto simp: size_inv_def base_pc_simps)
  then show ?thesis using all_created assms(5) by (auto intro!: handshake_base simp: base_pc_simps)
next
  case (b_lock i)
  then show ?thesis using assms(5) by (auto simp: handshake_inv_def base_pc_simps)
next
  case (b_null i)
  have st: "starting (base s)" using b_null(2) by simp
  have "i \<in> {1..<created s}" using size_invD(3)[OF assms(2)] b_null(2) by (simp add: base_pc_simps)
  then have "thread s i \<noteq> TNone" using size_invD(1)[OF assms(2), of i] by simp
  moreover have "\<not> entered (thread s i)"
    using assms(3) in_range(3)[OF assms(2) calculation] b_null(3) by (auto simp: register_inv_def)
  ultimately have "early (thread s i)"
    using quit_inv_starting(2)[OF assms(4) st, of i] by (cases "thread s i") (auto simp: entered_def ended_def)
  then show ?thesis using b_null assms(5) by (auto simp: handshake_inv_def base_pc_simps)
next
  case (b_wait i)
  then show ?thesis using assms(5) by (fastforce simp: handshake_inv_def base_pc_simps)
next
  case (b_spurious i)
  then show ?thesis using assms(5) by (auto simp: handshake_inv_def base_pc_simps)
next
  case (b_next i j)
  have "i \<in> {1..<created s}" using size_invD(3)[OF assms(2)] b_next(2) by (simp add: base_pc_simps)
  then have "i < length (eventLoops s)" using size_invD(1)[OF assms(2), of i] in_range(3)[OF assms(2), of i] by simp
  then have "\<not> early (thread s i)"
    using assms(3) b_next(3) by (auto simp: register_inv_def entered_def early_def split: if_splits)
  then show ?thesis using b_next assms(5) by (fastforce simp: handshake_inv_def base_pc_simps less_Suc_eq)
next
  case (t_register i)
  have g: "guard s = HeldBy i" using handshake_invD(1)[OF assms(5) t_register(2)] .
  have "\<not> (base s = BTest j \<or> base s = BSleep j)" for j
    using handshake_invD(2,3)[OF assms(5), of j] g by auto
  moreover have "thread s j \<noteq> THold" if "j \<noteq> i" for j
    using handshake_invD(1)[OF assms(5), of j] g that by auto
  ultimately show ?thesis using handshake_invD(6)[OF assms(5)] t_register(1) by (simp add: handshake_inv_def)
next
  case (t_lock i)
  then show ?thesis using assms(5) by (fastforce simp: handshake_inv_def)
next
  case destroy
  then have "seen (s\<lparr>base := BQuit 0\<rparr>) = seen s"
    using assms(2) by (elim disjE) (simp_all add: size_inv_def base_pc_simps)
  then show ?thesis using destroy(1) assms(5) by (auto intro!: handshake_base)
qed (use assms(5) in \<open>auto intro!: handshake_thread handshake_base simp: base_pc_simps\<close>)

lemma quit_inv_step:
  assumes "threaded_step s t" "size_inv s" "register_inv s" "quit_inv s"
  shows "quit_inv t"
  using assms(1)
proof (cases rule: threaded_step.cases)
  case (set_num n)
  then show ?thesis using assms(4) setNumThread_Inr(3)[OF set_num(2)] by (auto simp: quit_inv_def asked_def)
next
  case start
  from start_cases[OF assms(2) start(2)] show ?thesis using start(1) assms(4)
    by (auto simp: quit_inv_def asked_def)
next
  case (t_register i)
  then show ?thesis using assms(4) by (auto simp: quit_inv_def ended_def entered_def)
next
  case (t_unregister i)
  then have "loopQuit s i" using assms(4) by (auto simp: quit_inv_def ended_def)
  then have "base s \<noteq> BCall i" using assms(4) by (auto simp: quit_inv_def asked_def)
  then show ?thesis using t_unregister assms(4) by (auto simp: quit_inv_def ended_def)
next
  case destroy
  from destroy(2) show ?thesis using assms(4) destroy(1) by (elim disjE) (auto simp: quit_inv_def asked_def)
next
  case (d_found i j)
  then have "entered (thread s i)" using assms(3) by (auto simp: register_inv_def split: if_splits)
  then show ?thesis using d_found assms(4) by (auto simp: quit_inv_def asked_def)
next
  case (d_quit i j)
  then have "j = i" using assms(3,4) by (auto simp: register_inv_def quit_inv_def split: if_splits)
  then show ?thesis using d_quit assms(4) by (auto simp: quit_inv_def asked_def)
next
  case (d_wake i j)
  then show ?thesis using assms(4) by (auto simp: quit_inv_def asked_def)
qed (use assms(4) in \<open>auto simp: quit_inv_def asked_def ended_def entered_def\<close>)

text \<open>Whoever the mutex is held by is where it holds it.\<close>

definition guard_inv :: "threaded \<Rightarrow> bool" where
  "guard_inv s \<longleftrightarrow> (case guard s of Unlocked \<Rightarrow> True
     | HeldByBase \<Rightarrow> (case base s of BTest i \<Rightarrow> True | BSleep i \<Rightarrow> True | _ \<Rightarrow> False)
     | HeldBy i \<Rightarrow> thread s i = THold)"

lemma guard_inv_step:
  assumes "threaded_step s t" "size_inv s" "guard_inv s"
  shows "guard_inv t"
  using assms(1)
proof (cases rule: threaded_step.cases)
  case (set_num n)
  then show ?thesis using assms(3) setNumThread_Inr(3)[OF set_num(2)] by (simp add: guard_inv_def split: holder.splits)
next
  case start
  from start_cases[OF assms(2) start(2)] show ?thesis using start(1) assms(3)
    by (auto simp: guard_inv_def split: holder.splits)
next
  case destroy
  from destroy(2) show ?thesis using assms(3) destroy(1) by (elim disjE) (auto simp: guard_inv_def split: holder.splits)
next
  case (create i)
  then have "thread s i = TNone" using size_invD(1)[OF assms(2), of i] by (simp add: base_pc_simps)
  then show ?thesis using create assms(3) by (auto simp: guard_inv_def split: holder.splits)
qed (use assms(3) in \<open>auto simp: guard_inv_def split: holder.splits\<close>)

definition threaded_inv :: "threaded \<Rightarrow> bool" where
  "threaded_inv s \<longleftrightarrow> size_inv s \<and> register_inv s \<and> quit_inv s \<and> handshake_inv s \<and> guard_inv s"

lemma threaded_inv_start: "threaded_start s \<Longrightarrow> threaded_inv s"
  by (simp add: threaded_start_def TcpServerThreaded_new_def threaded_inv_def size_inv_def register_inv_def
      quit_inv_def handshake_inv_def guard_inv_def created_def seen_def existing_def ended_def)

lemma threaded_inv_step: "threaded_inv s \<Longrightarrow> threaded_step s t \<Longrightarrow> threaded_inv t"
  by (simp add: threaded_inv_def size_inv_step register_inv_step quit_inv_step handshake_inv_step guard_inv_step)

interpretation srv: safe_system threaded_start threaded_step threaded_inv
  by unfold_locales (fact threaded_inv_start, fact threaded_inv_step)

lemma threaded_invD:
  assumes "threaded_inv s"
  shows "size_inv s" "register_inv s" "quit_inv s" "handshake_inv s" "guard_inv s"
  using assms by (simp_all add: threaded_inv_def)

lemma thread_cases:
  assumes "threaded_inv s" "i \<in> {1..<created s}"
  shows "early (thread s i) \<or> entered (thread s i) \<or> ended (thread s i)"
  using size_invD(1)[OF threaded_invD(1)[OF assms(1)], of i] assms(2)
  by (cases "thread s i") (auto simp: early_def entered_def ended_def)

lemma entered_registered:
  assumes "threaded_inv s" "entered (thread s i)"
  shows "i < length (eventLoops s)" "eventLoops s ! i = Some i" "loop_exists (thread s i)"
proof -
  show len: "i < length (eventLoops s)"
    using in_range(3)[OF threaded_invD(1)[OF assms(1)], of i] assms(2) by (auto simp: entered_def)
  then show "eventLoops s ! i = Some i" using threaded_invD(2)[OF assms(1)] assms(2) by (simp add: register_inv_def)
  show "loop_exists (thread s i)" using assms(2) by (auto simp: entered_def loop_exists_def)
qed

end
