(* ===== verification/Server_Start.thy ===== *)
theory Server_Start
  imports Server_Threads
begin

text \<open>
  \<open>TcpServerThreaded::start\<close>: the handshake with the threads it creates, and that it cannot get stuck.
  The run at the end is a server with one thread besides the base.
\<close>

text \<open>
  C32. The handshake of \<open>start\<close>. While \<open>start\<close> waits on the condition variable for thread \<open>i\<close>, that
  thread has not registered its loop and will notify: no notification is lost. When \<open>start\<close> has
  returned and the base loop runs, \<open>threads_\<close> holds the threads 1 to \<open>numThreads_ - 1\<close>, and the loop
  of each of them exists and is registered at its index, which is in range.
\<close>

theorem start_handshake:
  assumes "reach threaded_start threaded_step s"
  shows "(base s \<noteq> BWaiting i \<or> early (thread s i))
     \<and> (base s \<noteq> BRunning \<or> threads s = [1..<numThreads s] \<and> (\<forall>j \<in> set (threads s).
          j < length (eventLoops s) \<and> eventLoops s ! j = Some j \<and> loop_exists (thread s j)))"
proof -
  note inv = srv.reach_inv[OF assms]
  have "threads s = [1..<numThreads s] \<and> (\<forall>j \<in> set (threads s).
      j < length (eventLoops s) \<and> eventLoops s ! j = Some j \<and> loop_exists (thread s j))" if b: "base s = BRunning"
  proof -
    have "started s" using threaded_invD(1)[OF inv] b by (simp add: size_inv_def)
    then have c: "created s = numThreads s" "seen s = created s" using b by (simp_all add: base_pc_simps)
    have "entered (thread s j)" if j: "j \<in> {1..<created s}" for j
      using thread_cases[OF inv j] handshake_invD(6)[OF threaded_invD(4)[OF inv], of j] c j
        threaded_invD(3)[OF inv] b by (auto simp: quit_inv_def asked_def)
    then show ?thesis using size_invD(4)[OF threaded_invD(1)[OF inv]] c entered_registered[OF inv] by simp
  qed
  then show ?thesis using handshake_invD(5)[OF threaded_invD(4)[OF inv], of i] by blast
qed

subsection \<open>Progress of start\<close>

fun early_work :: "thread_pc \<Rightarrow> nat" where
  "early_work TInit = 11"
| "early_work TLock = 10"
| "early_work THold = 9"
| "early_work _ = 0"

fun start_work :: "nat \<Rightarrow> (nat \<Rightarrow> thread_pc) \<Rightarrow> base_pc \<Rightarrow> nat" where
  "start_work n th (BCreate i) = (n - i) * 20 + 18"
| "start_work n th (BLock i) = (n - i) * 20 + early_work (th i) + 4"
| "start_work n th (BTest i) = (n - i) * 20 + early_work (th i) + 3"
| "start_work n th (BSleep i) = (n - i) * 20 + early_work (th i) + 2"
| "start_work n th (BWaiting i) = (n - i) * 20 + early_work (th i) + 1"
| "start_work n th _ = 0"

lemma early_moves:
  assumes "threaded_inv s" "base s = BLock i \<or> base s = BWaiting i" "early (thread s i)"
  shows "\<exists>t. threaded_step s t \<and> starting (base t)
    \<and> start_work (numThreads t) (thread t) (base t) < start_work (numThreads s) (thread s) (base s)"
proof -
  have free: "thread s i = TLock \<Longrightarrow> guard s = Unlocked"
  proof (cases "guard s")
    case (HeldBy j)
    then have "thread s j = THold" using threaded_invD(5)[OF assms(1)] by (simp add: guard_inv_def)
    moreover have "seen s = i" "created s = Suc i" using assms(2) by (auto simp: base_pc_simps)
    ultimately have "j = i"
      using handshake_invD(6)[OF threaded_invD(4)[OF assms(1)], of j] in_range(2)[OF threaded_invD(1)[OF assms(1)], of j]
      by (cases "j < i") auto
    then show "thread s i = TLock \<Longrightarrow> guard s = Unlocked" using \<open>thread s j = THold\<close> by simp
  qed (use threaded_invD(5)[OF assms(1)] assms(2) in \<open>auto simp: guard_inv_def\<close>)
  consider "thread s i = TInit" | "thread s i = TLock" | "thread s i = THold" using assms(3) by (auto simp: early_def)
  then show ?thesis
  proof cases
    case 1
    show ?thesis by (intro exI conjI, rule threaded_step.t_init[OF 1]) (use assms(2) 1 in \<open>auto\<close>)
  next
    case 2
    show ?thesis by (intro exI conjI, rule threaded_step.t_lock[OF 2 free[OF 2]]) (use assms(2) 2 in \<open>auto\<close>)
  next
    case 3
    show ?thesis by (intro exI conjI, rule threaded_step.t_register[OF 3]) (use assms(2) 3 in \<open>auto simp: woken_def\<close>)
  qed
qed

lemma start_advances:
  assumes "threaded_inv s" "starting (base s)"
  shows "\<exists>t. threaded_step s t \<and> (starting (base t) \<or> base t = BRunning)
    \<and> start_work (numThreads t) (thread t) (base t) < start_work (numThreads s) (thread s) (base s)"
proof -
  have le: "created s \<le> numThreads s" using size_invD(2)[OF threaded_invD(1)[OF assms(1)]] .
  have free: "guard s = Unlocked" if "base s = BLock i" "\<not> early (thread s i)" for i
  proof (cases "guard s")
    case (HeldBy j)
    then have j: "thread s j = THold" using threaded_invD(5)[OF assms(1)] by (simp add: guard_inv_def)
    then have "j \<noteq> i" using that(2) by auto
    moreover have "j < Suc i" using in_range(2)[OF threaded_invD(1)[OF assms(1)], of j] j that(1) by (simp add: base_pc_simps)
    ultimately show ?thesis
      using handshake_invD(6)[OF threaded_invD(4)[OF assms(1)], of j] j that(1) by (simp add: base_pc_simps)
  qed (use threaded_invD(5)[OF assms(1)] that(1) in \<open>auto simp: guard_inv_def\<close>)
  show ?thesis
  proof (cases "base s")
    case (BCreate i)
    show ?thesis
    proof (cases "i < numThreads s")
      case True
      show ?thesis by (intro exI conjI, rule threaded_step.create[OF BCreate True]) (use BCreate True in auto)
    next
      case False
      show ?thesis by (intro exI conjI, rule threaded_step.all_created[OF BCreate False]) (use BCreate in auto)
    qed
  next
    case (BLock i)
    show ?thesis
    proof (cases "early (thread s i)")
      case True
      from early_moves[OF assms(1) _ True] BLock show ?thesis by blast
    next
      case False
      show ?thesis by (intro exI conjI, rule threaded_step.b_lock[OF BLock free[OF BLock False]]) (use BLock in auto)
    qed
  next
    case (BTest i)
    show ?thesis
    proof (cases "eventLoops s ! i")
      case None
      show ?thesis by (intro exI conjI, rule threaded_step.b_null[OF BTest None]) (use BTest in auto)
    next
      case (Some j)
      have d: "numThreads s - i = Suc (numThreads s - Suc i)" using le BTest by (simp add: base_pc_simps)
      show ?thesis by (intro exI conjI, rule threaded_step.b_next[OF BTest Some]) (use BTest d in auto)
    qed
  next
    case (BSleep i)
    show ?thesis by (intro exI conjI, rule threaded_step.b_wait[OF BSleep]) (use BSleep in auto)
  next
    case (BWaiting i)
    from early_moves[OF assms(1) _ handshake_invD(5)[OF threaded_invD(4)[OF assms(1)] BWaiting]] BWaiting
    show ?thesis by blast
  qed (use assms(2) in auto)
qed

interpretation starting: progress threaded_step "\<lambda>s. threaded_inv s \<and> (starting (base s) \<or> base s = BRunning)"
  "\<lambda>s. base s = BRunning" "\<lambda>s. start_work (numThreads s) (thread s) (base s)"
  by unfold_locales (use start_advances threaded_inv_step in blast)

text \<open>
  C33. \<open>start\<close> cannot get stuck: from every state the system can reach while \<open>start\<close> runs, whatever
  the threads and spurious wake-ups have done so far, steps of the base and of the thread it is
  waiting for lead to the state in which \<open>start\<close> has returned.
\<close>

theorem start_completes:
  assumes "reach threaded_start threaded_step s" "starting (base s)"
  shows "\<exists>ts. path threaded_step s ts \<and> base (last (s # ts)) = BRunning"
  using starting.reaches_goal srv.reach_inv[OF assms(1)] assms(2) by simp

subsection \<open>Runs\<close>

text \<open>A server with two threads, the base and thread 1, once \<open>start\<close> has returned.\<close>

definition duo :: "base_pc \<Rightarrow> thread_pc \<Rightarrow> nat option \<Rightarrow> bool \<Rightarrow> bool \<Rightarrow> threaded" where
  "duo b pc e q r = \<lparr>numThreads = 2, started = True, threads = [1], eventLoops = [None, e], guard = Unlocked,
     base = b, thread = (\<lambda>_. TNone)(1 := pc), loopQuit = (\<lambda>_. False)(1 := q), readable = (\<lambda>_. False)(1 := r)\<rparr>"

lemma duo_reachable: "reach threaded_start threaded_step (duo BRunning TStarting (Some 1) False False)"
proof -
  let ?s0 = TcpServerThreaded_new
  let ?s1 = "?s0\<lparr>numThreads := 2, eventLoops := [None, None]\<rparr>"
  let ?s2 = "?s1\<lparr>started := True, base := BCreate 1\<rparr>"
  let ?s3 = "?s2\<lparr>thread := (thread ?s2)(1 := TInit), base := BLock 1\<rparr>"
  let ?s4 = "?s3\<lparr>thread := (thread ?s3)(1 := TLock)\<rparr>"
  let ?s5 = "?s4\<lparr>thread := (thread ?s4)(1 := THold), guard := HeldBy 1\<rparr>"
  let ?s6 = "?s5\<lparr>thread := (thread ?s5)(1 := TStarting), eventLoops := (eventLoops ?s5)[1 := Some 1],
        base := woken (base ?s5), guard := Unlocked\<rparr>"
  let ?s7 = "?s6\<lparr>base := BTest 1, guard := HeldByBase\<rparr>"
  let ?s8 = "?s7\<lparr>base := BCreate (Suc 1), guard := Unlocked, threads := threads ?s7 @ [1]\<rparr>"
  let ?s9 = "?s8\<lparr>base := BRunning\<rparr>"
  have 1: "threaded_step ?s0 ?s1"
    by (rule threaded_step.set_num[of _ 2]) (simp_all add: TcpServerThreaded_new_def setNumThread_def assertR_def numeral_2_eq_2)
  have 2: "threaded_step ?s1 ?s2"
    using threaded_step.start[of ?s1] by (simp add: TcpServerThreaded_new_def TcpServerThreaded_start_def)
  have 3: "threaded_step ?s2 ?s3" by (rule threaded_step.create) (simp_all add: TcpServerThreaded_new_def)
  have 4: "threaded_step ?s3 ?s4" by (rule threaded_step.t_init) simp
  have 5: "threaded_step ?s4 ?s5" by (rule threaded_step.t_lock) (simp_all add: TcpServerThreaded_new_def)
  have 6: "threaded_step ?s5 ?s6" by (rule threaded_step.t_register) simp
  have 7: "threaded_step ?s6 ?s7" by (rule threaded_step.b_lock) (simp_all add: woken_def)
  have 8: "threaded_step ?s7 ?s8" by (rule threaded_step.b_next[of _ _ 1]) (simp_all add: TcpServerThreaded_new_def)
  have 9: "threaded_step ?s8 ?s9" by (rule threaded_step.all_created[of _ "Suc 1"]) (simp_all add: TcpServerThreaded_new_def)
  have "?s9 = duo BRunning TStarting (Some 1) False False"
    by (simp add: duo_def TcpServerThreaded_new_def fun_eq_iff)
  with 9 have 9: "threaded_step ?s8 (duo BRunning TStarting (Some 1) False False)" by (simp only:)
  from 1 2 3 4 5 6 7 8 9 have "path threaded_step ?s0 [?s1, ?s2, ?s3, ?s4, ?s5, ?s6, ?s7, ?s8, duo BRunning TStarting (Some 1) False False]"
    by (simp only: path.simps simp_thms)
  from reach_path[OF reach_start[of threaded_start, OF threaded_start_def[THEN iffD2, OF refl]] this]
  show ?thesis by (simp only: last.simps list.simps if_False if_True refl)
qed

theorem start_handshake_witness:
  "\<exists>s. reach threaded_start threaded_step s \<and> base s = BRunning \<and> threads s = [1]
     \<and> (\<forall>j \<in> set (threads s). j < length (eventLoops s) \<and> eventLoops s ! j = Some j \<and> loop_exists (thread s j))"
proof -
  have "base (duo BRunning TStarting (Some 1) False False) = BRunning"
    "threads (duo BRunning TStarting (Some 1) False False) = [1]" by (simp_all add: duo_def)
  with start_handshake[OF duo_reachable] duo_reachable show ?thesis by blast
qed

theorem start_completes_witness:
  "\<exists>s ts. base s = BCreate 1 \<and> path threaded_step s ts \<and> base (last (s # ts)) = BRunning"
proof -
  let ?s = "TcpServerThreaded_start TcpServerThreaded_new"
  have "reach threaded_start threaded_step ?s"
    by (rule reach_step, rule reach_start, rule threaded_start_def[THEN iffD2, OF refl], rule threaded_step.start)
       (simp add: TcpServerThreaded_new_def)
  moreover have b: "base ?s = BCreate 1" by (simp add: TcpServerThreaded_start_def TcpServerThreaded_new_def)
  ultimately have "\<exists>ts. path threaded_step ?s ts \<and> base (last (?s # ts)) = BRunning"
    using start_completes[of ?s] by simp
  with b show ?thesis by blast
qed

end
