(* ===== verification/Server_Stop.thy ===== *)
theory Server_Stop
  imports Server_Start
begin

text \<open>
  The destructor of \<open>TcpServerThreaded\<close>: what it may rely on, that it can finish when all loops run,
  and the two races it has otherwise.
\<close>

subsection \<open>The destructor\<close>


text \<open>
  Where all loops run when the destructor begins: each thread is inside \<open>loop()\<close>, and nobody has
  asked it to quit.
\<close>

definition all_looping :: "threaded \<Rightarrow> bool" where
  "all_looping s \<longleftrightarrow> threaded_inv s \<and> base s = BQuit 0 \<and> (\<forall>i. \<not> loopQuit s i)
     \<and> (\<forall>i \<in> set (threads s). thread s i = TTest \<or> thread s i = TPolling)"

text \<open>A thread that will end: it is past its loop, or its \<open>quit_\<close> is set and it is awake or will be.\<close>

definition quitting_ok :: "threaded \<Rightarrow> nat \<Rightarrow> bool" where
  "quitting_ok s i \<longleftrightarrow> ended (thread s i)
     \<or> loopQuit s i \<and> (thread s i = TTest \<or> thread s i = TPolling \<and> readable s i)"

fun told :: "base_pc \<Rightarrow> nat \<Rightarrow> bool" where
  "told (BQuit k) i = (i < k)"
| "told (BCall k) i = (i < k)"
| "told (BWake k j) i = (i < k)"
| "told _ i = True"

fun stopping :: "base_pc \<Rightarrow> bool" where
  "stopping (BQuit k) = True"
| "stopping (BCall k) = True"
| "stopping (BWake k j) = True"
| "stopping (BJoin k) = True"
| "stopping BDone = True"
| "stopping BCrashed = True"
| "stopping _ = False"

definition stop_one :: "threaded \<Rightarrow> nat \<Rightarrow> bool" where
  "stop_one s i \<longleftrightarrow> (thread s i = TTest \<or> thread s i = TPolling \<or> ended (thread s i))
     \<and> (base s \<noteq> BCrashed \<longrightarrow> told (base s) i \<longrightarrow> quitting_ok s i) \<and> (base s = BWake i i \<longrightarrow> loopQuit s i)"

definition stop_inv :: "threaded \<Rightarrow> bool" where
  "stop_inv s \<longleftrightarrow> threaded_inv s \<and> stopping (base s) \<and> (\<forall>i \<in> set (threads s). stop_one s i)"

lemma stop_inv_start: "all_looping s \<Longrightarrow> stop_inv s"
  by (auto simp: all_looping_def stop_inv_def stop_one_def)

lemma stop_threads:
  assumes "stop_inv s" "thread s i \<noteq> TNone"
  shows "i \<in> set (threads s)"
proof -
  have inv: "size_inv s" using assms(1) threaded_invD(1) by (simp add: stop_inv_def)
  have "seen s = created s" using assms(1) by (cases "base s") (auto simp: stop_inv_def base_pc_simps)
  then show ?thesis using size_invD(1)[OF inv, of i] size_invD(4)[OF inv] assms(2) by simp
qed

text \<open>A step of a thread of the server while the destructor runs.\<close>

lemma stop_thread_step:
  assumes "stop_inv s" "thread s i \<noteq> TNone"
    and "threaded_inv (s\<lparr>thread := (thread s)(i := pc), eventLoops := e, readable := r\<rparr>)"
    and "pc = TTest \<or> pc = TPolling \<or> ended pc" "\<And>j. j \<noteq> i \<Longrightarrow> r j = readable s j"
    and "quitting_ok s i \<Longrightarrow> ended pc \<or> pc = TTest \<and> loopQuit s i"
  shows "stop_inv (s\<lparr>thread := (thread s)(i := pc), eventLoops := e, readable := r\<rparr>)"
proof -
  have one: "stop_one s j" if "j \<in> set (threads s)" for j using assms(1) that by (simp add: stop_inv_def)
  have "stop_one (s\<lparr>thread := (thread s)(i := pc), eventLoops := e, readable := r\<rparr>) j" if j: "j \<in> set (threads s)" for j
  proof (cases "j = i")
    case True
    then show ?thesis using one[OF j] assms(4,6) by (auto simp: stop_one_def quitting_ok_def)
  next
    case False
    then show ?thesis using one[OF j] assms(5)[OF False] by (simp add: stop_one_def quitting_ok_def)
  qed
  then show ?thesis using assms(1,3) by (simp add: stop_inv_def)
qed

lemma stop_inv_step:
  assumes "stop_inv s" "threaded_step s t"
  shows "stop_inv t"
proof -
  have inv: "threaded_inv s" and st: "stopping (base s)" using assms(1) by (simp_all add: stop_inv_def)
  have inv': "threaded_inv t" by (rule threaded_inv_step[OF inv assms(2)])
  have th: "thread s i = TTest \<or> thread s i = TPolling \<or> ended (thread s i)" if "thread s i \<noteq> TNone" for i
    using assms(1) stop_threads[OF assms(1) that] by (simp add: stop_inv_def stop_one_def)
  show ?thesis using assms(2)
  proof (cases rule: threaded_step.cases)
    case (t_test i)
    have "stop_inv (s\<lparr>thread := (thread s)(i := (if loopQuit s i then TLeft else TPolling)),
        eventLoops := eventLoops s, readable := readable s\<rparr>)"
      using assms(1) t_test inv' by (intro stop_thread_step) (auto simp: quitting_ok_def ended_def)
    then show ?thesis using t_test(1) by simp
  next
    case (t_woken i)
    have "stop_inv (s\<lparr>thread := (thread s)(i := TTest),
        eventLoops := eventLoops s, readable := (readable s)(i := False)\<rparr>)"
      using assms(1) t_woken inv' by (intro stop_thread_step) (auto simp: quitting_ok_def ended_def)
    then show ?thesis using t_woken(1) by simp
  next
    case (t_other i)
    have "stop_inv (s\<lparr>thread := (thread s)(i := TTest), eventLoops := eventLoops s, readable := readable s\<rparr>)"
      using assms(1) t_other inv' by (intro stop_thread_step) (auto simp: quitting_ok_def ended_def)
    then show ?thesis using t_other(1) by simp
  next
    case (t_unregister i)
    have "stop_inv (s\<lparr>thread := (thread s)(i := TNulled),
        eventLoops := (eventLoops s)[i := None], readable := readable s\<rparr>)"
      using assms(1) t_unregister inv' by (intro stop_thread_step) (auto simp: ended_def)
    then show ?thesis using t_unregister(1) by simp
  next
    case (t_exit i)
    have "stop_inv (s\<lparr>thread := (thread s)(i := TExited), eventLoops := eventLoops s, readable := readable s\<rparr>)"
      using assms(1) t_exit inv' by (intro stop_thread_step) (auto simp: ended_def)
    then show ?thesis using t_exit(1) by simp
  next
    case (d_skip k)
    have "quitting_ok s i" if "i \<in> set (threads s)" "i < Suc k" for i
      using assms(1) that d_skip(2-4) entered_registered[OF inv, of i]
      by (cases "i = k") (auto simp: stop_inv_def stop_one_def quitting_ok_def entered_def)
    then show ?thesis using assms(1) d_skip(1,2) inv' by (auto simp: stop_inv_def stop_one_def quitting_ok_def)
  next
    case (d_quit_all k)
    have "i < k" if "i \<in> set (threads s)" for i
    proof -
      have "thread s i \<noteq> TNone" using assms(1) that by (auto simp: stop_inv_def stop_one_def ended_def)
      then show ?thesis using in_range(3)[OF threaded_invD(1)[OF inv]] d_quit_all(3) by fastforce
    qed
    then show ?thesis using assms(1) d_quit_all(1,2) inv' by (auto simp: stop_inv_def stop_one_def quitting_ok_def)
  next
    case (d_quit k j)
    have "j = k" using threaded_invD(2,3)[OF inv] d_quit(2,3) by (auto simp: register_inv_def quit_inv_def split: if_splits)
    then show ?thesis using assms(1) d_quit(1,2) inv' by (auto simp: stop_inv_def stop_one_def quitting_ok_def)
  next
    case (d_wake k j)
    have "j = k" using threaded_invD(3)[OF inv] d_wake(2) by (auto simp: quit_inv_def)
    then show ?thesis using assms(1) d_wake inv' by (auto simp: stop_inv_def stop_one_def quitting_ok_def less_Suc_eq split: if_splits)
  next
    case (t_register i)
    then show ?thesis using th[of i] by (simp add: ended_def)
  qed (use assms(1) st th inv' in \<open>auto simp: stop_inv_def stop_one_def quitting_ok_def ended_def\<close>)
qed

fun thread_work :: "thread_pc \<Rightarrow> nat" where
  "thread_work TPolling = 4"
| "thread_work TTest = 3"
| "thread_work TLeft = 2"
| "thread_work TNulled = 1"
| "thread_work _ = 0"

fun join_work :: "nat list \<Rightarrow> (nat \<Rightarrow> thread_pc) \<Rightarrow> base_pc \<Rightarrow> nat" where
  "join_work ts th (BJoin k) = Suc (10 * (length ts - k)) + (if k < length ts then thread_work (th (ts ! k)) else 0)"
| "join_work ts th _ = 0"

lemma thread_work_le: "thread_work pc \<le> 4"
  by (cases pc) simp_all

lemma join_advances:
  assumes "stop_inv s" "base s = BJoin k"
  shows "\<exists>t. threaded_step s t \<and> (\<exists>k. base t = BJoin k \<or> base t = BDone)
    \<and> join_work (threads t) (thread t) (base t) < join_work (threads s) (thread s) (base s)"
proof (cases "k < length (threads s)")
  case False
  show ?thesis by (intro exI conjI, rule threaded_step.d_done[OF assms(2) False]) (use assms(2) in auto)
next
  case True
  let ?i = "threads s ! k"
  have "?i \<in> set (threads s)" using True by simp
  then have "quitting_ok s ?i" using assms by (simp add: stop_inv_def stop_one_def)
  then consider "thread s ?i = TTest" "loopQuit s ?i" | "thread s ?i = TPolling" "readable s ?i" | "thread s ?i = TLeft"
    | "thread s ?i = TNulled" | "thread s ?i = TExited" by (auto simp: quitting_ok_def ended_def)
  then show ?thesis
  proof cases
    case 1
    show ?thesis by (intro exI conjI, rule threaded_step.t_test[OF 1(1)]) (use assms(2) True 1 in auto)
  next
    case 2
    show ?thesis by (intro exI conjI, rule threaded_step.t_woken[OF 2]) (use assms(2) True 2 in auto)
  next
    case 3
    show ?thesis by (intro exI conjI, rule threaded_step.t_unregister[OF 3]) (use assms(2) True 3 in auto)
  next
    case 4
    show ?thesis by (intro exI conjI, rule threaded_step.t_exit[OF 4]) (use assms(2) True 4 in auto)
  next
    case 5
    have "10 * (length (threads s) - k) = 10 + 10 * (length (threads s) - Suc k)" using True by simp
    then have "join_work (threads s) (thread s) (BJoin (Suc k)) < join_work (threads s) (thread s) (BJoin k)"
      using thread_work_le[of "thread s (threads s ! Suc k)"] by simp
    then show ?thesis using threaded_step.d_join[OF assms(2) True 5] assms(2) by force
  qed
qed

interpretation joining: progress threaded_step "\<lambda>s. stop_inv s \<and> (\<exists>k. base s = BJoin k \<or> base s = BDone)"
  "\<lambda>s. base s = BDone" "\<lambda>s. join_work (threads s) (thread s) (base s)"
  by unfold_locales (use join_advances stop_inv_step in blast)

interpretation stopping: safe_system all_looping threaded_step stop_inv
  by unfold_locales (fact stop_inv_start, fact stop_inv_step)


lemma duo_steps:
  "threaded_step (duo b TStarting e q r) (duo b TTest e False r)"
  "threaded_step (duo b TTest e q r) (duo b (if q then TLeft else TPolling) e q r)"
  "threaded_step (duo b TPolling e q True) (duo b TTest e q False)"
  "threaded_step (duo b TPolling e q r) (duo b TTest e q r)"
  "threaded_step (duo b TLeft e q r) (duo b TNulled None q r)"
  "threaded_step (duo b TNulled e q r) (duo b TExited e q r)"
  "threaded_step (duo BRunning pc e q r) (duo (BQuit 0) pc e q r)"
  "threaded_step (duo (BQuit 0) pc e q r) (duo (BQuit 1) pc e q r)"
  "threaded_step (duo (BQuit 1) pc (Some j) q r) (duo (BCall 1) pc (Some j) q r)"
  "threaded_step (duo (BCall 1) pc (Some 1) False r) (duo (BWake 1 1) pc (Some 1) True r)"
  "loop_exists pc \<Longrightarrow> threaded_step (duo (BWake 1 1) pc e q r) (duo (BQuit 2) pc e q True)"
  "\<not> loop_exists pc \<Longrightarrow> threaded_step (duo (BWake 1 1) pc e q r) (duo BCrashed pc e q r)"
  "threaded_step (duo (BQuit 2) pc e q r) (duo (BJoin 0) pc e q r)"
  using threaded_step.t_enter[of "duo b TStarting e q r" 1] threaded_step.t_test[of "duo b TTest e q r" 1]
    threaded_step.t_woken[of "duo b TPolling e q True" 1] threaded_step.t_other[of "duo b TPolling e q r" 1]
    threaded_step.t_unregister[of "duo b TLeft e q r" 1] threaded_step.t_exit[of "duo b TNulled e q r" 1]
    threaded_step.destroy[of "duo BRunning pc e q r"] threaded_step.d_skip[of "duo (BQuit 0) pc e q r" 0]
    threaded_step.d_found[of "duo (BQuit 1) pc (Some j) q r" 1 j]
    threaded_step.d_quit[of "duo (BCall 1) pc (Some 1) False r" 1 1]
    threaded_step.d_wake[of "duo (BWake 1 1) pc e q r" 1 1]
    threaded_step.d_quit_all[of "duo (BQuit 2) pc e q r" 2]
  by (simp_all add: duo_def numeral_2_eq_2)

lemmas duo_run = duo_steps[unfolded One_nat_def]

text \<open>The destructor waits for thread 1, whose loop nobody asks to quit any more.\<close>

definition waiting :: "threaded \<Rightarrow> bool" where
  "waiting s \<longleftrightarrow> base s = BJoin 0 \<and> threads s = [1] \<and> \<not> loopQuit s 1 \<and> (thread s 1 = TTest \<or> thread s 1 = TPolling)"

lemma waiting_step: "threaded_step s t \<Longrightarrow> waiting s \<Longrightarrow> waiting t"
  by (cases rule: threaded_step.cases, assumption) (auto simp: waiting_def woken_def)

lemma waits_forever:
  assumes "waiting s"
  shows "{t. reach (\<lambda>u. u = s) threaded_step t} \<subseteq> {t. base t = BJoin 0 \<and> thread t 1 \<noteq> TExited}"
proof clarify
  fix t
  assume "reach (\<lambda>u. u = s) threaded_step t"
  then have "waiting t" by (induction rule: reach.induct) (auto intro: waiting_step assms)
  then show "base t = BJoin 0 \<and> thread t 1 \<noteq> TExited" by (auto simp: waiting_def)
qed

text \<open>
  C36. Two races of the destructor. (1) There is a run in which a loop returns for another event after
  \<open>quit\<close> has stored \<open>quit_\<close>, and its thread ends and destroys the loop before \<open>quit\<close> calls \<open>wakeup\<close>
  on it. (2) There is a run in which the destructor reaches the join of a thread that had registered
  its loop but not entered \<open>loop()\<close> when it was asked to quit; \<open>loop()\<close> has reset \<open>quit_\<close>, and
  whatever happens from then on, the thread does not end and the destructor does not return.
\<close>

theorem destructor_races:
  "(\<exists>s. reach threaded_start threaded_step s \<and> base s = BCrashed)
   \<and> (\<exists>s. reach threaded_start threaded_step s \<and> base s = BJoin 0 \<and> threads s = [1]
        \<and> {t. reach (\<lambda>u. u = s) threaded_step t} \<subseteq> {t. base t = BJoin 0 \<and> thread t 1 \<noteq> TExited})"
proof
  have "path threaded_step (duo BRunning TStarting (Some 1) False False)
    [duo BRunning TTest (Some 1) False False, duo BRunning TPolling (Some 1) False False,
     duo (BQuit 0) TPolling (Some 1) False False, duo (BQuit 1) TPolling (Some 1) False False,
     duo (BCall 1) TPolling (Some 1) False False, duo (BWake 1 1) TPolling (Some 1) True False,
     duo (BWake 1 1) TTest (Some 1) True False, duo (BWake 1 1) TLeft (Some 1) True False,
     duo (BWake 1 1) TNulled None True False, duo (BWake 1 1) TExited None True False,
     duo BCrashed TExited None True False]"
    using duo_run(2)[where q = False] duo_run(2)[where q = True]
    by (simp add: duo_run(1,4-10,12) loop_exists_def)
  from reach_path[OF duo_reachable this] show "\<exists>s. reach threaded_start threaded_step s \<and> base s = BCrashed"
    by (intro exI[of _ "duo BCrashed TExited None True False"]) (simp add: duo_def)
  let ?s = "duo (BJoin 0) TTest (Some 1) False True"
  have "path threaded_step (duo BRunning TStarting (Some 1) False False)
    [duo (BQuit 0) TStarting (Some 1) False False, duo (BQuit 1) TStarting (Some 1) False False,
     duo (BCall 1) TStarting (Some 1) False False, duo (BWake 1 1) TStarting (Some 1) True False,
     duo (BQuit 2) TStarting (Some 1) True True, duo (BJoin 0) TStarting (Some 1) True True, ?s]"
    by (simp add: duo_run(1,7-11,13) loop_exists_def)
  from reach_path[OF duo_reachable this] have r: "reach threaded_start threaded_step ?s" by simp
  have "{t. reach (\<lambda>u. u = ?s) threaded_step t} \<subseteq> {t. base t = BJoin 0 \<and> thread t 1 \<noteq> TExited}"
    by (rule waits_forever) (simp add: waiting_def duo_def)
  with r show "\<exists>s. reach threaded_start threaded_step s \<and> base s = BJoin 0 \<and> threads s = [1]
      \<and> {t. reach (\<lambda>u. u = s) threaded_step t} \<subseteq> {t. base t = BJoin 0 \<and> thread t 1 \<noteq> TExited}"
    by (intro exI[of _ ?s] conjI) (simp_all add: duo_def)
qed



end
