(* ===== verification/Logger.thy ===== *)
theory Logger
  imports Prelude Decimal
begin

text \<open>
  \<open>leven/util/Logger.h\<close> and \<open>Logger.c\<close>: log lines. A line is built in an array of \<open>MAXLINE\<close> bytes on
  the stack, whose contents before are the argument \<open>stack\<close>; the writes of \<open>sprintf\<close>, \<open>snprintf\<close> and
  \<open>vsnprintf\<close> into it are modelled with their bounds, and one outside the array is undefined
  behaviour. The broken-down time of \<open>gmtime_r\<close>, the process id, the message that \<open>fmt\<close> and its
  arguments expand to, the text of \<open>errno\<close> and whether \<open>dprintf\<close> fails are arguments. \<open>log_out\<close> is what
  has been written, with the descriptor.
\<close>

definition LOG_LEVEL_TRACE :: int where "LOG_LEVEL_TRACE = 0"
definition LOG_LEVEL_DEBUG :: int where "LOG_LEVEL_DEBUG = 1"
definition LOG_LEVEL_INFO :: int where "LOG_LEVEL_INFO = 2"
definition LOG_LEVEL_WARN :: int where "LOG_LEVEL_WARN = 3"
definition LOG_LEVEL_ERROR :: int where "LOG_LEVEL_ERROR = 4"
definition LOG_LEVEL_FATAL :: int where "LOG_LEVEL_FATAL = 5"

lemmas level_defs = LOG_LEVEL_TRACE_def LOG_LEVEL_DEBUG_def LOG_LEVEL_INFO_def LOG_LEVEL_WARN_def
  LOG_LEVEL_ERROR_def LOG_LEVEL_FATAL_def

definition MAXLINE :: nat where "MAXLINE = 256"
definition STDOUT_FILENO :: int where "STDOUT_FILENO = 1"

record logger =
  logLevel :: int
  log_fd :: int
  log_out :: "(int \<times> string) list"
  log_stderr :: "string list"

definition logger_init :: logger where
  "logger_init = \<lparr>logLevel = LOG_LEVEL_DEBUG, log_fd = STDOUT_FILENO, log_out = [], log_stderr = []\<rparr>"

definition log_level_str :: "string list" where
  "log_level_str = [''[TRACE]'', ''[DEBUG]'', ''[INFO] '', ''[WARN] '', ''[ERROR]'', ''[FATAL]'']"

definition setLogLevel :: "int \<Rightarrow> logger \<Rightarrow> logger" where
  "setLogLevel level lg =
     (let level = (if level < LOG_LEVEL_TRACE then LOG_LEVEL_TRACE else level);
          level = (if level > LOG_LEVEL_FATAL then LOG_LEVEL_FATAL else level)
      in lg\<lparr>logLevel := level\<rparr>)"

definition setLogFd :: "int \<Rightarrow> logger \<Rightarrow> logger" where
  "setLogFd fd lg = (let fd = (if fd \<le> 0 then STDOUT_FILENO else fd) in lg\<lparr>log_fd := fd\<rparr>)"

subsection \<open>The C library on an array\<close>

text \<open>Both return the number of characters the text has, and the array.\<close>

definition sprintf_at :: "nat \<Rightarrow> string \<Rightarrow> string \<Rightarrow> (nat \<times> string) result" where
  "sprintf_at i txt data =
     (if i + length txt + 1 \<le> length data then Inr (length txt, overwrite data i (txt @ [CHR 0x00]))
      else Inl UndefinedBehaviour)"

definition snprintf_at :: "nat \<Rightarrow> nat \<Rightarrow> string \<Rightarrow> string \<Rightarrow> (nat \<times> string) result" where
  "snprintf_at i n txt data =
     (if n = 0 then Inr (length txt, data)
      else let w = take (n - 1) txt @ [CHR 0x00]
           in if i + length w \<le> length data then Inr (length txt, overwrite data i w) else Inl UndefinedBehaviour)"

definition c_string :: "string \<Rightarrow> string" where
  "c_string data = takeWhile (\<lambda>c. c \<noteq> CHR 0x00) data"

text \<open>\<open>strrchr(file, '/') + 1\<close>, printed with \<open>%s\<close>: a file name without a slash makes it a bad pointer.\<close>

definition base_name :: "string \<Rightarrow> string result" where
  "base_name file =
     (if CHR ''/'' \<in> set file then Inr (rev (takeWhile (\<lambda>c. c \<noteq> CHR ''/'') (rev file))) else Inl UndefinedBehaviour)"

subsection \<open>Log lines\<close>

record broken_time =
  tm_year :: int
  tm_mon :: nat
  tm_mday :: nat
  tm_hour :: nat
  tm_min :: nat
  tm_sec :: nat
  tv_usec :: nat

definition timestamp_text :: "broken_time \<Rightarrow> string" where
  "timestamp_text t =
     (let y = decimal_int (tm_year t + 1900)
      in replicate (4 - length y) CHR '' '' @ y @ padded CHR ''0'' 2 (tm_mon t + 1) @ padded CHR ''0'' 2 (tm_mday t) @ '' ''
         @ padded CHR ''0'' 2 (tm_hour t) @ '':'' @ padded CHR ''0'' 2 (tm_min t) @ '':'' @ padded CHR ''0'' 2 (tm_sec t)
         @ ''.'' @ padded CHR ''0'' 6 (tv_usec t))"

definition log_timestamp :: "broken_time \<Rightarrow> string \<Rightarrow> nat \<Rightarrow> (nat \<times> string) result" where
  "log_timestamp t data len = snprintf_at 0 len (timestamp_text t) data"

definition log_head :: "broken_time \<Rightarrow> int \<Rightarrow> string \<Rightarrow> string \<Rightarrow> (nat \<times> string) result" where
  "log_head t pid tag data =
     bindR (log_timestamp t data 32) (\<lambda>(i, data).
     bindR (sprintf_at i ('' ['' @ decimal_int pid @ '']'') data) (\<lambda>(n, data).
     let i = i + n in
     bindR (sprintf_at i ('' '' @ tag @ '' '') data) (\<lambda>(n, data). Inr (i + n, data))))"

definition log_write :: "bool \<Rightarrow> string \<Rightarrow> logger \<Rightarrow> logger" where
  "log_write fails line lg = (if fails then lg else lg\<lparr>log_out := log_out lg @ [(log_fd lg, line)]\<rparr>)"

definition log_base :: "broken_time \<Rightarrow> int \<Rightarrow> bool \<Rightarrow> string \<Rightarrow> string \<Rightarrow> nat \<Rightarrow> int \<Rightarrow> bool \<Rightarrow> string \<Rightarrow> logger
    \<Rightarrow> (logger \<times> bool) result" where
  "log_base t pid fails stack file line level to_abort msg lg =
     (if 0 \<le> level \<and> level < int (length log_level_str)
      then bindR (log_head t pid (log_level_str ! nat level) stack) (\<lambda>(i, data).
           bindR (snprintf_at i (szsub MAXLINE i) msg data) (\<lambda>(n, data).
           bindR (base_name file) (\<lambda>name.
           let lg = log_write fails (c_string data @ '' - '' @ name @ '':'' @ decimal line @ [CHR 0x0A]) lg;
               lg = (if fails then lg\<lparr>log_stderr := log_stderr lg @ [''log failed'']\<rparr> else lg)
           in Inr (lg, to_abort))))
      else Inl UndefinedBehaviour)"

definition log_sys :: "broken_time \<Rightarrow> int \<Rightarrow> bool \<Rightarrow> string \<Rightarrow> string \<Rightarrow> nat \<Rightarrow> bool \<Rightarrow> string \<Rightarrow> string \<Rightarrow> logger
    \<Rightarrow> (logger \<times> bool) result" where
  "log_sys t pid fails stack file line to_abort msg err lg =
     bindR (log_head t pid (if to_abort then ''[SYSFA]'' else ''[SYSER]'') stack) (\<lambda>(i, data).
     bindR (snprintf_at i (szsub MAXLINE i) msg data) (\<lambda>(n, data).
     bindR (base_name file) (\<lambda>name.
       Inr (log_write fails (c_string data @ '': '' @ err @ '' - '' @ name @ '':'' @ decimal line @ [CHR 0x0A]) lg,
            to_abort))))"

text \<open>
  The macros \<open>TRACE\<close> to \<open>FATAL\<close>, by level. The second component of the result tells whether the
  process is aborted after the line.
\<close>

definition log_macro :: "broken_time \<Rightarrow> int \<Rightarrow> bool \<Rightarrow> string \<Rightarrow> string \<Rightarrow> nat \<Rightarrow> int \<Rightarrow> string \<Rightarrow> logger
    \<Rightarrow> (logger \<times> bool) result" where
  "log_macro t pid fails stack file line level msg lg =
     (if level \<ge> LOG_LEVEL_ERROR \<or> logLevel lg \<le> level
      then log_base t pid fails stack file line level (level = LOG_LEVEL_FATAL) msg lg
      else Inr (lg, False))"

subsection \<open>Lemmas\<close>

text \<open>\<open>holds_text data i\<close>: the array has a C string of \<open>i\<close> characters at its start.\<close>

definition holds_text :: "string \<Rightarrow> string \<Rightarrow> bool" where
  "holds_text data txt \<longleftrightarrow> length txt < length data \<and> take (length txt + 1) data = txt @ [CHR 0x00]"

lemma holds_prefix: "holds_text data a \<Longrightarrow> take (length a) data = a"
  unfolding holds_text_def by (metis append_eq_conv_conj le_add1 min.absorb1 take_take)

lemma overwrite_prefix:
  "take (length a) xs = a \<Longrightarrow> length a + length w \<le> length xs
   \<Longrightarrow> take (length a + length w) (overwrite xs (length a) w) = a @ w"
  by (simp add: overwrite_def)

lemma sprintf_extends:
  assumes "holds_text data a" "length a + length b < length data"
  shows "\<exists>data'. sprintf_at (length a) b data = Inr (length b, data') \<and> holds_text data' (a @ b) \<and> length data' = length data"
proof -
  note holds_prefix[OF assms(1)]
  then have "take (length a + length b + 1) (overwrite data (length a) (b @ [CHR 0x00])) = a @ b @ [CHR 0x00]"
    using assms(2) by (simp add: overwrite_def)
  then show ?thesis using assms by (auto simp: sprintf_at_def holds_text_def)
qed

lemma snprintf_extends:
  assumes "holds_text data a" "length data = MAXLINE"
  shows "\<exists>data'. snprintf_at (length a) (szsub MAXLINE (length a)) b data = Inr (length b, data')
    \<and> holds_text data' (a @ take (MAXLINE - 1 - length a) b) \<and> length data' = length data"
proof -
  have a: "length a < MAXLINE" using assms by (simp add: holds_text_def)
  then have n: "szsub MAXLINE (length a) = MAXLINE - length a"
    by (intro szsub_exact) (simp_all add: MAXLINE_def size_mod_def)
  let ?w = "take (MAXLINE - length a - 1) b @ [CHR 0x00]"
  have fit: "length a + length ?w \<le> length data" using a assms(2) by simp
  have "take (length a + length ?w) (overwrite data (length a) ?w) = a @ ?w"
    by (rule overwrite_prefix[OF holds_prefix[OF assms(1)] fit])
  moreover have "length a + length ?w = length (a @ take (MAXLINE - 1 - length a) b) + 1"
    "a @ ?w = (a @ take (MAXLINE - 1 - length a) b) @ [CHR 0x00]" by (simp_all add: diff_commute)
  ultimately have "holds_text (overwrite data (length a) ?w) (a @ take (MAXLINE - 1 - length a) b)"
    using fit unfolding holds_text_def by (metis length_overwrite less_eq_Suc_le Suc_eq_plus1 order_trans fit)
  then show ?thesis using a n fit by (auto simp: snprintf_at_def Let_def)
qed

lemma c_string_holds: "holds_text data txt \<Longrightarrow> no_nul txt \<Longrightarrow> c_string data = txt"
proof -
  assume h: "holds_text data txt" "no_nul txt"
  have "data = take (length txt + 1) data @ drop (length txt + 1) data" by simp
  also have "\<dots> = txt @ CHR 0x00 # drop (length txt + 1) data" using h(1) by (simp add: holds_text_def)
  finally have "c_string data = takeWhile (\<lambda>c. c \<noteq> CHR 0x00) (txt @ CHR 0x00 # drop (length txt + 1) data)"
    by (simp add: c_string_def)
  also have "\<dots> = txt" using h(2) by (subst takeWhile_append2) (auto simp: no_nul_def)
  finally show ?thesis .
qed

text \<open>What \<open>gmtime_r\<close> delivers.\<close>

definition valid_time :: "broken_time \<Rightarrow> bool" where
  "valid_time t \<longleftrightarrow> - (2 ^ 31) \<le> tm_year t + 1900 \<and> tm_year t + 1900 < 2 ^ 31 \<and> tm_mon t < 12 \<and> tm_mday t < 32
     \<and> tm_hour t < 24 \<and> tm_min t < 60 \<and> tm_sec t \<le> 60 \<and> tv_usec t < 1000000"

lemma timestamp_length:
  assumes "valid_time t"
  shows "length (timestamp_text t) \<le> 31" "no_nul (timestamp_text t)"
proof -
  have two: "length (padded CHR ''0'' 2 n) = 2" if "n < 100" for n
    using that length_padded[of n 1 2] by simp
  have six: "length (padded CHR ''0'' 6 (tv_usec t)) = 6"
    using assms length_padded[of "tv_usec t" 5 6] by (simp add: valid_time_def)
  have y: "length (decimal_int (tm_year t + 1900)) \<le> 11" using assms by (intro length_decimal_int) (simp_all add: valid_time_def)
  show "length (timestamp_text t) \<le> 31" using assms y six by (simp add: timestamp_text_def two valid_time_def Let_def)
  show "no_nul (timestamp_text t)" by (simp add: timestamp_text_def Let_def)
qed

definition head_text :: "broken_time \<Rightarrow> int \<Rightarrow> string \<Rightarrow> string" where
  "head_text t pid tag = timestamp_text t @ '' ['' @ decimal_int pid @ '']'' @ '' '' @ tag @ '' ''"

lemma log_head_ok:
  assumes "length stack = MAXLINE" "valid_time t" "- (2 ^ 31) \<le> pid" "pid < 2 ^ 31" "length tag = 7" "no_nul tag"
  shows "\<exists>data. log_head t pid tag stack = Inr (length (head_text t pid tag), data) \<and> holds_text data (head_text t pid tag)
     \<and> length data = MAXLINE"
    and "length (head_text t pid tag) \<le> 54" "no_nul (head_text t pid tag)"
proof -
  note ts = timestamp_length[OF assms(2)] and pl = length_decimal_int[OF assms(3,4)]
  let ?d0 = "overwrite stack 0 (timestamp_text t @ [CHR 0x00])"
  have "snprintf_at 0 32 (timestamp_text t) stack = Inr (length (timestamp_text t), ?d0)"
    using ts(1) assms(1) by (simp add: snprintf_at_def MAXLINE_def)
  moreover have d0: "holds_text ?d0 (timestamp_text t)" "length ?d0 = MAXLINE"
    using ts(1) assms(1) by (simp_all add: holds_text_def overwrite_def MAXLINE_def)
  moreover have "length (timestamp_text t) + length ('' ['' @ decimal_int pid @ '']'') < length ?d0"
    using ts(1) pl d0(2) by (simp add: MAXLINE_def)
  from sprintf_extends[OF d0(1) this] obtain d1 where
    d1: "sprintf_at (length (timestamp_text t)) ('' ['' @ decimal_int pid @ '']'') ?d0
        = Inr (length ('' ['' @ decimal_int pid @ '']''), d1)"
    "holds_text d1 (timestamp_text t @ '' ['' @ decimal_int pid @ '']'')" "length d1 = MAXLINE" using d0(2) by auto
  moreover have "length (timestamp_text t @ '' ['' @ decimal_int pid @ '']'') + length ('' '' @ tag @ '' '') < length d1"
    using ts(1) pl d1(3) assms(5) by (simp add: MAXLINE_def)
  from sprintf_extends[OF d1(2) this] obtain d2 where
    "sprintf_at (length (timestamp_text t @ '' ['' @ decimal_int pid @ '']'')) ('' '' @ tag @ '' '') d1
        = Inr (length ('' '' @ tag @ '' ''), d2)"
    "holds_text d2 (head_text t pid tag)" "length d2 = MAXLINE" using d1(3) by (auto simp: head_text_def)
  ultimately show "\<exists>data. log_head t pid tag stack = Inr (length (head_text t pid tag), data) \<and> holds_text data (head_text t pid tag)
     \<and> length data = MAXLINE"
    by (intro exI[of _ d2]) (simp add: log_head_def log_timestamp_def head_text_def add.assoc)
  show "length (head_text t pid tag) \<le> 54" "no_nul (head_text t pid tag)"
    using ts pl assms(5,6) by (simp_all add: head_text_def)
qed

lemma level_tag:
  assumes "0 \<le> level" "level \<le> LOG_LEVEL_FATAL"
  shows "level < int (length log_level_str)" "length (log_level_str ! nat level) = 7" "no_nul (log_level_str ! nat level)"
proof -
  have "level \<in> {0, 1, 2, 3, 4, 5}" using assms by (auto simp: level_defs)
  then show "level < int (length log_level_str)" "length (log_level_str ! nat level) = 7" "no_nul (log_level_str ! nat level)"
    by (auto simp: log_level_str_def)
qed

text \<open>
  C37. A log line stays inside its array. For any time, process id, message and file name with a
  directory, a macro of level \<open>level\<close> writes nothing outside the \<open>MAXLINE\<close> bytes; when the level is at
  least the threshold (always, for \<open>ERROR\<close> and \<open>FATAL\<close>) one line goes to the log descriptor: the head
  of at most 54 characters, the message cut to what is left of 255, the base name of the file and the
  line; otherwise nothing is written. Only \<open>FATAL\<close> aborts, whatever the threshold.
\<close>

theorem log_line_bounded:
  assumes "length stack = MAXLINE" "valid_time t" "- (2 ^ 31) \<le> pid" "pid < 2 ^ 31" "base_name file = Inr name"
    and "no_nul msg" "0 \<le> level" "level \<le> LOG_LEVEL_FATAL" "head = head_text t pid (log_level_str ! nat level)"
  shows "length head \<le> 54 \<and> log_macro t pid False stack file line level msg lg =
     Inr (if level \<ge> LOG_LEVEL_ERROR \<or> logLevel lg \<le> level
          then (lg\<lparr>log_out := log_out lg @ [(log_fd lg, head @ take (255 - length head) msg @ '' - '' @ name @ '':''
                   @ decimal line @ [CHR 0x0A])]\<rparr>, level = LOG_LEVEL_FATAL)
          else (lg, False))"
proof -
  note tag = level_tag[OF assms(7,8)]
  note h = log_head_ok[OF assms(1-4) tag(2,3), folded assms(9)]
  from h(1) obtain data where data: "log_head t pid (log_level_str ! nat level) stack = Inr (length head, data)"
    "holds_text data head" "length data = MAXLINE" by blast
  from snprintf_extends[OF data(2,3), of msg] obtain data' where data':
    "snprintf_at (length head) (szsub MAXLINE (length head)) msg data = Inr (length msg, data')"
    "holds_text data' (head @ take (255 - length head) msg)" by (auto simp: MAXLINE_def)
  have "c_string data' = head @ take (255 - length head) msg"
    by (rule c_string_holds[OF data'(2)]) (simp add: h(3) no_nul_take assms(6))
  then show ?thesis using h(2) data(1) data'(1) assms(5,7) tag(1)
    by (simp add: log_macro_def log_base_def log_write_def)
qed

theorem log_line_bounded_witness:
  "\<exists>lg. log_macro \<lparr>tm_year = 119, tm_mon = 3, tm_mday = 8, tm_hour = 9, tm_min = 5, tm_sec = 7, tv_usec = 42\<rparr> 77 False
       (replicate 256 CHR ''x'') ''/leven/EventLoop.cc'' 55 LOG_LEVEL_FATAL ''poll'' logger_init = Inr (lg, True)
     \<and> log_out lg = [(1, ''20190408 09:05:07.000042 [77] [FATAL] poll - EventLoop.cc:55'' @ [CHR 0x0A])]"
proof -
  let ?t = "\<lparr>tm_year = 119, tm_mon = 3, tm_mday = 8, tm_hour = 9, tm_min = 5, tm_sec = 7, tv_usec = 42\<rparr>"
  have "length (replicate 256 CHR ''x'') = MAXLINE" "valid_time ?t" "base_name ''/leven/EventLoop.cc'' = Inr ''EventLoop.cc''"
    "no_nul ''poll''" "0 \<le> LOG_LEVEL_FATAL" by (simp_all add: MAXLINE_def valid_time_def base_name_def level_defs)
  note b = log_line_bounded[OF this(1,2) _ _ this(3,4,5) order_refl refl, of 77 55 logger_init]
  have d: "decimal 2019 = ''2019''" "decimal 4 = ''4''" "decimal 8 = ''8''" "decimal 9 = ''9''" "decimal 5 = ''5''"
    "decimal 7 = ''7''" "decimal 42 = ''42''" "decimal 77 = ''77''" "decimal 55 = ''55''"
    by (simp_all add: decimal.simps digit_chars)
  have "head_text ?t 77 (log_level_str ! nat LOG_LEVEL_FATAL) = ''20190408 09:05:07.000042 [77] [FATAL] ''"
    by code_simp
  with b show ?thesis by (simp add: level_defs d logger_init_def STDOUT_FILENO_def)
qed

end
