(* ===== verification/Part.thy ===== *)
theory Part
  imports Channel
begin

text \<open>
  A part of a larger state, such as one connection among those of a loop. The locale \<open>part\<close> is the
  contract of reading the part and putting it back: an operation on the part acts on the whole
  through \<open>lift\<close>, as long as it only moves the part along the preorder \<open>grows\<close>. Then running two
  operations one after the other on the whole is running their composition on the part, and so is the
  dispatch of the events of a channel.
\<close>

definition growing :: "('v \<Rightarrow> 'v \<Rightarrow> bool) \<Rightarrow> 'v \<Rightarrow> 'v result \<Rightarrow> bool" where
  "growing g v r \<longleftrightarrow> (\<forall>v'. r = Inr v' \<longrightarrow> g v v')"

lemma growing_simps [simp]: "growing g v (Inr v') = g v v'" "growing g v (Inl e)"
  by (simp_all add: growing_def)

lemma growing_assertR: "(P \<Longrightarrow> growing g v k) \<Longrightarrow> growing g v (assertR P k)"
  by (cases P) simp_all

locale part =
  fixes here :: "'w \<Rightarrow> bool" and view :: "'w \<Rightarrow> 'v" and put :: "'v \<Rightarrow> 'w \<Rightarrow> 'w"
    and grows :: "'v \<Rightarrow> 'v \<Rightarrow> bool" and lift :: "('v \<Rightarrow> 'v result) \<Rightarrow> 'w \<Rightarrow> 'w result"
  assumes lift_run: "here w \<Longrightarrow> lift f w = bindR (f (view w)) (\<lambda>v. Inr (put v w))"
    and put_view: "here w \<Longrightarrow> put (view w) w = w"
    and view_put: "here w \<Longrightarrow> grows (view w) v \<Longrightarrow> here (put v w) \<and> view (put v w) = v"
    and put_put: "here w \<Longrightarrow> grows (view w) v \<Longrightarrow> grows v v' \<Longrightarrow> put v' (put v w) = put v' w"
    and grows_refl: "grows v v"
    and grows_trans: "grows u v \<Longrightarrow> grows v v' \<Longrightarrow> grows u v'"
begin

lemma growing_bindR:
  assumes "growing grows v m" "\<And>v1. grows v v1 \<Longrightarrow> growing grows v1 (f v1)"
  shows "growing grows v (bindR m f)"
  using assms by (cases m) (auto simp: growing_def intro: grows_trans)

lemma lift_Inr: "here w \<Longrightarrow> lift f w = Inr w' \<Longrightarrow> \<exists>v. f (view w) = Inr v \<and> w' = put v w"
  by (auto simp: lift_run bindR_Inr_iff)

lemma lift_id: "here w \<Longrightarrow> lift Inr w = Inr w"
  by (simp add: lift_run put_view)

lemma lift_bindR:
  assumes "here w" "growing grows (view w) (f (view w))" "\<And>v. growing grows v (g v)"
  shows "bindR (lift f w) (lift g) = lift (\<lambda>v. bindR (f v) g) w"
proof (cases "f (view w)")
  case (Inl e)
  then show ?thesis using assms(1) by (simp add: lift_run)
next
  case (Inr v)
  then have v: "grows (view w) v" using assms(2) by simp
  have "bindR (g v) (\<lambda>v'. Inr (put v' (put v w))) = bindR (g v) (\<lambda>v'. Inr (put v' w))"
    using assms(3)[of v] put_put[OF assms(1) v] by (cases "g v") simp_all
  then show ?thesis using Inr view_put[OF assms(1) v] by (simp add: lift_run assms(1))
qed

text \<open>\<open>lift_bindR\<close> where the second operation is only known to be the lifted one on such states.\<close>

lemma lift_then:
  assumes "here w" "growing grows (view w) (f (view w))" "\<And>v. growing grows v (g v)"
    and "\<And>w'. here w' \<Longrightarrow> g' w' = lift g w'"
  shows "bindR (lift f w) g' = lift (\<lambda>v. bindR (f v) g) w"
proof -
  have "bindR (lift f w) g' = bindR (lift f w) (lift g)"
    using assms(2,4) view_put[OF assms(1)] by (cases "f (view w)") (simp_all add: lift_run assms(1))
  then show ?thesis using lift_bindR[where f = f and g = g, OF assms(1-3)] by simp
qed

end

text \<open>Events of a channel that belongs to the part.\<close>

locale part_channel = part +
  fixes get :: "'v \<Rightarrow> channel option" and upd :: "(channel \<Rightarrow> channel) \<Rightarrow> 'v \<Rightarrow> 'v"
    and get' :: "'w \<Rightarrow> channel option" and upd' :: "(channel \<Rightarrow> channel) \<Rightarrow> 'w \<Rightarrow> 'w"
  assumes get_view: "here w \<Longrightarrow> get' w = get (view w)"
    and upd_put: "here w \<Longrightarrow> upd' (\<lambda>ch. ch\<lparr>handlingEvents := b\<rparr>) w = put (upd (\<lambda>ch. ch\<lparr>handlingEvents := b\<rparr>) (view w)) w"
    and upd_grows: "grows v (upd (\<lambda>ch. ch\<lparr>handlingEvents := b\<rparr>) v)"
begin

lemma call_if_lift:
  assumes "here w" "\<And>w k. here w \<Longrightarrow> cb' k w = lift (cb k) w"
  shows "call_if c k get' cb' w = lift (call_if c k get cb) w"
  using assms lift_run[OF assms(1)] put_view[OF assms(1)] get_view[OF assms(1)]
  by (simp add: call_if_def with_chan_def split: option.split)

lemma call_if_grows: "(\<And>v k. growing grows v (cb k v)) \<Longrightarrow> growing grows v (call_if c k get cb v)"
  by (simp add: call_if_def with_chan_def grows_refl split: option.split)

lemma handleEvents_grows:
  assumes "\<And>v k. growing grows v (cb k v)"
  shows "growing grows v (handleEventsWithGuard get upd cb v)"
proof -
  note stage = call_if_grows[of cb, OF assms]
  have "growing grows (upd (\<lambda>ch. ch\<lparr>handlingEvents := True\<rparr>) v)
     (bindR (call_if wants_close CloseCb get cb (upd (\<lambda>ch. ch\<lparr>handlingEvents := True\<rparr>) v)) (\<lambda>w1.
      bindR (call_if wants_error ErrorCb get cb w1) (\<lambda>w2.
      bindR (call_if wants_read ReadCb get cb w2) (\<lambda>w3.
      bindR (call_if wants_write WriteCb get cb w3) (\<lambda>w4.
      with_chan get w4 (\<lambda>_. Inr (upd (\<lambda>ch. ch\<lparr>handlingEvents := False\<rparr>) w4)))))))"
    by (intro growing_bindR stage) (simp add: with_chan_def upd_grows split: option.split)
  then show ?thesis unfolding handleEventsWithGuard_def growing_def with_chan_def
    by (auto intro: grows_trans[OF upd_grows] split: option.splits)
qed

lemma handleEvents_lift:
  assumes w: "here w" and cb: "\<And>w k. here w \<Longrightarrow> cb' k w = lift (cb k) w" and g: "\<And>v k. growing grows v (cb k v)"
  shows "handleEventsWithGuard get' upd' cb' w = lift (handleEventsWithGuard get upd cb) w"
proof -
  let ?clear = "\<lambda>v. with_chan get v (\<lambda>_. Inr (upd (\<lambda>ch. ch\<lparr>handlingEvents := False\<rparr>) v))"
  let ?clear' = "\<lambda>w. with_chan get' w (\<lambda>_. Inr (upd' (\<lambda>ch. ch\<lparr>handlingEvents := False\<rparr>) w))"
  let ?wr = "\<lambda>v. bindR (call_if wants_write WriteCb get cb v) ?clear"
  let ?rd = "\<lambda>v. bindR (call_if wants_read ReadCb get cb v) ?wr"
  let ?er = "\<lambda>v. bindR (call_if wants_error ErrorCb get cb v) ?rd"
  let ?cl = "\<lambda>v. bindR (call_if wants_close CloseCb get cb v) ?er"
  note stage = call_if_grows[of cb, OF g]
  have clg: "growing grows v (?clear v)" for v by (simp add: with_chan_def upd_grows split: option.split)
  have gs: "growing grows v (?wr v)" "growing grows v (?rd v)" "growing grows v (?er v)" for v
    by (intro growing_bindR stage clg)+
  have ci: "call_if c k get' cb' w = lift (call_if c k get cb) w" if "here w" for c k w
    by (rule call_if_lift[OF that]) (rule cb)
  have clear: "?clear' w = lift ?clear w" if "here w" for w
    using get_view[OF that] upd_put[OF that] lift_run[OF that] by (simp add: with_chan_def split: option.split)
  have wr: "bindR (call_if wants_write WriteCb get' cb' w) ?clear' = lift ?wr w" if "here w" for w
    unfolding ci[OF that] by (rule lift_then, rule that, rule stage, rule clg, erule clear)
  have rd: "bindR (call_if wants_read ReadCb get' cb' w) (\<lambda>w. bindR (call_if wants_write WriteCb get' cb' w) ?clear')
      = lift ?rd w" if "here w" for w
    unfolding ci[OF that] by (rule lift_then, rule that, rule stage, rule gs(1), erule wr)
  have er: "bindR (call_if wants_error ErrorCb get' cb' w) (\<lambda>w. bindR (call_if wants_read ReadCb get' cb' w)
      (\<lambda>w. bindR (call_if wants_write WriteCb get' cb' w) ?clear')) = lift ?er w" if "here w" for w
    unfolding ci[OF that] by (rule lift_then, rule that, rule stage, rule gs(2), erule rd)
  have cl: "bindR (call_if wants_close CloseCb get' cb' w) (\<lambda>w. bindR (call_if wants_error ErrorCb get' cb' w)
      (\<lambda>w. bindR (call_if wants_read ReadCb get' cb' w) (\<lambda>w. bindR (call_if wants_write WriteCb get' cb' w) ?clear')))
      = lift ?cl w" if "here w" for w
    unfolding ci[OF that] by (rule lift_then, rule that, rule stage, rule gs(3), erule er)
  let ?set = "upd (\<lambda>ch. ch\<lparr>handlingEvents := True\<rparr>)"
  have sg: "grows (view w) (?set (view w))" by (rule upd_grows)
  have "growing grows v (?cl v)" for v by (intro growing_bindR stage gs(3))
  then have "lift ?cl (put (?set (view w)) w) = bindR (lift (\<lambda>v. Inr (?set v)) w) (lift ?cl)"
    using lift_run[OF w] by simp
  also have "\<dots> = lift (\<lambda>v. bindR (Inr (?set v)) ?cl) w"
    by (rule lift_bindR[OF w]) (simp add: sg, intro growing_bindR stage gs(3))
  finally have "lift ?cl (put (?set (view w)) w) = lift (\<lambda>v. ?cl (?set v)) w" by simp
  then show ?thesis
    unfolding handleEventsWithGuard_def using cl[of "put (?set (view w)) w"] view_put[OF w sg] upd_put[OF w]
      get_view[OF w] lift_run[OF w]
    by (simp add: with_chan_def split: option.split)
qed

end

end
