(* ===== verification/Conn_Frame.thy ===== *)
theory Conn_Frame
  imports Conn_Client Part
begin

text \<open>
  What an operation of a connection leaves alone: the descriptor of its channel, the thread and the
  quit flag of the loop, the tasks already queued, and everything that other descriptors are registered for. This is
  what lets the connections of one loop be looked at one by one. \<open>conn_frame\<close> also has that the channel
  handles the same events, or none, as before.
\<close>

abbreviation kernel :: "'task eventloop \<Rightarrow> int \<rightharpoonup> mask" where
  "kernel l \<equiv> interest (ctl_log (poller l)) Map.empty"

definition conn_grows :: "'x conn_world \<Rightarrow> 'x conn_world \<Rightarrow> bool" where
  "conn_grows w w' \<longleftrightarrow> chfd (chan (snd w')) = chfd (chan (snd w)) \<and> callbacks (chan (snd w')) = callbacks (chan (snd w))
     \<and> threadId (fst w') = threadId (fst w)
     \<and> quitting (fst w') = quitting (fst w) \<and> (\<exists>new. pendingJobs (fst w') = pendingJobs (fst w) @ new)
     \<and> (\<forall>fd. fd \<noteq> chfd (chan (snd w)) \<longrightarrow> kernel (fst w') fd = kernel (fst w) fd)"

definition conn_frame :: "'x conn_world \<Rightarrow> 'x conn_world \<Rightarrow> bool" where
  "conn_frame w w' \<longleftrightarrow> chfd (chan (snd w')) = chfd (chan (snd w)) \<and> threadId (fst w') = threadId (fst w)
     \<and> callbacks (chan (snd w')) = callbacks (chan (snd w))
     \<and> handlingEvents (chan (snd w')) = handlingEvents (chan (snd w)) \<and> revents (chan (snd w')) = revents (chan (snd w))
     \<and> quitting (fst w') = quitting (fst w) \<and> (\<exists>new. pendingJobs (fst w') = pendingJobs (fst w) @ new)
     \<and> (\<forall>fd. fd \<noteq> chfd (chan (snd w)) \<longrightarrow> kernel (fst w') fd = kernel (fst w) fd)"

abbreviation framed :: "'x conn_world \<Rightarrow> 'x conn_world result \<Rightarrow> bool" where
  "framed \<equiv> growing conn_frame"

lemma conn_frame_refl [simp]: "conn_frame w w"
  by (simp add: conn_frame_def)

lemma conn_frame_trans: "conn_frame u v \<Longrightarrow> conn_frame v w \<Longrightarrow> conn_frame u w"
  by (auto simp: conn_frame_def)

lemma conn_frame_grows: "conn_frame w w' \<Longrightarrow> conn_grows w w'"
  by (simp add: conn_frame_def conn_grows_def)

lemma conn_grows_refl [simp]: "conn_grows w w"
  by (simp add: conn_grows_def)

lemma conn_grows_trans: "conn_grows u v \<Longrightarrow> conn_grows v w \<Longrightarrow> conn_grows u w"
  by (auto simp: conn_grows_def)

lemma framed_grows: "framed w r \<Longrightarrow> growing conn_grows w r"
  by (auto simp: growing_def conn_frame_grows)

lemma conn_frame_snd: "conn_frame w (l, c) \<Longrightarrow> chfd (chan c') = chfd (chan c) \<Longrightarrow> handlingEvents (chan c') = handlingEvents (chan c) \<Longrightarrow>
    revents (chan c') = revents (chan c) \<Longrightarrow> callbacks (chan c') = callbacks (chan c) \<Longrightarrow> conn_frame w (l, c')"
  by (simp add: conn_frame_def)

lemma conn_frame_queue [simp]: "conn_frame w (conn_queue tid t w)"
  by (simp add: conn_frame_def conn_queue_def)

lemma framed_bindR: "framed w m \<Longrightarrow> (\<And>w1. conn_frame w w1 \<Longrightarrow> framed w1 (f w1)) \<Longrightarrow> framed w (bindR m f)"
  by (cases m) (auto simp: growing_def intro: conn_frame_trans)

lemma framed_trans: "conn_frame w w1 \<Longrightarrow> framed w1 r \<Longrightarrow> framed w r"
  by (auto simp: growing_def intro: conn_frame_trans)

text \<open>For an operation that returns more than the state.\<close>

lemma framed_bindR_val:
  "(\<And>x. m = Inr x \<Longrightarrow> conn_frame w (g x)) \<Longrightarrow> (\<And>x. m = Inr x \<Longrightarrow> framed (g x) (f x)) \<Longrightarrow> framed w (bindR m f)"
  by (cases m) (auto intro: framed_trans)

lemma framed_assert: "framed w k \<Longrightarrow> framed w (assertR P k)" "framed w k \<Longrightarrow> framed w (assertInLoopThread tid l k)"
  by (simp_all add: growing_assertR assertInLoopThread_def)

lemma framed_if: "framed w a \<Longrightarrow> framed w b \<Longrightarrow> framed w (if P then a else b)"
  by simp

subsection \<open>Channels\<close>

lemma chan_do_kernel:
  assumes "chan_do op tid ch l = Inr (ch', l')"
  shows "fd \<noteq> chfd ch \<Longrightarrow> kernel l' fd = kernel l fd" "threadId l' = threadId l" "quitting l' = quitting l"
  using assms
  by (auto simp: chan_do_def EventLoop_updateChannel_def Epoller_updateChannel_def assertInLoopThread_def Epoller_ctl_def
      interest_append ctl_effect_other result_iffs Let_def split: if_splits)

lemma framed_conn_chan: "framed w (conn_chan op tid w)"
proof -
  have "conn_frame w w'" if r: "conn_chan op tid w = Inr w'" for w'
  proof -
    obtain ch l where c: "chan_do op tid (chan (snd w)) (fst w) = Inr (ch, l)" "w' = (l, (snd w)\<lparr>chan := ch\<rparr>)"
      using r by (auto simp: conn_chan_def bindR_Inr_iff)
    then show ?thesis using chan_do_kernel[OF c(1)] chan_do_frame(1)[OF c(1)] chan_do_keeps[OF c(1)]
      by (simp add: conn_frame_def)
  qed
  then show ?thesis by (simp add: growing_def)
qed

lemma framed_connectEstablished: "framed w (connectEstablished tid w)"
proof -
  have "conn_frame w (fst w, (snd w)\<lparr>state := kConnected, chan := Channel_tie (chan (snd w))\<rparr>)"
    by (simp add: conn_frame_def Channel_tie_def)
  then show ?thesis unfolding connectEstablished_def by (intro framed_assert framed_trans[OF _ framed_conn_chan])
qed

subsection \<open>Sending\<close>

lemma send_direct_frame: "send_direct tid wr data w = Inr (n, e, w1) \<Longrightarrow> conn_frame w w1"
  by (auto simp: send_direct_def Let_def assertR_Inr_iff conn_frame_def conn_queue_def split: if_splits syswrite.splits)

lemma framed_send_rest: "framed w (send_rest tid data n w)"
proof -
  define w1 where "w1 = (if highWaterMarkCb (snd w) \<and> readableBytes (outputBuffer (snd w)) < highWaterMark (snd w)
      \<and> szadd (readableBytes (outputBuffer (snd w))) (szsub (length data) n) \<ge> highWaterMark (snd w)
    then conn_queue tid (HighWater (szadd (readableBytes (outputBuffer (snd w))) (szsub (length data) n))) w else w)"
  have w1: "conn_frame w (fst w1, (snd w1)\<lparr>outputBuffer := b\<rparr>)" for b
    by (simp add: w1_def conn_frame_def conn_queue_def)
  show ?thesis unfolding send_rest_def Let_def w1_def[symmetric]
    by (rule framed_bindR_val[OF w1 framed_conn_chan])
qed

lemma framed_sendInLoop: "framed w (sendInLoop tid wr data w)"
  unfolding sendInLoop_def
  by (intro framed_assert framed_if framed_bindR_val[where g = "snd \<circ> snd"])
     (auto simp: framed_send_rest dest: send_direct_frame)

lemma framed_send: "framed w (TcpConnection_send tid wr data w)"
  by (simp add: TcpConnection_send_def framed_sendInLoop)

lemma send_buffer_frame: "TcpConnection_send_buffer tid wr b w = Inr (b', w1) \<Longrightarrow> conn_frame w w1"
  using framed_sendInLoop[of w tid wr "range_of (bytes b) (peek b) (readableBytes b)"]
  by (auto simp: TcpConnection_send_buffer_def bindR_Inr_iff growing_def split: if_splits)

subsection \<open>Closing and reading\<close>

lemma framed_shutdownInLoop: "framed w (shutdownInLoop tid w)"
  unfolding shutdownInLoop_def by (intro framed_assert) (simp add: conn_frame_def)

lemma framed_forceClose: "framed w (forceClose tid w)"
  by (simp add: forceClose_def forceClose_exchange_def stateAtomicGetAndSet_def conn_queue_def conn_frame_def)

lemma framed_stop_read: "framed w (stop_read_task tid w)"
  by (simp add: stop_read_task_def framed_conn_chan)

lemma framed_start_read: "framed w (start_read_task tid w)"
  by (simp add: start_read_task_def framed_conn_chan)

lemma framed_stopRead: "framed w (TcpConnection_stopRead tid w)"
  using conn_frame_queue[of w tid StopRead]
  by (simp add: TcpConnection_stopRead_def runInLoop_def framed_stop_read conn_queue_def)

lemma framed_startRead: "framed w (TcpConnection_startRead tid w)"
  using conn_frame_queue[of w tid StartRead]
  by (simp add: TcpConnection_startRead_def runInLoop_def framed_start_read conn_queue_def)

lemma framed_handleWrite: "framed w (TcpConnection_handleWrite tid wr w)"
proof -
  have w1: "conn_frame w (fst w, (snd w)\<lparr>wire := xs, outputBuffer := b\<rparr>)" for xs b by (simp add: conn_frame_def)
  have drained: "framed w2 (bindR (if state (snd w2) = kDisconnecting then shutdownInLoop tid w2 else Inr w2) (\<lambda>w3.
      Inr (if writeCompleteCb (snd w3) then conn_queue tid WriteComplete w3 else w3)))" for w2 :: "'a conn_world"
    by (rule framed_bindR) (simp_all add: framed_shutdownInLoop)
  have rest: "framed w (let w1 = (fst w, (snd w)\<lparr>wire := xs, outputBuffer := b\<rparr>)
      in if readableBytes b = 0 then bindR (conn_chan DisableWrite tid w1) (\<lambda>w2.
           bindR (if state (snd w2) = kDisconnecting then shutdownInLoop tid w2 else Inr w2) (\<lambda>w3.
           Inr (if writeCompleteCb (snd w3) then conn_queue tid WriteComplete w3 else w3))) else Inr w1)" for xs b
    unfolding Let_def using framed_trans[OF w1 framed_bindR[OF framed_conn_chan drained]] w1 by simp
  show ?thesis
  proof (cases "wr (readableBytes (outputBuffer (snd w)))")
    case (WriteFail e)
    then show ?thesis by (simp add: TcpConnection_handleWrite_def Let_def growing_assertR)
  next
    case (WriteOk n)
    have "framed w (bindR (retrieve n (outputBuffer (snd w))) (\<lambda>b1.
        let w1 = (fst w, (snd w)\<lparr>wire := wire (snd w) @ range_of (bytes (outputBuffer (snd w))) (peek (outputBuffer (snd w))) n,
           outputBuffer := b1\<rparr>)
        in if readableBytes b1 = 0 then bindR (conn_chan DisableWrite tid w1) (\<lambda>w2.
             bindR (if state (snd w2) = kDisconnecting then shutdownInLoop tid w2 else Inr w2) (\<lambda>w3.
             Inr (if writeCompleteCb (snd w3) then conn_queue tid WriteComplete w3 else w3))) else Inr w1))"
      by (rule framed_bindR_val[where g = "\<lambda>_. w"]) (simp, rule rest)
    then show ?thesis using WriteOk by (simp add: TcpConnection_handleWrite_def Let_def growing_assertR)
  qed
qed

subsection \<open>With the user's callbacks\<close>

locale framed_client = conn_client +
  assumes message_framed: "framed w (on_message user w)"
    and writeComplete_framed: "framed w (on_writeComplete user w)"
    and highWater_framed: "framed w (on_highWater user n w)"
    and close_framed: "framed w (on_close user w)"
    and message_open: "conn_ok tid w \<Longrightarrow> live (snd w) \<Longrightarrow> growing (\<lambda>_ w'. live (snd w')) w (on_message user w)"
begin

lemma handleClose_framed: "framed w (handleClose user tid w)"
proof -
  have "conn_frame w (l, (snd w)\<lparr>state := kDisconnected, chan := ch\<rparr>)"
    if "EventLoop_removeChannel tid (chan (snd w)) (fst w) = Inr (ch, l)" for ch l
  proof -
    have r: "chan_do DisableAll tid (chan (snd w)) (fst w) = Inr (ch, l)"
      using that by (simp add: EventLoop_removeChannel_def assertInLoopThread_def assertR_Inr_iff)
    show ?thesis using chan_do_kernel[OF r] chan_do_frame(1)[OF r] chan_do_keeps[OF r] by (simp add: conn_frame_def)
  qed
  then show ?thesis unfolding handleClose_def
    by (intro framed_assert framed_bindR_val[where g = "\<lambda>(ch, l). (l, (snd w)\<lparr>state := kDisconnected, chan := ch\<rparr>)"])
       (auto simp: close_framed Let_def)
qed

lemma handleRead_framed: "framed w (TcpConnection_handleRead user tid rd w)"
proof -
  have b: "conn_frame w (fst w, (snd w)\<lparr>inputBuffer := b\<rparr>)" for b by (simp add: conn_frame_def)
  show ?thesis unfolding TcpConnection_handleRead_def Let_def
    by (intro framed_assert framed_bindR_val[where g = "\<lambda>(n, b, e). (fst w, (snd w)\<lparr>inputBuffer := b\<rparr>)"])
       (auto simp: b handleError_def handleClose_framed message_framed)
qed

lemma event_framed: "framed w (conn_event user tid io k w)"
  by (cases k) (simp_all add: handleRead_framed framed_handleWrite handleClose_framed handleError_def)

lemma task_framed: "framed w (run_conn_task user tid io t w)"
proof -
  have "framed w (forceCloseInLoop user tid w)"
    unfolding forceCloseInLoop_def by (intro framed_assert) (simp add: handleClose_framed)
  then show ?thesis
    by (cases t) (simp_all add: framed_sendInLoop writeComplete_framed highWater_framed framed_shutdownInLoop
        framed_stop_read framed_start_read)
qed

end

end
