(* ===== verification/Conn_Lifetime.thy ===== *)
theory Conn_Lifetime
  imports Conn_Frame
begin

text \<open>
  When a connection of a loop is destroyed. The server's set has a shared pointer to it until it closes,
  each of its pending tasks has one, and so may the program (\<open>held\<close>). (The tasks of \<open>stopRead\<close> and \<open>startRead\<close>,
  which have none, are only pending when another thread calls them; \<open>Tcp_Server\<close> has that case.) An event handler that closes the connection
  drops the last pointer when there is no other (\<open>unheld\<close>): then the destructors run while the
  connection's channel is still handling the event.
\<close>

definition unheld :: "('x tcpconn_scheme \<Rightarrow> bool) \<Rightarrow> 'x conn_world \<Rightarrow> bool" where
  "unheld held w \<longleftrightarrow> state (snd w) = kDisconnected \<and> \<not> held (snd w) \<and> pendingJobs (fst w) = []"

definition event_then_release :: "('x tcpconn_scheme \<Rightarrow> bool) \<Rightarrow> 'x conn_user \<Rightarrow> nat \<Rightarrow> conn_io \<Rightarrow> cbkind \<Rightarrow> 'x conn_world \<Rightarrow> 'x conn_world result" where
  "event_then_release held user tid io k w =
     bindR (conn_event user tid io k w) (\<lambda>w1.
       if unheld held w1 then bindR (TcpConnection_delete (snd w1)) (\<lambda>_. Inl UndefinedBehaviour) else Inr w1)"

text \<open>The events by which a connection is closed: a hang-up, or reading the end of the stream.\<close>

definition hangs_up :: "conn_io \<Rightarrow> mask \<Rightarrow> bool" where
  "hangs_up io m \<longleftrightarrow> wants_close m \<or> (wants_read m \<and> (\<exists>n. io_read io n = ReadOk []))"

subsection \<open>Only those events can destroy it\<close>

lemma release_open:
  assumes "\<And>w'. conn_event user tid io k w = Inr w' \<Longrightarrow> live (snd w')"
  shows "event_then_release held user tid io k w = conn_event user tid io k w"
  using assms by (cases "conn_event user tid io k w") (auto simp: event_then_release_def unheld_def)

lemma release_handling:
  assumes "framed w (conn_event user tid io k w)" "handlingEvents (chan (snd w))"
  shows "event_then_release held user tid io k w = conn_event user tid io k w
     \<or> event_then_release held user tid io k w = Inl ChannelInUse"
  using assms by (cases "conn_event user tid io k w")
    (auto simp: event_then_release_def unheld_def conn_frame_def TcpConnection_delete_def Channel_delete_def)

lemma framed_release: "framed w (conn_event user tid io k w) \<Longrightarrow> framed w (event_then_release held user tid io k w)"
  by (cases "conn_event user tid io k w") (auto simp: event_then_release_def growing_def bindR_Inr_iff)

text \<open>Writing does not close.\<close>

lemma conn_chan_state: "conn_chan op tid w = Inr w' \<Longrightarrow> state (snd w') = state (snd w)"
  by (auto simp: conn_chan_def bindR_Inr_iff)

lemma shutdownInLoop_state: "shutdownInLoop tid w = Inr w' \<Longrightarrow> state (snd w') = state (snd w)"
  by (auto simp: shutdownInLoop_def assertInLoopThread_def assertR_Inr_iff)

lemma handleWrite_state: "TcpConnection_handleWrite tid wr w = Inr w' \<Longrightarrow> state (snd w') = state (snd w)"
  by (auto simp: TcpConnection_handleWrite_def Let_def assertR_Inr_iff bindR_Inr_iff
      dest!: conn_chan_state shutdownInLoop_state split: syswrite.splits if_splits)

lemma readFd_end: "readFd rd b = Inr (0, b', e) \<Longrightarrow> \<exists>n. rd n = ReadOk []"
  by (auto simp: readFd_def Let_def bindR_Inr_iff split: sysread.splits if_splits)

context framed_client
begin

lemma handleRead_open:
  assumes "conn_ok tid (l, c)" "live c" "rd_ok rd" "\<nexists>n. rd n = ReadOk []"
    and "TcpConnection_handleRead user tid rd (l, c) = Inr w'"
  shows "live (snd w')"
proof -
  have rd: "length bs \<le> n" if "rd n = ReadOk bs" for n bs using assms(3) that by (auto simp: rd_ok_def)
  obtain n b e where r: "readFd rd (inputBuffer c) = Inr (n, b, e)"
    "(let w1 = (l, c\<lparr>inputBuffer := b\<rparr>) in if n = -1 then handleError w1
      else if n = 0 then handleClose user tid w1
      else if messageCb (snd w1) then on_message user w1 else Inl BadFunctionCall) = Inr w'"
    using assms(5) conn_okD(1)[OF assms(1)] by (auto simp: TcpConnection_handleRead_def assertR_Inr_iff bindR_Inr_iff)
  have "buf_ok b" using ends_in_Inr[OF readFd_safe[where readv = rd, OF conn_okD(3)[OF assms(1)] rd] r(1)] by simp
  then have ok: "conn_ok tid (l, c\<lparr>inputBuffer := b\<rparr>)" using assms(1) by (simp add: conn_ok_def)
  have "n \<noteq> 0" using readFd_end r(1) assms(4) by blast
  moreover have "live (snd (l, c\<lparr>inputBuffer := b\<rparr>))" using assms(2) by simp
  ultimately show ?thesis using r(2) message_open[OF ok]
    by (cases w') (auto simp: Let_def handleError_def growing_def split: if_splits)
qed

lemma event_open:
  assumes "conn_ok tid w" "live (snd w)" "io_ok io" "\<not> hangs_up io m"
    and "k = CloseCb \<Longrightarrow> wants_close m" "k = ReadCb \<Longrightarrow> wants_read m" "conn_event user tid io k w = Inr w'"
  shows "live (snd w')"
proof (cases k)
  case ReadCb
  then show ?thesis using handleRead_open[of "fst w" "snd w" "io_read io" w'] assms by (auto simp: hangs_up_def io_ok_def)
next
  case WriteCb
  then show ?thesis using handleWrite_state[of tid "io_write io" w w'] assms by auto
qed (use assms in \<open>auto simp: hangs_up_def handleError_def\<close>)

lemma event_conn_ok:
  assumes "conn_ok tid w" "live (snd w)" "io_ok io" "k = ReadCb \<or> k = ErrorCb" "conn_event user tid io k w = Inr w'"
  shows "conn_ok tid w'"
  using assms handleRead_ok[of "fst w" "snd w" "io_read io"] by (auto simp: handleError_def io_ok_def)

lemma release_agree:
  fixes c :: "'a tcpconn_scheme"
  assumes "conn_ok tid (l, c)" "live c" "io_ok io"
  shows "ends_in P (conn_handleEvents user tid io (l, c)) \<Longrightarrow>
     ends_but (hangs_up io (revents (chan c))) P (handleEventsWithGuard (\<lambda>w. Some (chan (snd w)))
       (\<lambda>f w. (fst w, (snd w)\<lparr>chan := f (chan (snd w))\<rparr>)) (event_then_release held user tid io) (l, c))"
proof -
  let ?m = "revents (chan c)" and ?b = "hangs_up io (revents (chan c))"
  let ?upd = "\<lambda>f w. (fst w, (snd w)\<lparr>chan := f (chan (snd w))\<rparr>) :: 'a conn_world"
  define J where "J w \<longleftrightarrow> handlingEvents (chan (snd w)) \<and> revents (chan (snd w)) = ?m \<and> (?b \<or> conn_ok tid w \<and> live (snd w))" for w :: "'a conn_world"
  define called where "called k m = (case k of CloseCb \<Rightarrow> wants_close m | ErrorCb \<Rightarrow> wants_error m | ReadCb \<Rightarrow> wants_read m
    | WriteCb \<Rightarrow> wants_write m)" for k m
  have stays: "live (snd w')" if "J w" "called k ?m" "\<not> ?b" "conn_event user tid io k w = Inr w'" for k w w'
    by (rule event_open[of w io ?m k w']) (use that assms(3) in \<open>auto simp: J_def called_def\<close>)
  have "handleEventsWithGuard (\<lambda>w. Some (chan (snd w))) ?upd (event_then_release held user tid io) (l, c)
       = handleEventsWithGuard (\<lambda>w. Some (chan (snd w))) ?upd (conn_event user tid io) (l, c)
     \<or> (?b \<and> handleEventsWithGuard (\<lambda>w. Some (chan (snd w))) ?upd (event_then_release held user tid io) (l, c) = Inl ChannelInUse)"
  proof (rule dispatch_agree[where J = J and m = ?m and called = called])
    show "J (?upd (\<lambda>ch. ch\<lparr>handlingEvents := True\<rparr>) (l, c))"
      using assms(1,2) by (auto simp: J_def conn_ok_def loop_sync_def chan_sync_def isWriting_def)
    show "J w'" if "J w" "called k ?m" "k \<noteq> WriteCb" "conn_event user tid io k w = Inr w'" for k w w'
    proof -
      have "conn_frame w w'" using event_framed[of w io k] that(4) by simp
      then have "handlingEvents (chan (snd w'))" "revents (chan (snd w')) = ?m" using that(1) by (simp_all add: J_def conn_frame_def)
      moreover have "conn_ok tid w'" if "\<not> ?b"
        using event_conn_ok[of w io k w'] \<open>J w\<close> \<open>called k ?m\<close> \<open>k \<noteq> WriteCb\<close> \<open>conn_event user tid io k w = Inr w'\<close> that assms(3)
        by (cases k) (auto simp: J_def called_def hangs_up_def)
      ultimately show ?thesis using stays[OF that(1,2) _ that(4)] by (auto simp: J_def)
    qed
    show "event_then_release held user tid io k w = conn_event user tid io k w \<or> (?b \<and> event_then_release held user tid io k w = Inl ChannelInUse)"
      if "J w" "called k ?m" for k w
    proof (cases ?b)
      case True
      then show ?thesis using release_handling[OF event_framed] that(1) by (auto simp: J_def)
    next
      case False
      then show ?thesis using release_open[of user tid io k w held] stays[OF that] by blast
    qed
  qed (auto simp: J_def called_def)
  moreover assume "ends_in P (conn_handleEvents user tid io (l, c))"
  then have "ends_in P (handleEventsWithGuard (\<lambda>w. Some (chan (snd w))) ?upd (conn_event user tid io) (l, c))"
    using conn_okD(1)[OF assms(1)] by (simp add: conn_handleEvents_def)
  ultimately show "ends_but ?b P (handleEventsWithGuard (\<lambda>w. Some (chan (snd w))) ?upd (event_then_release held user tid io) (l, c))"
    by (auto simp: ends_but_def)
qed

subsection \<open>When they do\<close>

text \<open>
  The close callback lets go of the connection, and nothing else has a pointer to it: the destructor of
  its channel fails its assertion.
\<close>

lemma close_unheld:
  assumes "conn_ok tid (l, c)" "live c" "pendingJobs l = []"
    and close: "\<And>v. state (snd v) = kDisconnected \<Longrightarrow> \<exists>v'. on_close user v = Inr v' \<and> state (snd v') = kDisconnected
      \<and> \<not> held (snd v') \<and> pendingJobs (fst v') = pendingJobs (fst v)"
  shows "\<exists>v. handleClose user tid (l, c) = Inr v \<and> unheld held v \<and> handlingEvents (chan (snd v)) = handlingEvents (chan c)"
proof -
  from handleClose_exact[OF assms(1,2)] obtain l' p where
    h: "handleClose user tid (l, c) = on_close user (l', c\<lparr>state := kDisconnected, chan := (chan c)\<lparr>events := 0, polling := p\<rparr>\<rparr>)"
    "pendingJobs l' = pendingJobs l" by blast
  from close[of "(l', c\<lparr>state := kDisconnected, chan := (chan c)\<lparr>events := 0, polling := p\<rparr>\<rparr>)"] obtain v where
    v: "handleClose user tid (l, c) = Inr v" "unheld held v" using h assms(3) by (auto simp: unheld_def)
  have "conn_frame (l, c) v" using handleClose_framed[of "(l, c)"] v(1) by simp
  then show ?thesis using v by (simp add: conn_frame_def)
qed

lemma peer_gone:
  fixes c :: "'a tcpconn_scheme"
  assumes ok: "conn_ok tid (l, c)" "live c" "pendingJobs l = []" and k: "\<forall>k. k \<in> set (callbacks (chan c))"
    and m: "wants_close (revents (chan c)) \<or> wants_read (revents (chan c)) \<and> (\<forall>n. io_read io n = ReadOk [])"
    and close: "\<And>v. state (snd v) = kDisconnected \<Longrightarrow> \<exists>v'. on_close user v = Inr v' \<and> state (snd v') = kDisconnected
      \<and> \<not> held (snd v') \<and> pendingJobs (fst v') = pendingJobs (fst v)"
  shows "handleEventsWithGuard (\<lambda>w. Some (chan (snd w))) (\<lambda>f w. (fst w, (snd w)\<lparr>chan := f (chan (snd w))\<rparr>))
     (event_then_release held user tid io) (l, c) = Inl ChannelInUse"
proof -
  let ?c = "c\<lparr>chan := (chan c)\<lparr>handlingEvents := True\<rparr>\<rparr>"
  have ok1: "conn_ok tid (l, ?c\<lparr>inputBuffer := b\<rparr>)" if "buf_ok b" for b
    using ok(1) that by (simp add: conn_ok_def loop_sync_def chan_sync_def isWriting_def)
  have aborts: "event_then_release held user tid io k (l, ?c) = Inl ChannelInUse"
    if e: "conn_event user tid io k (l, ?c) = handleClose user tid (l, ?c\<lparr>inputBuffer := b\<rparr>)" and b: "buf_ok b" for b k
  proof -
    have live1: "live (?c\<lparr>inputBuffer := b\<rparr>)" using ok(2) by simp
    from close_unheld[OF ok1[OF b] live1 ok(3) close] obtain v where
      "handleClose user tid (l, ?c\<lparr>inputBuffer := b\<rparr>) = Inr v" "unheld held v" "handlingEvents (chan (snd v))" by auto
    then show ?thesis by (simp add: event_then_release_def e unheld_def TcpConnection_delete_def Channel_delete_def)
  qed
  note buf = conn_okD(3)[OF ok(1)]
  have quiet: "event_then_release held user tid io ErrorCb (l, ?c) = Inr (l, ?c)"
    using ok(2) by (auto simp: event_then_release_def handleError_def unheld_def)
  show ?thesis
  proof (cases "wants_close (revents (chan c))")
    case True
    then show ?thesis using aborts[of CloseCb "inputBuffer c", OF _ buf] k
      by (simp add: handleEventsWithGuard_def with_chan_def call_if_def)
  next
    case False
    then have r: "wants_read (revents (chan c))" "io_read io = (\<lambda>_. ReadOk [])" using m by auto
    have "length ([] :: byte list) \<le> writableBytes (inputBuffer c)" by simp
    from readFd_fits[where readv = "\<lambda>_. ReadOk []", OF buf refl this] obtain b where
      b: "readFd (\<lambda>_. ReadOk []) (inputBuffer c) = Inr (0, b, None)" "buf_ok b" by auto
    have "state c \<noteq> kDisconnected" using ok(2) by auto
    then have "conn_event user tid io ReadCb (l, ?c) = handleClose user tid (l, ?c\<lparr>inputBuffer := b\<rparr>)"
      using conn_okD(1)[OF ok(1)] r(2) b(1) by (simp add: TcpConnection_handleRead_def Let_def)
    then show ?thesis using aborts[of ReadCb b, OF _ b(2)] quiet k False r(1)
      by (simp add: handleEventsWithGuard_def with_chan_def call_if_def)
  qed
qed

end

end
