(* ===== verification/Loop_Conns.thy ===== *)
theory Loop_Conns
  imports Conn_Lifetime TimerQueue
begin

text \<open>
  Many connections on one loop. The loop of \<open>EventLoop\<close> is given its client: the pointers that
  \<open>epoll_wait\<close> returns are the wake-up channel (0), the channel of the timers (1), the acceptor's (2)
  and the channel of the connection at address \<open>a\<close> (\<open>a + 3\<close>); a task is one of the timer queue or of
  the connection whose address it carries. \<open>objs\<close> lists the addresses in ascending order.

  An operation of one connection, as modelled in \<open>Tcp_Connection\<close>, sees the loop with only its own
  tasks pending (\<open>conn_view\<close>); what it queues goes to the end of the loop's queue (\<open>conn_put\<close>).
  A closed connection is destroyed (\<open>reap\<close>) when the last pointer to it goes: at the end of a batch of tasks, when
  the batch drops its pointers, or when the program drops its own.
\<close>

record 'x table =
  objs :: "nat list"
  conns :: "nat \<rightharpoonup> 'x tcpconn_scheme"
  wakeupChnl :: channel
  timerChnl :: channel
  acceptChnl :: channel

datatype loop_task = ConnTask nat conn_task | TimerTask tq_task

type_synonym ('x, 'z) table_world = "loop_task eventloop \<times> ('x, 'z) table_scheme"

fun own_tasks :: "nat \<Rightarrow> loop_task list \<Rightarrow> conn_task list" where
  "own_tasks a [] = []"
| "own_tasks a (ConnTask b t # ts) = (if b = a then t # own_tasks a ts else own_tasks a ts)"
| "own_tasks a (TimerTask t # ts) = own_tasks a ts"

fun timer_tasks :: "loop_task list \<Rightarrow> tq_task list" where
  "timer_tasks [] = []"
| "timer_tasks (ConnTask b t # ts) = timer_tasks ts"
| "timer_tasks (TimerTask t # ts) = t # timer_tasks ts"

definition conn_view :: "nat \<Rightarrow> ('x, 'z) table_world \<Rightarrow> 'x conn_world" where
  "conn_view a w =
     (\<lparr>pendingJobs = own_tasks a (pendingJobs (fst w)), doingPendingJobs = doingPendingJobs (fst w),
       quitting = quitting (fst w), threadId = threadId (fst w), eventfd = eventfd (fst w), poller = poller (fst w)\<rparr>,
      the (conns (snd w) a))"

definition conn_put :: "nat \<Rightarrow> 'x conn_world \<Rightarrow> ('x, 'z) table_world \<Rightarrow> ('x, 'z) table_world" where
  "conn_put a v w =
     (let new = drop (length (own_tasks a (pendingJobs (fst w)))) (pendingJobs (fst v)) in
      (\<lparr>pendingJobs = pendingJobs (fst w) @ map (ConnTask a) new, doingPendingJobs = doingPendingJobs (fst v),
        quitting = quitting (fst v), threadId = threadId (fst v), eventfd = eventfd (fst v), poller = poller (fst v)\<rparr>,
       (snd w)\<lparr>conns := (conns (snd w))(a \<mapsto> snd v)\<rparr>))"

definition at_conn :: "nat \<Rightarrow> ('x conn_world \<Rightarrow> 'x conn_world result) \<Rightarrow> ('x, 'z) table_world \<Rightarrow> ('x, 'z) table_world result" where
  "at_conn a f w =
     (case conns (snd w) a of
        None \<Rightarrow> Inl UndefinedBehaviour
      | Some c \<Rightarrow> bindR (f (conn_view a w)) (\<lambda>v. Inr (conn_put a v w)))"

definition table_chans :: "('x, 'z) table_world \<Rightarrow> nat \<rightharpoonup> channel" where
  "table_chans w p =
     (if p = 0 then Some (wakeupChnl (snd w)) else if p = 1 then Some (timerChnl (snd w))
      else if p = 2 then Some (acceptChnl (snd w)) else map_option chan (conns (snd w) (p - 3)))"

definition table_set_chans :: "(nat \<rightharpoonup> channel) \<Rightarrow> ('x, 'z) table_world \<Rightarrow> ('x, 'z) table_world" where
  "table_set_chans chs w =
     (fst w, (snd w)\<lparr>wakeupChnl := the (chs 0), timerChnl := the (chs 1), acceptChnl := the (chs 2),
        conns := (\<lambda>a. map_option (\<lambda>c. c\<lparr>chan := the (chs (a + 3))\<rparr>) (conns (snd w) a))\<rparr>)"

record ('x, 'z) handlers =
  user_of :: "nat \<Rightarrow> 'x conn_user"
  io_of :: "nat \<Rightarrow> conn_io"
  on_timer :: "('x, 'z) table_world \<Rightarrow> ('x, 'z) table_world result"
  on_timer_task :: "tq_task \<Rightarrow> ('x, 'z) table_world \<Rightarrow> ('x, 'z) table_world result"
  on_accept :: "('x, 'z) table_world \<Rightarrow> ('x, 'z) table_world result"
  held_by :: "'x tcpconn_scheme \<Rightarrow> bool"

definition table_client :: "nat \<Rightarrow> ('x, 'z) handlers \<Rightarrow> (loop_task, ('x, 'z) table_scheme) loop_client" where
  "table_client tid h =
     \<lparr>get_chans = table_chans, set_chans = table_set_chans,
      on_event = (\<lambda>p k w.
        if p = 0 then Inr (EventLoop_handleRead (fst w), snd w)
        else if p = 1 then on_timer h w
        else if p = 2 then on_accept h w
        else at_conn (p - 3) (event_then_release (held_by h) (user_of h (p - 3)) tid (io_of h (p - 3)) k) w),
      run_task = (\<lambda>t. case t of ConnTask a t \<Rightarrow> at_conn a (run_conn_task (user_of h a) tid (io_of h a) t)
                 | TimerTask t \<Rightarrow> on_timer_task h t)\<rparr>"

text \<open>
  The destructors: \<open>~TcpConnection\<close> closes the socket, and the kernel then takes a closed descriptor off the
  interest list by itself. The object and its descriptor can be given out again.
\<close>

definition socket_closed :: "int \<Rightarrow> 'task eventloop \<Rightarrow> 'task eventloop" where
  "socket_closed fd l =
     (if kernel l fd = None then l
      else l\<lparr>poller := (poller l)\<lparr>ctl_log := ctl_log (poller l) @ [\<lparr>ctl_op = EPOLL_CTL_DEL, ctl_fd = fd, ctl_events = 0\<rparr>]\<rparr>\<rparr>)"

definition reap_conn :: "('x tcpconn_scheme \<Rightarrow> bool) \<Rightarrow> nat \<Rightarrow> ('x, 'z) table_world \<Rightarrow> ('x, 'z) table_world result" where
  "reap_conn held a w =
     (let c = the (conns (snd w) a) in
      if unheld held (conn_view a w)
      then bindR (TcpConnection_delete c) (\<lambda>_.
             Inr (socket_closed (chfd (chan c)) (fst w),
               (snd w)\<lparr>objs := remove1 a (objs (snd w)), conns := (conns (snd w))(a := None)\<rparr>))
      else Inr w)"

definition reap :: "('x tcpconn_scheme \<Rightarrow> bool) \<Rightarrow> ('x, 'z) table_world \<Rightarrow> ('x, 'z) table_world result" where
  "reap held w = foldR (reap_conn held) (objs (snd w)) w"

text \<open>A round of the loop, up to the end of \<open>doPendingJobs\<close>, whose vector of tasks goes last.\<close>

definition table_round :: "nat \<Rightarrow> ('x, 'z) handlers \<Rightarrow> epoll_wait_result \<Rightarrow> ('x, 'z) table_world \<Rightarrow> ('x, 'z) table_world result" where
  "table_round tid h r w = bindR (loop_iteration tid (table_client tid h) r w) (reap (held_by h))"

text \<open>
  What no connection touches: whether the loop is to quit, the pending tasks of the timer queue, the
  callbacks of the loop's own channels, and what a program adds to the table.
\<close>

record 'z rest =
  rest_quit :: bool
  rest_tasks :: "tq_task list"
  rest_cbs :: "cbkind list list"
  rest_more :: 'z

definition rest_of :: "('x, 'z) table_world \<Rightarrow> 'z rest" where
  "rest_of w = \<lparr>rest_quit = quitting (fst w), rest_tasks = timer_tasks (pendingJobs (fst w)),
     rest_cbs = map callbacks [wakeupChnl (snd w), timerChnl (snd w), acceptChnl (snd w)],
     rest_more = table.more (snd w)\<rparr>"

subsection \<open>A connection is a part of the table\<close>

lemma table_chans_simps [simp]:
  "table_chans w 0 = Some (wakeupChnl (snd w))" "table_chans w (Suc 0) = Some (timerChnl (snd w))"
  "table_chans w 2 = Some (acceptChnl (snd w))" "table_chans w (a + 3) = map_option chan (conns (snd w) a)"
  by (simp_all add: table_chans_def)

lemma own_tasks_append [simp]: "own_tasks a (xs @ ys) = own_tasks a xs @ own_tasks a ys"
  by (induction xs rule: own_tasks.induct) simp_all

lemma own_tasks_tagged [simp]: "own_tasks b (map (ConnTask a) ts) = (if b = a then ts else [])"
  by (induction ts) auto

lemma conns_same: "conns t a = Some c \<Longrightarrow> t\<lparr>conns := (conns t)(a \<mapsto> c)\<rparr> = t"
  by (cases t) (simp add: fun_upd_idem)

lemma set_own_tasks: "t \<in> set (own_tasks a ts) \<longleftrightarrow> ConnTask a t \<in> set ts"
  by (induction a ts rule: own_tasks.induct) auto

lemma timer_tasks_append [simp]: "timer_tasks (xs @ ys) = timer_tasks xs @ timer_tasks ys"
  by (induction xs rule: timer_tasks.induct) simp_all

lemma timer_tasks_conn [simp]: "timer_tasks (map (ConnTask a) ts) = []"
  by (induction ts) simp_all

lemma set_timer_tasks: "t \<in> set (timer_tasks ts) \<longleftrightarrow> TimerTask t \<in> set ts"
  by (induction ts rule: timer_tasks.induct) auto

interpretation one: part "\<lambda>w. a \<in> dom (conns (snd w))" "conn_view a" "conn_put a" conn_grows "at_conn a" for a
proof unfold_locales
  fix w :: "('a, 'b) table_world" and v v' :: "'a conn_world" and f
  assume a: "a \<in> dom (conns (snd w))"
  then show "at_conn a f w = bindR (f (conn_view a w)) (\<lambda>v. Inr (conn_put a v w))"
    by (auto simp: at_conn_def)
  from a show "conn_put a (conn_view a w) w = w"
    by (cases w) (auto simp: conn_put_def conn_view_def conns_same)
  assume g: "conn_grows (conn_view a w) v"
  then obtain new where n: "pendingJobs (fst v) = own_tasks a (pendingJobs (fst w)) @ new"
    by (auto simp: conn_grows_def conn_view_def)
  then show "a \<in> dom (conns (snd (conn_put a v w))) \<and> conn_view a (conn_put a v w) = v"
    by (cases v) (simp add: conn_put_def conn_view_def Let_def)
  assume "conn_grows v v'"
  then obtain new' where "pendingJobs (fst v') = pendingJobs (fst v) @ new'" by (auto simp: conn_grows_def)
  then show "conn_put a v' (conn_put a v w) = conn_put a v' w"
    using n by (simp add: conn_put_def Let_def)
qed (auto intro: conn_grows_trans)

interpretation one: part_channel "\<lambda>w. a \<in> dom (conns (snd w))" "conn_view a" "conn_put a" conn_grows "at_conn a"
    "\<lambda>v. Some (chan (snd v))" "\<lambda>f v. (fst v, (snd v)\<lparr>chan := f (chan (snd v))\<rparr>)"
    "\<lambda>w. table_chans w (a + 3)" "upd_chan (table_client tid h) (a + 3)" for a tid h
proof unfold_locales
  fix w :: "('a, 'b) table_world" and b
  assume "a \<in> dom (conns (snd w))"
  then obtain c where c: "conns (snd w) a = Some c" by blast
  then show "table_chans w (a + 3) = Some (chan (snd (conn_view a w)))" by (simp add: conn_view_def)
  obtain l t where w: "w = (l, t)" by (cases w)
  have "(\<lambda>x. map_option (\<lambda>d. d\<lparr>chan := the (if x = a then Some (handlingEvents_update (\<lambda>_. b) (chan c))
        else map_option chan (conns t x))\<rparr>) (conns t x))
      = (conns t)(a \<mapsto> c\<lparr>chan := handlingEvents_update (\<lambda>_. b) (chan c)\<rparr>)"
    using c w by (auto simp: fun_eq_iff option.map_comp intro: option.map_ident_strong)
  then show "upd_chan (table_client tid h) (a + 3) (handlingEvents_update (\<lambda>_. b)) w =
      conn_put a (fst (conn_view a w), (snd (conn_view a w))\<lparr>chan := handlingEvents_update (\<lambda>_. b) (chan (snd (conn_view a w)))\<rparr>) w"
    using c by (simp add: w upd_chan_def table_client_def table_set_chans_def conn_put_def conn_view_def cong: if_cong)
qed (simp add: conn_grows_def)

end
