(* ===== verification/Loop_Table.thy ===== *)
theory Loop_Table
  imports Loop_Conns
begin

text \<open>
  The invariant of a loop with many connections. Each connection is well-formed in its own view of the
  loop, with a channel that has its callbacks and is not handling events (\<open>resting\<close>), the channels have
  different descriptors and agree with epoll, and every pending task belongs to a connection. What an
  operation of one connection, the polling and the destruction of connections do to it.
\<close>

definition all_chans :: "('x, 'z) table_scheme \<Rightarrow> channel list" where
  "all_chans t = [wakeupChnl t, timerChnl t, acceptChnl t] @ map (\<lambda>a. chan (the (conns t a))) (objs t)"

definition resting :: "channel \<Rightarrow> bool" where
  "resting ch \<longleftrightarrow> \<not> handlingEvents ch \<and> (\<forall>k. k \<in> set (callbacks ch))"

definition table_ok :: "nat \<Rightarrow> ('x, 'z) table_world \<Rightarrow> bool" where
  "table_ok tid w \<longleftrightarrow> isInLoopThread tid (fst w) \<and> loop_sync (all_chans (snd w)) (fst w)
     \<and> distinct (objs (snd w)) \<and> set (objs (snd w)) = dom (conns (snd w))
     \<and> (\<forall>a t. ConnTask a t \<in> set (pendingJobs (fst w)) \<longrightarrow> a \<in> dom (conns (snd w)))
     \<and> (\<forall>a \<in> dom (conns (snd w)). conn_ok tid (conn_view a w) \<and> resting (chan (the (conns (snd w) a))))"

lemma table_okD:
  assumes "table_ok tid w"
  shows "isInLoopThread tid (fst w)" "loop_sync (all_chans (snd w)) (fst w)" "distinct (objs (snd w))"
    "set (objs (snd w)) = dom (conns (snd w))" "ConnTask a t \<in> set (pendingJobs (fst w)) \<Longrightarrow> a \<in> dom (conns (snd w))"
    "a \<in> dom (conns (snd w)) \<Longrightarrow> conn_ok tid (conn_view a w)"
    "a \<in> dom (conns (snd w)) \<Longrightarrow> resting (chan (the (conns (snd w) a)))"
  using assms unfolding table_ok_def by blast+

text \<open>While the operation of a connection runs, nothing is assumed of that connection itself.\<close>

definition table_but :: "nat \<Rightarrow> nat \<Rightarrow> ('x, 'z) table_world \<Rightarrow> bool" where
  "table_but a tid w \<longleftrightarrow> isInLoopThread tid (fst w) \<and> loop_sync (all_chans (snd w)) (fst w)
     \<and> distinct (objs (snd w)) \<and> set (objs (snd w)) = dom (conns (snd w))
     \<and> (\<forall>b t. ConnTask b t \<in> set (pendingJobs (fst w)) \<longrightarrow> b \<in> dom (conns (snd w)))
     \<and> (\<forall>b \<in> dom (conns (snd w)). b \<noteq> a \<longrightarrow> conn_ok tid (conn_view b w) \<and> resting (chan (the (conns (snd w) b))))"

lemma table_ok_but: "table_ok tid w \<Longrightarrow> table_but a tid w"
  unfolding table_ok_def table_but_def by blast

text \<open>
  \<open>table_keeps\<close>: the live connections stay, with their channels, and none is closed; the loop's own
  channels keep the events they were told. \<open>table_frame\<close>: they also keep whether they are handling events.
\<close>

definition loop_chan :: "('x, 'z) table_world \<Rightarrow> nat \<Rightarrow> channel" where
  "loop_chan w p = (if p = 0 then wakeupChnl (snd w) else if p = 1 then timerChnl (snd w) else acceptChnl (snd w))"

definition loop_revents :: "('x, 'z) table_world \<Rightarrow> nat \<Rightarrow> mask" where
  "loop_revents w p = revents (loop_chan w p)"

definition loop_marks :: "('x, 'z) table_world \<Rightarrow> nat \<Rightarrow> mask \<times> bool" where
  "loop_marks w p = (revents (loop_chan w p), handlingEvents (loop_chan w p))"

definition conns_stay :: "('x, 'y) table_world \<Rightarrow> ('x, 'z) table_world \<Rightarrow> bool" where
  "conns_stay w w' \<longleftrightarrow> (\<forall>a c. conns (snd w) a = Some c \<and> live c \<longrightarrow>
     (\<exists>c'. conns (snd w') a = Some c' \<and> chan c' = chan c \<and> live c'))"

definition table_keeps :: "('x, 'y) table_world \<Rightarrow> ('x, 'z) table_world \<Rightarrow> bool" where
  "table_keeps w w' \<longleftrightarrow> conns_stay w w' \<and> loop_revents w' = loop_revents w"

definition table_frame :: "('x, 'y) table_world \<Rightarrow> ('x, 'z) table_world \<Rightarrow> bool" where
  "table_frame w w' \<longleftrightarrow> conns_stay w w' \<and> loop_marks w' = loop_marks w"

definition loop_idle :: "('x, 'z) table_world \<Rightarrow> bool" where
  "loop_idle w \<longleftrightarrow> (\<forall>p < 3. \<not> handlingEvents (loop_chan w p))"

lemmas frame_defs = table_frame_def conns_stay_def loop_marks_def loop_chan_def

lemma table_frame_refl [simp]: "table_frame w w"
  by (simp add: table_frame_def conns_stay_def)

lemma conns_stay_trans: "conns_stay u v \<Longrightarrow> conns_stay v w \<Longrightarrow> conns_stay u w"
  unfolding conns_stay_def by (metis (no_types, lifting))

lemma table_frame_trans: "table_frame u v \<Longrightarrow> table_frame v w \<Longrightarrow> table_frame u w"
  unfolding table_frame_def by (metis conns_stay_trans)

lemma table_keeps_trans: "table_keeps u v \<Longrightarrow> table_keeps v w \<Longrightarrow> table_keeps u w"
  unfolding table_keeps_def by (metis conns_stay_trans)

lemma frame_keeps: "table_frame w w' \<Longrightarrow> table_keeps w w'"
  by (auto simp: table_frame_def table_keeps_def loop_marks_def loop_revents_def fun_eq_iff)

lemma loop_idle_flags [simp]:
  "loop_idle (l\<lparr>pendingJobs := js\<rparr>, t) = loop_idle (l, t)" "loop_idle (l\<lparr>doingPendingJobs := b\<rparr>, t) = loop_idle (l, t)"
  by (simp_all add: loop_idle_def loop_chan_def)

lemma frame_idle: "table_frame w w' \<Longrightarrow> loop_idle w' = loop_idle w"
  by (simp add: table_frame_def loop_idle_def loop_marks_def fun_eq_iff)

subsection \<open>An operation of one connection\<close>

lemma conn_view_simps [simp]:
  "pendingJobs (fst (conn_view a w)) = own_tasks a (pendingJobs (fst w))" "poller (fst (conn_view a w)) = poller (fst w)"
  "threadId (fst (conn_view a w)) = threadId (fst w)" "snd (conn_view a w) = the (conns (snd w) a)"
  by (simp_all add: conn_view_def)

lemma conn_put_simps [simp]:
  "conns (snd (conn_put a v w)) = (conns (snd w))(a \<mapsto> snd v)" "objs (snd (conn_put a v w)) = objs (snd w)"
  "poller (fst (conn_put a v w)) = poller (fst v)" "threadId (fst (conn_put a v w)) = threadId (fst v)"
  "wakeupChnl (snd (conn_put a v w)) = wakeupChnl (snd w)" "timerChnl (snd (conn_put a v w)) = timerChnl (snd w)"
  "acceptChnl (snd (conn_put a v w)) = acceptChnl (snd w)"
  by (simp_all add: conn_put_def Let_def)

lemma conn_put_pending:
  "conn_grows (conn_view a w) v \<Longrightarrow> \<exists>new. pendingJobs (fst (conn_put a v w)) = pendingJobs (fst w) @ map (ConnTask a) new
     \<and> pendingJobs (fst v) = own_tasks a (pendingJobs (fst w)) @ new"
  by (auto simp: conn_put_def Let_def conn_grows_def)

text \<open>What \<open>conn_ok\<close> depends on: the loop only through its thread, the tasks and the entry of the descriptor.\<close>

lemma conn_ok_cong:
  assumes "conn_ok tid (l, c)" "threadId l' = threadId l" "set (pendingJobs l') \<subseteq> set (pendingJobs l)"
    and "kernel l' (chfd (chan c)) = kernel l (chfd (chan c))" "all_legal (ctl_log (poller l')) Map.empty"
  shows "conn_ok tid (l', c)"
  using assms by (auto simp: conn_ok_def isInLoopThread_def loop_sync_def chan_sync_def)

lemma loop_sync_conn: "loop_sync [chan c] l \<longleftrightarrow> all_legal (ctl_log (poller l)) Map.empty \<and> chan_sync (kernel l) (chan c)"
  by (auto simp: loop_sync_def)

lemma all_chans_fds:
  assumes "distinct (map chfd (all_chans t))" "a \<in> set (objs t)"
  shows "chfd (wakeupChnl t) \<noteq> chfd (chan (the (conns t a)))" "chfd (timerChnl t) \<noteq> chfd (chan (the (conns t a)))"
    "chfd (acceptChnl t) \<noteq> chfd (chan (the (conns t a)))"
    "b \<in> set (objs t) \<Longrightarrow> b \<noteq> a \<Longrightarrow> chfd (chan (the (conns t b))) \<noteq> chfd (chan (the (conns t a)))"
  using assms by (auto simp: all_chans_def distinct_map inj_on_def comp_def)

lemma table_ok_put:
  assumes w: "table_but a tid w" and a: "a \<in> dom (conns (snd w))" and v: "conn_ok tid v" and f: "conn_grows (conn_view a w) v"
    and idle: "resting (chan (snd v))"
  shows "table_ok tid (conn_put a v w)"
proof -
  have ok: "isInLoopThread tid (fst w)" "loop_sync (all_chans (snd w)) (fst w)" "distinct (objs (snd w))"
    "set (objs (snd w)) = dom (conns (snd w))" "\<And>b t. ConnTask b t \<in> set (pendingJobs (fst w)) \<Longrightarrow> b \<in> dom (conns (snd w))"
    "\<And>b. b \<in> dom (conns (snd w)) \<Longrightarrow> b \<noteq> a \<Longrightarrow> conn_ok tid (conn_view b w)"
    "\<And>b. b \<in> dom (conns (snd w)) \<Longrightarrow> b \<noteq> a \<Longrightarrow> resting (chan (the (conns (snd w) b)))"
    using w unfolding table_but_def by blast+
  obtain l c where lc: "v = (l, c)" by (cases v)
  from conn_put_pending[OF f] obtain new where
    new: "pendingJobs (fst (conn_put a v w)) = pendingJobs (fst w) @ map (ConnTask a) new" by blast
  from f have fr: "chfd (chan c) = chfd (chan (the (conns (snd w) a)))" "threadId l = threadId (fst w)"
    "\<And>fd. fd \<noteq> chfd (chan c) \<Longrightarrow> kernel l fd = kernel (fst w) fd"
    by (simp_all add: conn_grows_def lc)
  have own: "all_legal (ctl_log (poller l)) Map.empty" "chan_sync (kernel l) (chan c)"
    using conn_okD(2)[OF v[unfolded lc]] by (simp_all add: loop_sync_conn)
  have sync: "distinct (map chfd (all_chans (snd w)))" "\<forall>ch \<in> set (all_chans (snd w)). chan_sync (kernel (fst w)) ch"
    using ok(2) by (simp_all add: loop_sync_def)
  have a': "a \<in> set (objs (snd w))" using a ok(4) by simp
  note fds = all_chans_fds[OF sync(1) a', folded fr(1)]
  have keep: "chan_sync (kernel l) ch" if "chan_sync (kernel (fst w)) ch" "chfd ch \<noteq> chfd (chan c)" for ch
    using that fr(3)[of "chfd ch"] by (simp add: chan_sync_def)
  let ?t = "snd (conn_put a v w)"
  have mp: "map (\<lambda>b. chfd (chan (the (conns ?t b)))) (objs (snd w)) = map (\<lambda>b. chfd (chan (the (conns (snd w) b)))) (objs (snd w))"
    by (rule map_cong) (simp_all add: lc fr(1))
  have "map chfd (all_chans ?t) = map chfd (all_chans (snd w))"
    using mp by (simp add: all_chans_def comp_def del: map_eq_conv)
  moreover have "\<forall>ch \<in> set (all_chans ?t). chan_sync (kernel l) ch"
    using sync(2) fds keep own(2) by (auto simp: all_chans_def lc)
  ultimately have "loop_sync (all_chans ?t) (fst (conn_put a v w))"
    using sync(1) own(1) by (simp add: loop_sync_def lc)
  moreover have "conn_ok tid (conn_view b (conn_put a v w))" if b: "b \<in> dom (conns ?t)" for b
  proof (cases "b = a")
    case True
    then show ?thesis using v one.view_put[OF a f] by simp
  next
    case False
    then have b': "b \<in> dom (conns (snd w))" using b by simp
    then have bs: "b \<in> set (objs (snd w))" using ok(4) by simp
    let ?c = "the (conns (snd w) b)"
    obtain l0 where l0: "conn_view b w = (l0, ?c)" by (simp add: conn_view_def)
    obtain l1 where l1: "conn_view b (conn_put a v w) = (l1, ?c)" using False by (simp add: conn_view_def)
    have e0: "threadId l0 = threadId (fst w)" "pendingJobs l0 = own_tasks b (pendingJobs (fst w))" "poller l0 = poller (fst w)"
      using conn_view_simps(1-3)[of b w] by (simp_all add: l0)
    have e1: "threadId l1 = threadId l" "pendingJobs l1 = own_tasks b (pendingJobs (fst w))" "poller l1 = poller l"
      using conn_view_simps(1-3)[of b "conn_put a v w"] new False by (simp_all add: l1[unfolded lc] lc)
    have "conn_ok tid (l0, ?c)" using ok(6)[OF b' False] by (simp add: l0)
    then have "conn_ok tid (l1, ?c)"
      by (rule conn_ok_cong) (use e0 e1 fr(2) fr(3)[of "chfd (chan ?c)"] fds(4)[OF bs False] own(1) in auto)
    then show ?thesis by (simp add: l1)
  qed
  moreover have "isInLoopThread tid (fst (conn_put a v w))" using ok(1) fr(2) by (simp add: isInLoopThread_def lc)
  moreover have "set (objs (snd w)) = dom (conns ?t)" using ok(4) a by auto
  ultimately show ?thesis using ok(3,5,7) new idle by (auto simp: table_ok_def)
qed

lemma at_conn_but:
  assumes "table_ok tid w" "a \<in> dom (conns (snd w))"
    and "ends_but b (\<lambda>v. conn_ok tid v \<and> resting (chan (snd v))) (f (conn_view a w))"
    and "growing conn_grows (conn_view a w) (f (conn_view a w))"
  shows "ends_but b (\<lambda>w'. table_ok tid w' \<and> (\<exists>v. f (conn_view a w) = Inr v \<and> w' = conn_put a v w)) (at_conn a f w)"
  using assms table_ok_put[OF table_ok_but[OF assms(1)] assms(2)]
  by (cases "f (conn_view a w)") (auto simp: one.lift_run[OF assms(2)])

lemma at_conn_ok:
  assumes "table_ok tid w" "a \<in> dom (conns (snd w))" "ends_in (conn_ok tid) (f (conn_view a w))"
    and "framed (conn_view a w) (f (conn_view a w))"
  shows "ends_in (\<lambda>w'. table_ok tid w' \<and> (\<exists>v. f (conn_view a w) = Inr v \<and> w' = conn_put a v w)) (at_conn a f w)"
proof -
  have "ends_but False (\<lambda>v. conn_ok tid v \<and> resting (chan (snd v))) (f (conn_view a w))"
    using assms(3,4) table_okD(7)[OF assms(1,2)] by (cases "f (conn_view a w)") (auto simp: conn_frame_def resting_def)
  from at_conn_but[where f = f, OF assms(1,2) this framed_grows[OF assms(4)]] show ?thesis by simp
qed

subsection \<open>Polling\<close>

text \<open>
  What \<open>epoll_wait\<close> can deliver: each channel at most once, and for a connection what \<open>reportable\<close>
  allows in its present state. Left out are two cases in which the code does fail (\<open>Conn_Failures\<close>): events
  of a closed connection that \<open>startRead\<close> has registered again, and a hang-up with urgent data.
\<close>

definition deliverable :: "('x, 'z) table_world \<Rightarrow> epoll_wait_result \<Rightarrow> bool" where
  "deliverable w r = (case r of WaitFailed e \<Rightarrow> True
     | Ready evs \<Rightarrow> distinct (map fst evs)
         \<and> (\<forall>(p, m) \<in> set evs. p < 3 \<or> (\<exists>c. conns (snd w) (p - 3) = Some c \<and> reportable m c)))"

text \<open>\<open>due w (p, m)\<close>: the channel still carries the events \<open>m\<close> and may be told about them.\<close>

definition due :: "('x, 'z) table_world \<Rightarrow> nat \<times> mask \<Rightarrow> bool" where
  "due w e \<longleftrightarrow> (case e of (p, m) \<Rightarrow> p < 3 \<and> loop_revents w p = m \<or> p \<ge> 3 \<and> (\<exists>c. conns (snd w) (p - 3) = Some c \<and> revents (chan c) = m \<and> reportable m c))"

lemma due_frame: "table_keeps w w' \<Longrightarrow> due w e \<Longrightarrow> due w' e"
proof -
  assume f: "table_keeps w w'" and d: "due w e"
  obtain p m where e: "e = (p, m)" by (cases e)
  show "due w' e"
  proof (cases "p < 3")
    case True
    then show ?thesis using d f e by (auto simp: due_def table_keeps_def conns_stay_def)
  next
    case False
    then obtain c where c: "conns (snd w) (p - 3) = Some c" "revents (chan c) = m" "reportable m c"
      using d e by (auto simp: due_def)
    with f obtain c' where c': "conns (snd w') (p - 3) = Some c'" "chan c' = chan c" "live c'"
      unfolding table_keeps_def conns_stay_def reportable_def by blast
    have "reportable m c'" using c(3) c'(2,3) unfolding reportable_def by simp
    then show ?thesis using c c' False by (auto simp: due_def e)
  qed
qed

lemma activate_chans:
  "activate evs chs = Inr (chs', ps) \<Longrightarrow>
   chs' p = map_option (\<lambda>ch. case map_of (rev evs) p of None \<Rightarrow> ch | Some m \<Rightarrow> setRevents m ch) (chs p)"
proof (induction evs chs arbitrary: chs' ps rule: activate.induct)
  case (1 chs)
  then show ?case by (simp add: option.map_ident_strong)
next
  case (2 q m evs chs)
  from "2.prems" obtain ch where ch: "chs q = Some ch" by (auto split: option.splits)
  with "2.prems" obtain ps' where rec: "activate evs (chs(q \<mapsto> setRevents m ch)) = Inr (chs', ps')"
    by (auto simp: bindR_Inr_iff)
  show ?case using "2.IH"[OF ch rec] ch
    by (cases "q = p") (auto simp: map_add_def setRevents_def split: option.splits)
qed

text \<open>Setting channels of the same descriptor and interest.\<close>

definition same_chan :: "channel \<Rightarrow> channel \<Rightarrow> bool" where
  "same_chan ch ch' \<longleftrightarrow> chfd ch' = chfd ch \<and> events ch' = events ch \<and> polling ch' = polling ch"

lemma same_chan_simps [simp]:
  "same_chan ch ch" "same_chan ch (setRevents m ch)" "same_chan ch (ch\<lparr>handlingEvents := b\<rparr>)"
  by (simp_all add: same_chan_def setRevents_def)

lemma table_ok_set_chans:
  assumes w: "table_ok tid w" and poller: "ctl_log (poller l) = ctl_log (poller (fst w))"
    and l: "l = (fst w)\<lparr>poller := poller l\<rparr>"
    and same: "\<And>p ch. table_chans w p = Some ch \<Longrightarrow> \<exists>ch'. chs p = Some ch' \<and> same_chan ch ch'"
    and idle: "\<And>p ch. 3 \<le> p \<Longrightarrow> table_chans w p = Some ch \<Longrightarrow> resting (the (chs p)) = resting ch"
  shows "table_ok tid (table_set_chans chs (l, snd w))"
proof -
  note ok = table_okD[OF w]
  let ?w' = "table_set_chans chs (l, snd w)"
  have th: "threadId l = threadId (fst w)" "pendingJobs l = pendingJobs (fst w)" by (subst l, simp)+
  have c': "conns (snd ?w') a = Some (c\<lparr>chan := the (chs (a + 3))\<rparr>)" "same_chan (chan c) (the (chs (a + 3)))"
    if "conns (snd w) a = Some c" for a c
  proof -
    show "conns (snd ?w') a = Some (c\<lparr>chan := the (chs (a + 3))\<rparr>)" using that by (simp add: table_set_chans_def)
    have "table_chans w (a + 3) = Some (chan c)" using that by simp
    then show "same_chan (chan c) (the (chs (a + 3)))" using same by fastforce
  qed
  have dom: "dom (conns (snd ?w')) = dom (conns (snd w))" by (auto simp: table_set_chans_def)
  have sc: "list_all2 same_chan (all_chans (snd w)) (all_chans (snd ?w'))"
  proof -
    have "same_chan (wakeupChnl (snd w)) (the (chs 0))" "same_chan (timerChnl (snd w)) (the (chs 1))"
      "same_chan (acceptChnl (snd w)) (the (chs 2))"
      using same[of 0] same[of 1] same[of 2] by fastforce+
    moreover have "same_chan (chan (the (conns (snd w) a))) (chan (the (conns (snd ?w') a)))" if "a \<in> set (objs (snd w))" for a
      using that ok(4) c' by fastforce
    ultimately show ?thesis
      by (simp add: all_chans_def table_set_chans_def list_all2_map1 list_all2_map2 list.rel_refl_strong)
  qed
  then have fds: "map chfd (all_chans (snd ?w')) = map chfd (all_chans (snd w))"
    by (induction rule: list_all2_induct) (simp_all add: same_chan_def)
  have "\<exists>ch. ch \<in> set (all_chans (snd w)) \<and> same_chan ch ch'" if "ch' \<in> set (all_chans (snd ?w'))" for ch'
    using that list_all2_lengthD[OF sc] list_all2_nthD2[OF sc] by (metis in_set_conv_nth)
  then have "loop_sync (all_chans (snd ?w')) (fst ?w')"
    using ok(2) fds poller by (fastforce simp: loop_sync_def table_set_chans_def chan_sync_def same_chan_def)
  moreover have "conn_ok tid (conn_view a ?w')" if "a \<in> dom (conns (snd ?w'))" for a
  proof -
    from that dom obtain c where c: "conns (snd w) a = Some c" by auto
    have v: "conn_ok tid (fst (conn_view a w), c)" using ok(6)[of a] c by (auto simp: conn_view_def)
    have "snd (conn_view a ?w') = c\<lparr>chan := the (chs (a + 3))\<rparr>" using c'(1)[OF c] by simp
    moreover have "conn_ok tid (fst (conn_view a ?w'), c\<lparr>chan := the (chs (a + 3))\<rparr>)"
      using v c'(2)[OF c] th poller
      by (simp add: conn_ok_def isInLoopThread_def loop_sync_def chan_sync_def same_chan_def isWriting_def table_set_chans_def)
    ultimately show ?thesis by (metis prod.collapse)
  qed
  moreover have "resting (chan (the (conns (snd ?w') a)))" if "a \<in> dom (conns (snd ?w'))" for a
  proof -
    from that dom obtain c where c: "conns (snd w) a = Some c" by auto
    then have "table_chans w (a + 3) = Some (chan c)" by simp
    from idle[OF _ this] show ?thesis using ok(7)[of a] c by (auto simp: c'(1)[OF c])
  qed
  ultimately show ?thesis using ok(1,3,4,5) dom th
    by (auto simp: table_ok_def isInLoopThread_def table_set_chans_def)
qed

lemma table_chans_exists:
  "p < 3 \<or> p - 3 \<in> dom (conns (snd w)) \<Longrightarrow> table_chans w p \<noteq> None"
  by (auto simp: table_chans_def)

lemma table_set_same: "table_set_chans (table_chans w) w = w"
proof -
  have "(\<lambda>a. map_option (\<lambda>c. c\<lparr>chan := the (map_option chan (conns (snd w) a))\<rparr>) (conns (snd w) a)) = conns (snd w)"
    by (auto simp: fun_eq_iff intro: option.map_ident_strong)
  then show ?thesis by (cases w) (simp add: table_set_chans_def)
qed

text \<open>The events of a round.\<close>

fun reported :: "epoll_wait_result \<Rightarrow> (nat \<times> mask) list" where
  "reported (WaitFailed e) = []"
| "reported (Ready evs) = evs"

lemma poll_nothing:
  assumes w: "table_ok tid w" and r: "Poll r (poller (fst w)) (table_chans w) = Inr (poller (fst w), table_chans w, [])"
  shows "\<exists>ep chs es. Poll r (poller (fst w)) (table_chans w) = Inr (ep, chs, map fst es)
     \<and> table_ok tid (table_set_chans chs ((fst w)\<lparr>poller := ep\<rparr>, snd w)) \<and> distinct (map fst es)
     \<and> (\<forall>e \<in> set es. due (table_set_chans chs ((fst w)\<lparr>poller := ep\<rparr>, snd w)) e) \<and> es = []"
  unfolding r using w table_set_same[of w]
  by (intro exI[of _ "poller (fst w)"] exI[of _ "table_chans w"] exI[of _ "[]"]) simp

lemma poll_ok:
  assumes w: "table_ok tid w" and r: "deliverable w r"
  shows "\<exists>ep chs es. Poll r (poller (fst w)) (table_chans w) = Inr (ep, chs, map fst es)
     \<and> table_ok tid (table_set_chans chs ((fst w)\<lparr>poller := ep\<rparr>, snd w)) \<and> distinct (map fst es)
     \<and> (\<forall>e \<in> set es. due (table_set_chans chs ((fst w)\<lparr>poller := ep\<rparr>, snd w)) e) \<and> es = reported r"
proof -
  show ?thesis
  proof (cases r)
    case (WaitFailed e)
    have "Poll r (poller (fst w)) (table_chans w) = Inr (poller (fst w), table_chans w, [])"
      by (simp add: Poll_def WaitFailed)
    from poll_nothing[OF w this] show ?thesis by (simp add: WaitFailed)
  next
    case (Ready evs)
    show ?thesis
    proof (cases "evs = []")
      case True
      have "Poll r (poller (fst w)) (table_chans w) = Inr (poller (fst w), table_chans w, [])"
        by (simp add: Poll_def Ready True)
      from poll_nothing[OF w this] show ?thesis by (simp add: Ready True)
    next
      case False
      have evs: "distinct (map fst evs)" "\<And>p m. (p, m) \<in> set evs \<Longrightarrow> p < 3 \<or> (\<exists>c. conns (snd w) (p - 3) = Some c \<and> reportable m c)"
        using r Ready by (auto simp: deliverable_def)
      have "table_chans w (fst e) \<noteq> None" if "e \<in> set evs" for e
        using evs(2)[of "fst e" "snd e"] that by (intro table_chans_exists) auto
      then have "\<forall>e \<in> set evs. table_chans w (fst e) \<noteq> None" by blast
      from activate_total[OF this] obtain chs ps where act: "activate evs (table_chans w) = Inr (chs, ps)" by fastforce
      have ps: "ps = map fst evs" using activate_dom[OF act] by simp
      note chs = activate_chans[OF act]
      let ?ep = "if length evs = evCapacity (poller (fst w)) then (poller (fst w))\<lparr>evCapacity := 2 * evCapacity (poller (fst w))\<rparr>
        else poller (fst w)"
      let ?w1 = "table_set_chans chs ((fst w)\<lparr>poller := ?ep\<rparr>, snd w)"
      have "table_ok tid ?w1"
      proof (rule table_ok_set_chans[OF w])
        show "\<exists>ch'. chs p = Some ch' \<and> same_chan ch ch'" if "table_chans w p = Some ch" for p ch
          using that chs[of p] by (cases "map_of (rev evs) p") auto
        show "resting (the (chs p)) = resting ch" if "table_chans w p = Some ch" for p ch
          using that chs[of p] by (cases "map_of (rev evs) p") (auto simp: setRevents_def resting_def)
      qed simp_all
      moreover have "due ?w1 e" if mem: "e \<in> set evs" for e
      proof -
        obtain p m where e: "e = (p, m)" by (cases e)
        have m: "map_of (rev evs) p = Some m" using evs(1) mem e by (simp add: map_of_eq_Some_iff flip: rev_map)
        show ?thesis
        proof (cases "p < 3")
          case True
          then have "p = 0 \<or> p = 1 \<or> p = 2" by linarith
          then have "loop_revents ?w1 p = m"
            using chs[of p] m by (elim disjE) (simp_all add: loop_revents_def loop_chan_def table_set_chans_def setRevents_def)
          then show ?thesis using True by (simp add: due_def e)
        next
          case False
          then obtain c where c: "conns (snd w) (p - 3) = Some c" "reportable m c" using evs(2) mem e by blast
          have "chs (p - 3 + 3) = Some (setRevents m (chan c))" using chs[of p] c(1) False m
            by (simp add: table_chans_def)
          then have "conns (snd ?w1) (p - 3) = Some (c\<lparr>chan := setRevents m (chan c)\<rparr>)"
            using c(1) by (simp add: table_set_chans_def)
          moreover have "reportable m (c\<lparr>chan := setRevents m (chan c)\<rparr>)"
            using c(2) by (simp add: reportable_def setRevents_def isWriting_def)
          ultimately show ?thesis using False by (auto simp: due_def e setRevents_def)
        qed
      qed
      moreover have "Poll r (poller (fst w)) (table_chans w) = Inr (?ep, chs, map fst evs)"
        using act ps False Ready by (simp add: Poll_def)
      ultimately show ?thesis using evs(1) by (intro exI[of _ ?ep] exI[of _ chs] exI[of _ evs]) (simp add: Ready)
    qed
  qed
qed

subsection \<open>What the connections leave alone\<close>

lemma rest_simps [simp]:
  "rest_of ((fst w)\<lparr>poller := ep\<rparr>, snd w) = rest_of w"
  "rest_of (EventLoop_handleRead l, t) = rest_of (l, t)"
  "rest_of (l\<lparr>doingPendingJobs := b\<rparr>, t) = rest_of (l, t)"
  "rest_quit (rest_of w) = quitting (fst w)" "rest_tasks (rest_of w) = timer_tasks (pendingJobs (fst w))"
  "rest_more (rest_of w) = table.more (snd w)"
  by (auto simp: rest_of_def table_set_chans_def EventLoop_handleRead_def)

lemma rest_put: "conn_grows (conn_view a w) v \<Longrightarrow> rest_of (conn_put a v w) = rest_of w"
  using conn_put_pending[of a w v] by (auto simp: rest_of_def conn_put_def conn_grows_def conn_view_def Let_def)

lemma loop_chan_put [simp]:
  "loop_chan (conn_put a v w) = loop_chan w" "loop_revents (conn_put a v w) = loop_revents w" "loop_marks (conn_put a v w) = loop_marks w"
  "loop_idle (conn_put a v w) = loop_idle w"
  by (simp_all add: loop_chan_def loop_revents_def loop_marks_def loop_idle_def fun_eq_iff)

lemma rest_cbs_iff:
  "rest_cbs (rest_of w) = [x, y, z] \<longleftrightarrow> callbacks (wakeupChnl (snd w)) = x \<and> callbacks (timerChnl (snd w)) = y
     \<and> callbacks (acceptChnl (snd w)) = z"
  by (simp add: rest_of_def)

lemma rest_activate:
  assumes "activate evs (table_chans w) = Inr (chs, ps)"
  shows "rest_of (table_set_chans chs (l, snd w)) = rest_of (l, snd w)"
  using activate_chans[OF assms, of 0] activate_chans[OF assms, of 1] activate_chans[OF assms, of 2]
  by (auto simp: rest_of_def table_set_chans_def setRevents_def split: option.split)

lemma rest_same: "rest_of (table_set_chans (table_chans w) (l, snd w)) = rest_of (l, snd w)"
  by (simp add: rest_of_def table_set_chans_def)

lemma rest_poll:
  assumes "Poll r ep (table_chans w) = Inr (ep', chs, ps)"
  shows "rest_of (table_set_chans chs (l, snd w)) = rest_of (l, snd w)"
proof (cases r)
  case (WaitFailed e)
  then show ?thesis using assms rest_same[of w l] by (auto simp: Poll_def)
next
  case (Ready evs)
  show ?thesis
  proof (cases "evs = []")
    case True
    then show ?thesis using assms Ready rest_same[of w l] by (auto simp: Poll_def)
  next
    case False
    then obtain ps' where "activate evs (table_chans w) = Inr (chs, ps')"
      using assms Ready by (auto simp: Poll_def bindR_Inr_iff split: if_splits)
    then show ?thesis by (rule rest_activate)
  qed
qed

lemma upd_loop_chan:
  assumes "p < 3"
  shows "upd_chan (table_client tid h) p (\<lambda>ch. ch\<lparr>handlingEvents := b\<rparr>) w
     = table_set_chans ((table_chans w)(p := map_option (\<lambda>ch. ch\<lparr>handlingEvents := b\<rparr>) (table_chans w p))) (fst w, snd w)"
    "table_chans (upd_chan (table_client tid h) p (\<lambda>ch. ch\<lparr>handlingEvents := b\<rparr>) w) p
      = map_option (\<lambda>ch. ch\<lparr>handlingEvents := b\<rparr>) (table_chans w p)"
    "table_keeps w (upd_chan (table_client tid h) p (\<lambda>ch. ch\<lparr>handlingEvents := b\<rparr>) w)"
    "rest_of (upd_chan (table_client tid h) p (\<lambda>ch. ch\<lparr>handlingEvents := b\<rparr>) w) = rest_of w"
proof -
  have p: "p = 0 \<or> p = 1 \<or> p = 2" using assms by linarith
  show "upd_chan (table_client tid h) p (\<lambda>ch. ch\<lparr>handlingEvents := b\<rparr>) w
     = table_set_chans ((table_chans w)(p := map_option (\<lambda>ch. ch\<lparr>handlingEvents := b\<rparr>) (table_chans w p))) (fst w, snd w)"
    by (simp add: upd_chan_def table_client_def)
  show "table_chans (upd_chan (table_client tid h) p (\<lambda>ch. ch\<lparr>handlingEvents := b\<rparr>) w) p
      = map_option (\<lambda>ch. ch\<lparr>handlingEvents := b\<rparr>) (table_chans w p)"
    using p by (elim disjE) (simp_all add: upd_chan_def table_client_def table_set_chans_def)
  show "table_keeps w (upd_chan (table_client tid h) p (\<lambda>ch. ch\<lparr>handlingEvents := b\<rparr>) w)"
    using p by (elim disjE) (auto simp: upd_chan_def table_client_def table_set_chans_def table_keeps_def conns_stay_def loop_revents_def
        loop_chan_def fun_eq_iff)
  show "rest_of (upd_chan (table_client tid h) p (\<lambda>ch. ch\<lparr>handlingEvents := b\<rparr>) w) = rest_of w"
    using p by (elim disjE) (simp_all add: upd_chan_def table_client_def table_set_chans_def rest_of_def)
qed

text \<open>A channel handles events while its callback runs, and no longer.\<close>

lemma upd_idle:
  assumes "p < 3" "table_frame (upd_chan (table_client tid h) p (\<lambda>ch. ch\<lparr>handlingEvents := True\<rparr>) w) v" "loop_idle w"
  shows "loop_idle (upd_chan (table_client tid h) p (\<lambda>ch. ch\<lparr>handlingEvents := False\<rparr>) v)"
proof -
  let ?upd = "\<lambda>b. upd_chan (table_client tid h) p (\<lambda>ch. ch\<lparr>handlingEvents := b\<rparr>)"
  have p: "p = 0 \<or> p = 1 \<or> p = 2" using assms(1) by linarith
  have u: "loop_chan (?upd b u) q = (if q = p then (loop_chan u q)\<lparr>handlingEvents := b\<rparr> else loop_chan u q)" if "q < 3" for b u q
    using p that by (elim disjE) (simp_all add: upd_chan_def table_client_def table_set_chans_def loop_chan_def)
  have "\<not> handlingEvents (loop_chan (?upd False v) q)" if q: "q < 3" for q
  proof -
    have "handlingEvents (loop_chan v q) = handlingEvents (loop_chan (?upd True w) q)"
      using assms(2) by (simp add: table_frame_def loop_marks_def fun_eq_iff)
    then show ?thesis using u[OF q, of False v] u[OF q, of True w] q assms(3) by (simp add: loop_idle_def)
  qed
  then show ?thesis by (simp add: loop_idle_def)
qed

lemma idle_poll:
  assumes "Poll r ep (table_chans w) = Inr (ep', chs, ps)"
  shows "loop_idle (table_set_chans chs (l, snd w)) = loop_idle w"
proof -
  have same: "loop_idle (table_set_chans (table_chans w) (l, snd w)) = loop_idle w"
    by (simp add: loop_idle_def loop_chan_def table_set_chans_def)
  show ?thesis
  proof (cases "chs = table_chans w")
    case False
    then obtain evs where act: "activate evs (table_chans w) = Inr (chs, ps)"
      using assms by (cases r) (auto simp: Poll_def bindR_Inr_iff split: if_splits)
    then show ?thesis
      using activate_chans[OF act, of 0] activate_chans[OF act, of 1] activate_chans[OF act, of 2]
      by (auto simp: loop_idle_def loop_chan_def table_set_chans_def setRevents_def split: option.splits)
  qed (use same in simp)
qed

lemma upd_loop_chan_ok:
  assumes "p < 3" "table_ok tid w"
  shows "table_ok tid (upd_chan (table_client tid h) p (\<lambda>ch. ch\<lparr>handlingEvents := b\<rparr>) w)"
  unfolding upd_loop_chan(1)[OF assms(1)]
  by (rule table_ok_set_chans[OF assms(2)]) (use assms(1) in auto)

lemma eventfd_ok:
  assumes "table_ok tid w"
  shows "table_ok tid (EventLoop_handleRead (fst w), snd w)" "table_frame w (EventLoop_handleRead (fst w), snd w)"
proof -
  have "conn_ok tid (conn_view a (EventLoop_handleRead (fst w), snd w))" if "conn_ok tid (conn_view a w)" for a
    using that by (simp add: conn_ok_def conn_view_def EventLoop_handleRead_def isInLoopThread_def loop_sync_def)
  then show "table_ok tid (EventLoop_handleRead (fst w), snd w)" using assms
    by (auto simp: table_ok_def EventLoop_handleRead_def isInLoopThread_def loop_sync_def)
  show "table_frame w (EventLoop_handleRead (fst w), snd w)" by (simp add: frame_defs fun_eq_iff)
qed

subsection \<open>Destruction\<close>

lemma socket_closed_simps [simp]:
  "pendingJobs (socket_closed fd l) = pendingJobs l" "threadId (socket_closed fd l) = threadId l"
  "quitting (socket_closed fd l) = quitting l"
  "kernel (socket_closed fd l) = (kernel l)(fd := None)"
  "all_legal (ctl_log (poller (socket_closed fd l))) Map.empty = all_legal (ctl_log (poller l)) Map.empty"
  by (auto simp: socket_closed_def interest_append ctl_effect_def all_legal_append ctl_legal_def fun_eq_iff)

lemma reap_conn_ok:
  assumes w: "table_ok tid w" and a: "a \<in> dom (conns (snd w))"
  shows "\<exists>w'. reap_conn held a w = Inr w' \<and> table_ok tid w' \<and> table_frame w w' \<and> rest_of w' = rest_of w
     \<and> pendingJobs (fst w') = pendingJobs (fst w)
     \<and> conns (snd w') = (if unheld held (conn_view a w) then (conns (snd w))(a := None) else conns (snd w))"
proof (cases "unheld held (conn_view a w)")
  case True
  note ok = table_okD[OF w]
  let ?c = "the (conns (snd w) a)"
  let ?w' = "(socket_closed (chfd (chan ?c)) (fst w), (snd w)\<lparr>objs := remove1 a (objs (snd w)), conns := (conns (snd w))(a := None)\<rparr>)"
  have c: "state ?c = kDisconnected" "own_tasks a (pendingJobs (fst w)) = []" using True by (simp_all add: unheld_def)
  have run: "reap_conn held a w = Inr ?w'"
    using True c(1) ok(7)[OF a] by (simp add: resting_def reap_conn_def TcpConnection_delete_def Channel_delete_def)
  have no_task: "t \<notin> set (own_tasks a (pendingJobs (fst w)))" for t using c(2) by simp
  have as: "a \<in> set (objs (snd w))" using a ok(4) by simp
  have sync: "distinct (map chfd (all_chans (snd w)))" "\<forall>ch \<in> set (all_chans (snd w)). chan_sync (kernel (fst w)) ch"
      "all_legal (ctl_log (poller (fst w))) Map.empty"
    using ok(2) by (simp_all add: loop_sync_def)
  note fds = all_chans_fds[OF sync(1) as]
  have objs: "set (objs (snd ?w')) = set (objs (snd w)) - {a}" "distinct (objs (snd ?w'))"
    using ok(3) by (simp_all add: set_remove1_eq distinct_remove1)
  have same: "map (\<lambda>b. chan (the (conns (snd ?w') b))) (objs (snd ?w')) = map (\<lambda>b. chan (the (conns (snd w) b))) (remove1 a (objs (snd w)))"
    using ok(3) by (intro map_cong) (auto simp: set_remove1_eq)
  have "distinct (map chfd (all_chans (snd ?w')))"
    using sync(1) same ok(3) by (auto simp: all_chans_def distinct_map inj_on_def comp_def set_remove1_eq distinct_remove1)
  moreover have "\<forall>ch \<in> set (all_chans (snd ?w')). chan_sync (kernel (fst ?w')) ch"
    using sync(2) same ok(3) fds by (auto simp: all_chans_def chan_sync_def set_remove1_eq)
  ultimately have s: "loop_sync (all_chans (snd ?w')) (fst ?w')" using sync(3) by (simp add: loop_sync_def)
  have others: "conn_ok tid (conn_view b ?w')" if "b \<in> dom (conns (snd ?w'))" for b
  proof -
    have b: "b \<in> dom (conns (snd w))" "b \<noteq> a" "b \<in> set (objs (snd w))" using that ok(4) by (auto split: if_splits)
    have ok_b: "conn_ok tid (fst (conn_view b w), the (conns (snd w) b))" using ok(6)[OF b(1)] by (simp add: conn_view_def)
    have "conn_view b ?w' = (fst (conn_view b ?w'), the (conns (snd w) b))" using b(2) by (simp add: conn_view_def)
    moreover have "conn_ok tid (fst (conn_view b ?w'), the (conns (snd w) b))"
      by (rule conn_ok_cong[OF ok_b]) (use fds(4)[OF b(3,2)] sync(3) in simp_all)
    ultimately show ?thesis by metis
  qed
  have "table_ok tid ?w'"
    using ok(1,3,4,5,7) s objs others no_task by (auto simp: table_ok_def isInLoopThread_def set_own_tasks)
  moreover have "table_frame w ?w'" using c(1) by (auto simp: frame_defs fun_eq_iff)
  moreover have "rest_of ?w' = rest_of w" by (simp add: rest_of_def)
  ultimately show ?thesis using run True by auto
qed (use w in \<open>simp add: reap_conn_def\<close>)

lemma unheld_cong: "pendingJobs (fst v) = pendingJobs (fst w) \<Longrightarrow> conns (snd v) b = conns (snd w) b \<Longrightarrow>
    unheld held (conn_view b v) = unheld held (conn_view b w)"
  by (simp add: unheld_def)

text \<open>Exactly the connections that nothing holds are gone.\<close>

lemma reap_ok:
  assumes "table_ok tid w"
  shows "\<exists>w'. reap held w = Inr w' \<and> table_ok tid w' \<and> table_frame w w' \<and> rest_of w' = rest_of w
     \<and> pendingJobs (fst w') = pendingJobs (fst w)
     \<and> conns (snd w') = (\<lambda>a. if unheld held (conn_view a w) then None else conns (snd w) a)"
proof -
  have "\<exists>w'. foldR (reap_conn held) as w = Inr w' \<and> table_ok tid w' \<and> table_frame w w' \<and> rest_of w' = rest_of w
     \<and> pendingJobs (fst w') = pendingJobs (fst w)
     \<and> conns (snd w') = (\<lambda>a. if a \<in> set as \<and> unheld held (conn_view a w) then None else conns (snd w) a)"
    if "distinct as" "set as \<subseteq> dom (conns (snd w))" for as
    using assms that
  proof (induction as arbitrary: w)
    case Nil
    then show ?case by simp
  next
    case (Cons a as)
    from reap_conn_ok[OF Cons.prems(1), of a held] Cons.prems(3) obtain w1 where
      w1: "reap_conn held a w = Inr w1" "table_ok tid w1" "table_frame w w1" "rest_of w1 = rest_of w"
        "pendingJobs (fst w1) = pendingJobs (fst w)"
        "conns (snd w1) = (if unheld held (conn_view a w) then (conns (snd w))(a := None) else conns (snd w))" by auto
    have "set as \<subseteq> dom (conns (snd w1))" using Cons.prems(2,3) w1(6) by auto
    from Cons.IH[OF w1(2) _ this] Cons.prems(2) obtain w' where
      w': "foldR (reap_conn held) as w1 = Inr w'" "table_ok tid w'" "table_frame w1 w'" "rest_of w' = rest_of w1"
        "pendingJobs (fst w') = pendingJobs (fst w1)"
        "conns (snd w') = (\<lambda>b. if b \<in> set as \<and> unheld held (conn_view b w1) then None else conns (snd w1) b)" by auto
    have "unheld held (conn_view b w1) = unheld held (conn_view b w)" if "b \<in> set as" for b
      using that w1(5,6) Cons.prems(2) by (intro unheld_cong) auto
    then have "conns (snd w') = (\<lambda>b. if b \<in> set (a # as) \<and> unheld held (conn_view b w) then None else conns (snd w) b)"
      using w'(6) w1(6) Cons.prems(2) by (intro ext) auto
    then show ?case using w1 w'(1-5) table_frame_trans[OF w1(3) w'(3)] by simp
  qed
  from this[of "objs (snd w)"] table_okD(3,4)[OF assms] show ?thesis
    by (fastforce simp: reap_def fun_eq_iff domIff)
qed

end
