(* ===== verification/Loop_Safe.thy ===== *)
theory Loop_Safe
  imports Loop_Table
begin

text \<open>
  A round of the loop over many connections. The locale \<open>loop_handlers\<close> is what the handlers of the timer and
  of the acceptor must fulfil; under it a round keeps the table well-formed, whatever the kernel reports.
\<close>

subsection \<open>A round\<close>

text \<open>
  What an event, or a list of events, does to what the connections leave alone: the timer callback
  runs once when the timer descriptor is readable, and nothing changes otherwise.
\<close>

definition ticked :: "nat \<Rightarrow> ('x, 'z) handlers \<Rightarrow> bool \<Rightarrow> ('x, 'z) table_world \<Rightarrow> ('x, 'z) table_world \<Rightarrow> bool" where
  "ticked tid h b w w' \<longleftrightarrow> (if b then \<exists>v v'. table_ok tid v \<and> rest_of v = rest_of w \<and> on_timer h v = Inr v' \<and> rest_of w' = rest_of v'
     else rest_of w' = rest_of w)"

definition timer_due :: "(nat \<times> mask) list \<Rightarrow> bool" where
  "timer_due es \<longleftrightarrow> (\<exists>m. (1, m) \<in> set es \<and> wants_read m)"

text \<open>A connection among the events \<open>es\<close> is told that its peer is gone.\<close>

definition closing :: "('x, 'z) handlers \<Rightarrow> (nat \<times> mask) list \<Rightarrow> bool" where
  "closing h es \<longleftrightarrow> (\<exists>(p, m) \<in> set es. 3 \<le> p \<and> hangs_up (io_of h (p - 3)) m)"

lemma closing_simps [simp]: "\<not> closing h []" "closing h ((p, m) # es) \<longleftrightarrow> 3 \<le> p \<and> hangs_up (io_of h (p - 3)) m \<or> closing h es"
  by (auto simp: closing_def)

text \<open>
  The contract of the handlers. \<open>inv\<close> is the program's own invariant, of what the connections do not
  touch; it says that no task of the timer queue is pending, which holds when the timers are only set
  and cancelled from the loop's thread.
\<close>

locale loop_handlers =
  fixes tid :: nat and h :: "('x, 'z) handlers" and inv :: "'z rest \<Rightarrow> bool"
  assumes client: "framed_client (user_of h a) tid"
    and io: "io_ok (io_of h a)"
    and inv_idle: "inv z \<Longrightarrow> rest_tasks z = [] \<and> rest_cbs z = [[ReadCb], [ReadCb], [ReadCb]]"
    and timer_ok: "table_ok tid w \<Longrightarrow> inv (rest_of w) \<Longrightarrow>
      ends_in (\<lambda>w'. table_ok tid w' \<and> table_frame w w' \<and> inv (rest_of w')) (on_timer h w)"
    and accept_ok: "table_ok tid w \<Longrightarrow> inv (rest_of w) \<Longrightarrow>
      ends_in (\<lambda>w'. table_ok tid w' \<and> table_frame w w' \<and> rest_of w' = rest_of w) (on_accept h w)"
begin

lemma conn_client_of: "conn_client (user_of h a) tid"
  using client framed_client.axioms(1) by blast

lemma loop_callback_ok:
  assumes "p < 3" "table_ok tid w" "inv (rest_of w)"
  shows "ends_in (\<lambda>w'. table_ok tid w' \<and> table_frame w w' \<and> inv (rest_of w') \<and> ticked tid h (p = 1) w w')
     (on_event (table_client tid h) p k w)"
proof -
  have p: "p = 0 \<or> p = 1 \<or> p = 2" using assms(1) by linarith
  have "ends_in (\<lambda>w'. table_ok tid w' \<and> table_frame w w' \<and> inv (rest_of w') \<and> ticked tid h True w w') (on_timer h w)"
    using timer_ok[OF assms(2,3)] assms(2) unfolding ticked_def
    by (cases "on_timer h w") (simp_all del: split_paired_Ex, blast)
  moreover have "ends_in (\<lambda>w'. table_ok tid w' \<and> table_frame w w' \<and> inv (rest_of w') \<and> ticked tid h False w w') (on_accept h w)"
    by (rule ends_in_mono[OF accept_ok[OF assms(2,3)]]) (use assms(3) in \<open>simp add: ticked_def\<close>)
  ultimately show ?thesis using p eventfd_ok[OF assms(2)] assms(3)
    by (elim disjE) (simp_all add: table_client_def ticked_def)
qed

text \<open>An event of the loop's own channels, whose callback is called through the same dispatch.\<close>

lemma loop_event_ok:
  assumes w: "table_ok tid w" and inv: "inv (rest_of w)" and e: "due w (p, m)" and p: "p < 3"
  shows "ends_in (\<lambda>w'. table_ok tid w' \<and> table_keeps w w' \<and> inv (rest_of w') \<and> ticked tid h (p = 1 \<and> wants_read m) w w'
       \<and> (loop_idle w \<longrightarrow> loop_idle w')) (Channel_handleEvents tid (table_client tid h) p w)"
proof -
  let ?upd = "\<lambda>b. upd_chan (table_client tid h) p (\<lambda>ch. ch\<lparr>handlingEvents := b\<rparr>)"
  have p': "p = 0 \<or> p = 1 \<or> p = 2" using p by linarith
  have cbs: "\<exists>ch. table_chans v p = Some ch \<and> callbacks ch = [ReadCb]" if "inv (rest_of v)" for v
    using inv_idle[OF that] p' by (elim disjE) (simp_all add: rest_cbs_iff)
  obtain ch where ch: "table_chans w p = Some ch" "callbacks ch = [ReadCb]" using cbs[OF inv] by blast
  have m: "revents ch = m" using e p p' ch(1) by (elim disjE) (auto simp: due_def loop_revents_def loop_chan_def)
  note upd = upd_loop_chan[OF p, where tid = tid and h = h] upd_loop_chan_ok[OF p]
  have start: "table_ok tid (?upd True w)" "inv (rest_of (?upd True w))"
    using upd(5)[OF w] upd(4) inv by metis+
  note cb = loop_callback_ok[OF p start, of ReadCb]
  have run: "handleEventsWithGuard (\<lambda>w. table_chans w p) (upd_chan (table_client tid h) p) (on_event (table_client tid h) p) w
     = bindR (if wants_read m then on_event (table_client tid h) p ReadCb (?upd True w) else Inr (?upd True w)) (\<lambda>w'. Inr (?upd False w'))"
    unfolding m[symmetric]
    by (rule dispatch_read) (use upd(2) ch cb cbs in \<open>auto dest: ends_in_Inr[rotated]\<close>)
  have tk: "ticked tid h b (?upd True w) v = ticked tid h b w v" "ticked tid h b w (?upd False v) = ticked tid h b w v" for b v
    by (simp_all only: ticked_def upd(4))
  let ?Q = "\<lambda>w'. table_ok tid w' \<and> table_frame (?upd True w) w' \<and> inv (rest_of w') \<and> ticked tid h (p = 1 \<and> wants_read m) w w'"
  have "ends_in ?Q (if wants_read m then on_event (table_client tid h) p ReadCb (?upd True w) else Inr (?upd True w))"
  proof (cases "wants_read m")
    case True
    then show ?thesis using tk(1) by (auto intro: ends_in_mono[OF cb])
  next
    case False
    then show ?thesis using start by (simp add: ticked_def upd(4))
  qed
  then have "ends_in (\<lambda>w'. table_ok tid w' \<and> table_keeps w w' \<and> inv (rest_of w') \<and> ticked tid h (p = 1 \<and> wants_read m) w w'
       \<and> (loop_idle w \<longrightarrow> loop_idle w'))
     (bindR (if wants_read m then on_event (table_client tid h) p ReadCb (?upd True w) else Inr (?upd True w)) (\<lambda>w'. Inr (?upd False w')))"
  proof (rule ends_in_bindR)
    fix v assume v: "?Q v"
    have idle: "loop_idle w \<Longrightarrow> loop_idle (?upd False v)" by (rule upd_idle[OF p]) (use v in blast)
    have keeps: "table_keeps w (?upd False v)"
      by (rule table_keeps_trans[OF upd(3) table_keeps_trans[OF frame_keeps upd(3)]]) (use v in blast)
    show "ends_in (\<lambda>w'. table_ok tid w' \<and> table_keeps w w' \<and> inv (rest_of w') \<and> ticked tid h (p = 1 \<and> wants_read m) w w'
       \<and> (loop_idle w \<longrightarrow> loop_idle w')) (Inr (?upd False v))"
      using v upd(5) tk(2) idle keeps unfolding ends_in_simps upd(4) by blast
  qed
  then show ?thesis using run table_okD(1)[OF w] by (simp add: Channel_handleEvents_def table_client_def)
qed

text \<open>The events of a connection.\<close>

lemma conn_event_lift:
  assumes w: "isInLoopThread tid (fst w)" and a: "a \<in> dom (conns (snd w))"
  shows "Channel_handleEvents tid (table_client tid h) (a + 3) w
      = at_conn a (handleEventsWithGuard (\<lambda>v. Some (chan (snd v))) (\<lambda>f v. (fst v, (snd v)\<lparr>chan := f (chan (snd v))\<rparr>))
          (event_then_release (held_by h) (user_of h a) tid (io_of h a))) w"
proof -
  have fr: "growing conn_grows v (event_then_release (held_by h) (user_of h a) tid (io_of h a) k v)" for v k
    by (rule framed_grows[OF framed_release[OF framed_client.event_framed[OF client]]])
  have "handleEventsWithGuard (\<lambda>w. table_chans w (a + 3)) (upd_chan (table_client tid h) (a + 3)) (on_event (table_client tid h) (a + 3)) w
      = at_conn a (handleEventsWithGuard (\<lambda>v. Some (chan (snd v))) (\<lambda>f v. (fst v, (snd v)\<lparr>chan := f (chan (snd v))\<rparr>))
          (event_then_release (held_by h) (user_of h a) tid (io_of h a))) w"
    by (rule one.handleEvents_lift[OF a _ fr]) (simp add: table_client_def)
  then show ?thesis unfolding Channel_handleEvents_def using w by (simp add: table_client_def)
qed

lemma conn_event_ok:
  assumes w: "table_ok tid w" and e: "due w (p, m)" and q: "\<not> p < 3"
  shows "ends_but (closing h [(p, m)]) (\<lambda>w'. table_ok tid w' \<and> rest_of w' = rest_of w \<and> loop_idle w' = loop_idle w
       \<and> (\<forall>q m'. q \<noteq> p \<longrightarrow> due w (q, m') \<longrightarrow> due w' (q, m')))
     (Channel_handleEvents tid (table_client tid h) p w)"
proof -
  define a where "a = p - 3"
  then have p: "p = a + 3" using q by simp
  from e obtain c where c: "conns (snd w) a = Some c" "revents (chan c) = m" "reportable m c"
    by (auto simp: due_def p)
  have a: "a \<in> dom (conns (snd w))" using c(1) by blast
  let ?u = "user_of h a" and ?io = "io_of h a"
  let ?upd = "\<lambda>f v. (fst v, (snd v)\<lparr>chan := f (chan (snd v))\<rparr>) :: 'x conn_world"
  let ?run = "handleEventsWithGuard (\<lambda>v. Some (chan (snd v))) ?upd (event_then_release (held_by h) ?u tid ?io)"
  have fu: "growing conn_grows u (?run u)" for u
    by (rule one.handleEvents_grows) (rule framed_grows[OF framed_release[OF framed_client.event_framed[OF client]]])
  obtain l where v: "conn_view a w = (l, c)" using c(1) by (simp add: conn_view_def)
  have ok: "conn_ok tid (l, c)" using table_okD(6)[OF w a] v by simp
  have live: "live c" using c(3) by (simp add: reportable_def)
  have "ends_in (conn_ok tid) (conn_handleEvents ?u tid ?io (l, c))"
    by (rule conn_client.handleEvents_ok[OF conn_client_of ok io]) (use c(2,3) in \<open>auto simp: reportable_def\<close>)
  from framed_client.release_agree[OF client ok live io this]
  have "ends_but (hangs_up ?io m) (conn_ok tid) (?run (l, c))" by (simp add: c(2))
  moreover have "resting (chan (snd v'))" if "?run (l, c) = Inr v'" for v'
  proof -
    have "conn_grows (l, c) v'" using fu[of "(l, c)"] that by simp
    moreover have "resting (chan c)" using table_okD(7)[OF w a] c(1) by simp
    ultimately show ?thesis using dispatch_idle[OF that] by (auto simp: resting_def conn_grows_def)
  qed
  ultimately have safe: "ends_but (hangs_up ?io m) (\<lambda>v. conn_ok tid v \<and> resting (chan (snd v))) (?run (conn_view a w))"
    unfolding v by (cases "?run (l, c)") auto
  note kept = at_conn_but[where f = ?run, OF w a safe fu]
  have frame: "conn_grows (conn_view a w) v" if "?run (conn_view a w) = Inr v" for v
    using fu[of "conn_view a w"] that by simp
  have others: "due (conn_put a v' w) (q, m')" if "due w (q, m')" "q \<noteq> p" for q m' v'
  proof (cases "q < 3")
    case False
    then have "q - 3 \<noteq> a" using that(2) p by linarith
    then show ?thesis using that(1) False by (simp add: due_def)
  qed (use that in \<open>auto simp: due_def loop_revents_def\<close>)
  show ?thesis unfolding p conn_event_lift[OF table_okD(1)[OF w] a]
    by (rule ends_but_mono[OF kept]) (use others[unfolded p] frame rest_put loop_chan_put(4) in \<open>blast, simp\<close>)
qed

text \<open>The events of one channel leave those of the others due.\<close>

lemma event_ok:
  assumes w: "table_ok tid w" "inv (rest_of w)" and e: "due w (p, m)"
  shows "ends_but (closing h [(p, m)]) (\<lambda>w'. table_ok tid w' \<and> inv (rest_of w') \<and> ticked tid h (p = 1 \<and> wants_read m) w w' \<and> (loop_idle w \<longrightarrow> loop_idle w')
       \<and> (\<forall>q m'. q \<noteq> p \<longrightarrow> due w (q, m') \<longrightarrow> due w' (q, m')))
     (Channel_handleEvents tid (table_client tid h) p w)"
proof (cases "p < 3")
  case True
  show ?thesis by (rule ends_in_but[OF ends_in_mono[OF loop_event_ok[OF w e True]]]) (auto intro: due_frame)
next
  case False
  show ?thesis by (rule ends_but_mono[OF conn_event_ok[OF w(1) e False]]) (use w False in \<open>auto simp: ticked_def\<close>)
qed

lemma ticked_trans:
  "ticked tid h a u v \<Longrightarrow> ticked tid h b v w \<Longrightarrow> \<not> (a \<and> b) \<Longrightarrow> ticked tid h (a \<or> b) u w"
  by (auto simp: ticked_def split: if_splits)

lemma events_ok:
  assumes "table_ok tid w" "inv (rest_of w)" "distinct (map fst es)" "\<forall>e \<in> set es. due w e"
  shows "ends_but (closing h es) (\<lambda>w'. table_ok tid w' \<and> inv (rest_of w') \<and> ticked tid h (timer_due es) w w' \<and> (loop_idle w \<longrightarrow> loop_idle w'))
     (foldR (Channel_handleEvents tid (table_client tid h)) (map fst es) w)"
  using assms
proof (induction es arbitrary: w)
  case Nil
  then show ?case by (simp add: ticked_def timer_due_def)
next
  case (Cons e es)
  obtain p m where e: "e = (p, m)" by (cases e)
  have d: "due w (p, m)" using Cons.prems(4) e by simp
  have td: "timer_due (e # es) \<longleftrightarrow> (p = 1 \<and> wants_read m) \<or> timer_due es" by (auto simp: timer_due_def e)
  have nd: "\<not> ((p = 1 \<and> wants_read m) \<and> timer_due es)" using Cons.prems(3) e by (force simp: timer_due_def)
  have cl: "closing h ((p, m) # es) = (closing h [(p, m)] \<or> closing h es)" by simp
  show ?case unfolding e list.map foldR.simps fst_conv cl
  proof (rule ends_but_bindR[OF event_ok[OF Cons.prems(1,2) d]])
    fix w' :: "('x, 'z) table_world"
    assume w': "table_ok tid w' \<and> inv (rest_of w') \<and> ticked tid h (p = 1 \<and> wants_read m) w w' \<and> (loop_idle w \<longrightarrow> loop_idle w')
      \<and> (\<forall>q m'. q \<noteq> p \<longrightarrow> due w (q, m') \<longrightarrow> due w' (q, m'))"
    have "due w' x" if "x \<in> set es" for x
    proof -
      obtain q m' where x: "x = (q, m')" by (cases x)
      have "q \<in> fst ` set es" using that x by force
      then have "q \<noteq> p" using Cons.prems(3) e by auto
      moreover have "due w (q, m')" using Cons.prems(4) that x by simp
      ultimately show ?thesis using w' x by blast
    qed
    then have "ends_but (closing h es) (\<lambda>w''. table_ok tid w'' \<and> inv (rest_of w'') \<and> ticked tid h (timer_due es) w' w'' \<and> (loop_idle w' \<longrightarrow> loop_idle w''))
        (foldR (Channel_handleEvents tid (table_client tid h)) (map fst es) w')"
      using Cons.IH[of w'] w' Cons.prems(3) by simp
    moreover have "ticked tid h (timer_due ((p, m) # es)) w w''" if "ticked tid h (timer_due es) w' w''" for w''
      using ticked_trans[OF _ that nd] w' td unfolding e by simp
    ultimately show "ends_but (closing h es) (\<lambda>w''. table_ok tid w'' \<and> inv (rest_of w'') \<and> ticked tid h (timer_due ((p, m) # es)) w w'' \<and> (loop_idle w \<longrightarrow> loop_idle w''))
        (foldR (Channel_handleEvents tid (table_client tid h)) (map fst es) w')"
      using w' by (elim ends_but_mono) blast+
  qed
qed

lemma tasks_ok:
  assumes w: "table_ok tid w" and inv: "inv (rest_of w)"
  shows "ends_in (\<lambda>w'. table_ok tid w' \<and> rest_of w' = rest_of w \<and> loop_idle w' = loop_idle w) (doPendingJobs tid (run_task (table_client tid h)) w)"
proof -
  note ok = table_okD[OF w]
  let ?w1 = "((fst w)\<lparr>pendingJobs := [], doingPendingJobs := True\<rparr>, snd w)"
  have small: "length data \<le> vec_max" if "ConnTask a (SendInLoop data) \<in> set (pendingJobs (fst w))" for a data
    using that conn_okD(11)[of tid "fst (conn_view a w)" "snd (conn_view a w)" data] ok(6)[OF ok(5)[OF that]]
    by (simp add: set_own_tasks del: conn_view_simps(4))
  let ?I = "\<lambda>w'. table_ok tid w' \<and> rest_of w' = rest_of w \<and> loop_idle w' = loop_idle w \<and> dom (conns (snd w)) \<subseteq> dom (conns (snd w'))"
  have none: "timer_tasks (pendingJobs (fst w)) = []" using inv_idle[OF inv] by simp
  have flags: "table_ok tid ((fst v)\<lparr>doingPendingJobs := b\<rparr>, snd v)" if "table_ok tid v" for v :: "('x, 'z) table_world" and b
  proof -
    have "conn_ok tid (conn_view a ((fst v)\<lparr>doingPendingJobs := b\<rparr>, snd v))" if "conn_ok tid (conn_view a v)" for a
      using that by (simp add: conn_ok_def conn_view_def isInLoopThread_def loop_sync_def)
    then show ?thesis using that by (auto simp: table_ok_def isInLoopThread_def loop_sync_def)
  qed
  have "conn_ok tid (conn_view a ?w1)" if "a \<in> dom (conns (snd w))" for a
    using ok(6)[OF that] by (simp add: conn_ok_def conn_view_def isInLoopThread_def loop_sync_def)
  moreover have "rest_of ?w1 = rest_of w" using none by (simp add: rest_of_def)
  ultimately have start: "?I ?w1" using ok by (auto simp: table_ok_def isInLoopThread_def loop_sync_def)
  have task: "ends_in ?I (run_task (table_client tid h) x v)" if x: "x \<in> set (pendingJobs (fst w))" and v: "?I v" for x v
  proof -
    have "x \<noteq> TimerTask t" for t using x none set_timer_tasks[of t "pendingJobs (fst w)"] by auto
    then obtain a t where at: "x = ConnTask a t" by (cases x) auto
    have a: "a \<in> dom (conns (snd v))" using ok(5) x at v by blast
    have "ends_in (conn_ok tid) (run_conn_task (user_of h a) tid (io_of h a) t (conn_view a v))"
      by (rule conn_client.task_ok[OF conn_client_of _ io]) (use table_okD(6)[OF conjunct1[OF v] a] small x at in auto)
    note kept = at_conn_ok[where f = "run_conn_task (user_of h a) tid (io_of h a) t", OF conjunct1[OF v] a this
        framed_client.task_framed[OF client]]
    have "run_task (table_client tid h) x v = at_conn a (run_conn_task (user_of h a) tid (io_of h a) t) v"
      by (simp add: table_client_def at)
    moreover have "ends_in ?I (at_conn a (run_conn_task (user_of h a) tid (io_of h a) t) v)"
    proof (rule ends_in_mono[OF kept])
      fix v'
      assume "table_ok tid v' \<and> (\<exists>u. run_conn_task (user_of h a) tid (io_of h a) t (conn_view a v) = Inr u \<and> v' = conn_put a u v)"
      then obtain u where u: "table_ok tid v'" "run_conn_task (user_of h a) tid (io_of h a) t (conn_view a v) = Inr u"
        "v' = conn_put a u v" by blast
      have "conn_grows (conn_view a v) u" using framed_grows[OF framed_client.task_framed[OF client]] u(2) by (metis growing_simps(1))
      then have "rest_of v' = rest_of v" unfolding u(3) by (rule rest_put)
      then show "?I v'" using u(1,3) v by auto
    qed
    ultimately show ?thesis by simp
  qed
  have "ends_in ?I (foldR (run_task (table_client tid h)) (pendingJobs (fst w)) ?w1)"
    by (rule ends_in_foldR[where P = ?I, OF task start])
  then show ?thesis using ok(1) flags by (auto simp: doPendingJobs_def Let_def intro!: ends_in_bindR)
qed

lemma iteration_ok:
  assumes w: "table_ok tid w" "inv (rest_of w)" and r: "deliverable w r"
  shows "ends_but (closing h (reported r)) (\<lambda>w'. table_ok tid w' \<and> inv (rest_of w') \<and> ticked tid h (timer_due (reported r)) w w' \<and> (loop_idle w \<longrightarrow> loop_idle w'))
     (loop_iteration tid (table_client tid h) r w)"
proof -
  from poll_ok[OF w(1) r] obtain ep chs where
    poll: "Poll r (poller (fst w)) (table_chans w) = Inr (ep, chs, map fst (reported r))" and
    ok: "table_ok tid (table_set_chans chs ((fst w)\<lparr>poller := ep\<rparr>, snd w))" and
    es: "distinct (map fst (reported r))" "\<forall>e \<in> set (reported r). due (table_set_chans chs ((fst w)\<lparr>poller := ep\<rparr>, snd w)) e" by blast
  let ?w1 = "table_set_chans chs ((fst w)\<lparr>poller := ep\<rparr>, snd w)"
  have r1: "rest_of ?w1 = rest_of w" using rest_poll[OF poll, of "(fst w)\<lparr>poller := ep\<rparr>"] by simp
  have i1: "loop_idle ?w1 = loop_idle w" using idle_poll[OF poll, of "(fst w)\<lparr>poller := ep\<rparr>"] by simp
  have get: "get_chans (table_client tid h) = table_chans" "set_chans (table_client tid h) = table_set_chans"
    by (simp_all add: table_client_def)
  have "ends_but (closing h (reported r) \<or> False) (\<lambda>w'. table_ok tid w' \<and> inv (rest_of w') \<and> ticked tid h (timer_due (reported r)) w w' \<and> (loop_idle w \<longrightarrow> loop_idle w'))
     (bindR (foldR (Channel_handleEvents tid (table_client tid h)) (map fst (reported r)) ?w1)
       (doPendingJobs tid (run_task (table_client tid h))))"
  proof (rule ends_but_bindR[OF events_ok[OF ok _ es]])
    show "inv (rest_of ?w1)" using r1 w(2) by simp
    show "ends_but False (\<lambda>w'. table_ok tid w' \<and> inv (rest_of w') \<and> ticked tid h (timer_due (reported r)) w w' \<and> (loop_idle w \<longrightarrow> loop_idle w'))
        (doPendingJobs tid (run_task (table_client tid h)) v)"
      if "table_ok tid v \<and> inv (rest_of v) \<and> ticked tid h (timer_due (reported r)) ?w1 v \<and> (loop_idle ?w1 \<longrightarrow> loop_idle v)" for v
      unfolding ends_but_simps using that r1 i1 by (intro ends_in_mono[OF tasks_ok[of v]]) (auto simp: ticked_def)
  qed
  then show ?thesis using table_okD(1)[OF w(1)] poll by (simp add: loop_iteration_def get)
qed

text \<open>
  A round keeps the invariants; the timer callback runs in it exactly when the timer descriptor is
  reported readable. It fails no assertion, but for that of a channel that is destroyed while it handles
  the event by which its connection closes; after it, no closed connection is left that nothing holds.
\<close>

theorem round_ok:
  assumes "table_ok tid w" "inv (rest_of w)" "deliverable w r"
  shows "ends_but (closing h (reported r)) (\<lambda>w'. table_ok tid w' \<and> inv (rest_of w') \<and> ticked tid h (timer_due (reported r)) w w'
       \<and> (loop_idle w \<longrightarrow> loop_idle w') \<and> (\<forall>a \<in> dom (conns (snd w')). \<not> unheld (held_by h) (conn_view a w')))
     (table_round tid h r w)"
proof -
  let ?P = "\<lambda>w'. table_ok tid w' \<and> inv (rest_of w') \<and> ticked tid h (timer_due (reported r)) w w' \<and> (loop_idle w \<longrightarrow> loop_idle w')"
  let ?Q = "\<lambda>w'. table_ok tid w' \<and> inv (rest_of w') \<and> ticked tid h (timer_due (reported r)) w w'
       \<and> (loop_idle w \<longrightarrow> loop_idle w') \<and> (\<forall>a \<in> dom (conns (snd w')). \<not> unheld (held_by h) (conn_view a w'))"
  have "ends_but (closing h (reported r) \<or> False) ?Q (bindR (loop_iteration tid (table_client tid h) r w) (reap (held_by h)))"
  proof (rule ends_but_bindR[OF iteration_ok[OF assms]])
    fix v assume v: "?P v"
    from reap_ok[OF conjunct1[OF v], of "held_by h"] obtain w' where
      w': "reap (held_by h) v = Inr w'" "table_ok tid w'" "table_frame v w'" "rest_of w' = rest_of v"
        "pendingJobs (fst w') = pendingJobs (fst v)"
        "conns (snd w') = (\<lambda>a. if unheld (held_by h) (conn_view a v) then None else conns (snd v) a)" by blast
    have "\<not> unheld (held_by h) (conn_view a w')" if "a \<in> dom (conns (snd w'))" for a
      using that unheld_cong[OF w'(5), of a "held_by h"] w'(6) by (auto split: if_splits)
    moreover have "ticked tid h (timer_due (reported r)) w w' = ticked tid h (timer_due (reported r)) w v"
      by (simp only: ticked_def w'(4))
    ultimately show "ends_but False ?Q (reap (held_by h) v)" using v w'(1,2,4) frame_idle[OF w'(3)] by simp
  qed
  then show ?thesis by (simp add: table_round_def)
qed

text \<open>
  A round in which a connection learns that its peer is gone, when the close callback lets go of it and
  none of its tasks is pending.
\<close>

lemma round_aborts:
  assumes w: "table_ok tid w" and c: "conns (snd w) a = Some c" "reportable m c" "own_tasks a (pendingJobs (fst w)) = []"
    and m: "wants_close m \<or> wants_read m \<and> (\<forall>n. io_read (io_of h a) n = ReadOk [])"
    and close: "\<And>v. state (snd v) = kDisconnected \<Longrightarrow> \<exists>v'. on_close (user_of h a) v = Inr v' \<and> state (snd v') = kDisconnected
      \<and> \<not> held_by h (snd v') \<and> pendingJobs (fst v') = pendingJobs (fst v)"
  shows "table_round tid h (Ready [(a + 3, m)]) w = Inl ChannelInUse"
proof -
  let ?r = "Ready [(a + 3, m)]"
  have "deliverable w ?r" using c(1,2) by (simp add: deliverable_def)
  from poll_ok[OF w this] obtain ep chs where
    poll: "Poll ?r (poller (fst w)) (table_chans w) = Inr (ep, chs, [a + 3])" and
    ok: "table_ok tid (table_set_chans chs ((fst w)\<lparr>poller := ep\<rparr>, snd w))" and
    d: "due (table_set_chans chs ((fst w)\<lparr>poller := ep\<rparr>, snd w)) (a + 3, m)" by auto
  let ?w1 = "table_set_chans chs ((fst w)\<lparr>poller := ep\<rparr>, snd w)"
  from d obtain c1 where c1: "conns (snd ?w1) a = Some c1" "revents (chan c1) = m" "reportable m c1" by (auto simp: due_def)
  then have a: "a \<in> dom (conns (snd ?w1))" by blast
  obtain l where l: "conn_view a ?w1 = (l, c1)" using c1(1) by (metis conn_view_simps(4) option.sel prod.collapse)
  then have v: "conn_view a ?w1 = (l, c1)" "pendingJobs l = []"
    using conn_view_simps(1)[of a ?w1] c(3) by (simp_all add: table_set_chans_def)
  have ok1: "conn_ok tid (l, c1)" using table_okD(6)[OF ok a] v(1) by simp
  have live1: "live c1" using c1(3) by (simp add: reportable_def)
  have k: "\<forall>k. k \<in> set (callbacks (chan c1))" using table_okD(7)[OF ok a] c1(1) by (simp add: resting_def)
  have "wants_close (revents (chan c1)) \<or> wants_read (revents (chan c1)) \<and> (\<forall>n. io_read (io_of h a) n = ReadOk [])"
    using m c1(2) by simp
  from framed_client.peer_gone[where held = "held_by h", OF client ok1 live1 v(2) k this close]
  have "Channel_handleEvents tid (table_client tid h) (a + 3) ?w1 = Inl ChannelInUse"
    unfolding conn_event_lift[OF table_okD(1)[OF ok] a] using c1(1) v(1) by (simp add: at_conn_def)
  moreover have "get_chans (table_client tid h) = table_chans" "set_chans (table_client tid h) = table_set_chans"
    by (simp_all add: table_client_def)
  ultimately show ?thesis using poll table_okD(1)[OF w] by (simp add: table_round_def loop_iteration_def)
qed

end

end
