(* ===== verification/Server_Conns.thy ===== *)
theory Server_Conns
  imports Loop_Safe "HOL-Library.Multiset"
begin

text \<open>
  \<open>TcpServer::newConnection\<close> in a loop with other connections: the new object is set up, entered among
  the others, established and handed to the connection callback \<open>cb\<close>. \<open>x\<close> is what a program adds to its
  connections, before the first callback.
\<close>

definition server_newConnection :: "nat \<Rightarrow> bool \<Rightarrow> bool \<Rightarrow> 'x \<Rightarrow> ('x conn_world \<Rightarrow> 'x conn_world result) \<Rightarrow> nat \<Rightarrow> int \<Rightarrow> inetaddr \<Rightarrow> inetaddr
    \<Rightarrow> ('x, 'z) table_world \<Rightarrow> ('x, 'z) table_world result" where
  "server_newConnection tid mcb wcb x cb a connfd loc peer w =
     assertInLoopThread tid (fst w)
       (bindR (TcpConnection_new connfd loc peer) (\<lambda>c.
          let conn = tcpconn.extend c x;
              conn = setMessageCallback mcb conn;
              conn = setWriteCompleteCallback wcb conn;
              conn = setCloseCallBack True conn
          in at_conn a (\<lambda>v. bindR (connectEstablished tid v) cb)
               (fst w, (snd w)\<lparr>objs := insort a (objs (snd w)), conns := (conns (snd w))(a \<mapsto> conn)\<rparr>)))"

text \<open>A socket that is accepted has a descriptor that nobody uses, and its object an address that is free.\<close>

definition fresh :: "nat \<Rightarrow> int \<Rightarrow> ('x, 'z) table_world \<Rightarrow> bool" where
  "fresh a fd w \<longleftrightarrow> a \<notin> dom (conns (snd w)) \<and> fd \<notin> set (map chfd (all_chans (snd w))) \<and> kernel (fst w) fd = None"

subsection \<open>Accepting\<close>

lemma all_chans_insort:
  assumes "a \<notin> set (objs t)"
  shows "mset (all_chans (t\<lparr>objs := insort a (objs t), conns := (conns t)(a \<mapsto> c)\<rparr>)) = mset (chan c # all_chans t)"
proof -
  have "map (\<lambda>b. chan (the (((conns t)(a \<mapsto> c)) b))) (objs t) = map (\<lambda>b. chan (the (conns t b))) (objs t)"
    using assms by (intro map_cong) auto
  then have "image_mset (\<lambda>b. chan (the (((conns t)(a \<mapsto> c)) b))) (mset (objs t)) = mset (map (\<lambda>b. chan (the (conns t b))) (objs t))"
    by (metis mset_map)
  then show ?thesis by (simp add: all_chans_def del: fun_upd_apply) simp
qed

lemma loop_sync_perm: "mset xs = mset ys \<Longrightarrow> loop_sync xs l = loop_sync ys l"
proof -
  assume m: "mset xs = mset ys"
  then have "distinct (map chfd xs) = distinct (map chfd ys)" by (intro mset_eq_imp_distinct_iff) simp
  then show ?thesis using mset_eq_setD[OF m] by (simp add: loop_sync_def)
qed

lemma new_conn:
  "\<exists>b. buf_ok b \<and> content b = [] \<and> TcpConnection_new fd loc peer = Inr
     \<lparr>chan = setCallBack ErrorCb (setCallBack CloseCb (setCallBack WriteCb (setCallBack ReadCb (Channel_new fd)))),
      state = kConnecting, local_addr = loc, peer_addr = peer, inputBuffer = b, outputBuffer = b,
      highWaterMark = 0, messageCb = False, writeCompleteCb = False, highWaterMarkCb = False,
      closeCb = False, wire = [], shutdownWr = False\<rparr>"
proof -
  have "kInitialSize + 8 \<le> vec_max" using vec_max_ge by simp
  from Buffer_new_ok[OF this] show ?thesis by (auto simp: TcpConnection_new_def simp del: kInitialSize_def)
qed

text \<open>The connection object as the server has set it up, before it is established.\<close>

definition fresh_conn :: "buffer \<Rightarrow> bool \<Rightarrow> bool \<Rightarrow> 'x \<Rightarrow> int \<Rightarrow> inetaddr \<Rightarrow> inetaddr \<Rightarrow> 'x tcpconn_scheme" where
  "fresh_conn b mcb wcb x fd loc peer =
     \<lparr>chan = setCallBack ErrorCb (setCallBack CloseCb (setCallBack WriteCb (setCallBack ReadCb (Channel_new fd)))),
      state = kConnecting, local_addr = loc, peer_addr = peer, inputBuffer = b, outputBuffer = b,
      highWaterMark = 0, messageCb = mcb, writeCompleteCb = wcb, highWaterMarkCb = False,
      closeCb = True, wire = [], shutdownWr = False, \<dots> = x\<rparr>"

lemma fresh_conn_simps [simp]:
  "state (fresh_conn b mcb wcb x fd loc peer) = kConnecting" "inputBuffer (fresh_conn b mcb wcb x fd loc peer) = b"
  "outputBuffer (fresh_conn b mcb wcb x fd loc peer) = b" "messageCb (fresh_conn b mcb wcb x fd loc peer) = mcb"
  "closeCb (fresh_conn b mcb wcb x fd loc peer)" "tcpconn.more (fresh_conn b mcb wcb x fd loc peer) = x"
  "chfd (chan (fresh_conn b mcb wcb x fd loc peer)) = fd" "events (chan (fresh_conn b mcb wcb x fd loc peer)) = 0"
  "\<not> polling (chan (fresh_conn b mcb wcb x fd loc peer))" "resting (chan (fresh_conn b mcb wcb x fd loc peer))"
  using cbkind.exhaust by (auto simp: fresh_conn_def setCallBack_def Channel_new_def resting_def)

lemma newConnection_eq:
  "\<exists>b. buf_ok b \<and> content b = [] \<and> (\<forall>w cb. isInLoopThread tid (fst w) \<longrightarrow>
     server_newConnection tid mcb wcb x cb a fd loc peer w =
       at_conn a (\<lambda>v. bindR (connectEstablished tid v) cb)
         (fst w, (snd w)\<lparr>objs := insort a (objs (snd w)), conns := (conns (snd w))(a \<mapsto> fresh_conn b mcb wcb x fd loc peer)\<rparr>))"
  using new_conn[of fd loc peer]
  by (auto simp: server_newConnection_def Let_def setMessageCallback_def setWriteCompleteCallback_def setCloseCallBack_def
      tcpconn.defs fresh_conn_def simp del: fun_upd_apply)

text \<open>
  The connection callback gets a well-formed connection \<open>c\<close> that is up, with nothing queued; what it makes
  of it is in the table when \<open>newConnection\<close> returns, what it queued is behind the tasks already pending,
  and nothing else has changed.
\<close>

lemma server_newConnection_ok:
  fixes w :: "('x, 'z) table_world"
  assumes w: "table_ok tid w" and f: "fresh a fd w"
  shows "\<exists>l c. conn_ok tid (l, c) \<and> state c = kConnected \<and> pendingJobs l = [] \<and> tcpconn.more c = x
     \<and> content (outputBuffer c) = []
     \<and> (\<forall>cb. framed (l, c) (cb (l, c)) \<longrightarrow>
          (case cb (l, c) of Inl e \<Rightarrow> server_newConnection tid True wcb x cb a fd loc peer w = Inl e
           | Inr (l', c') \<Rightarrow> conn_ok tid (l', c') \<longrightarrow>
              (\<exists>w'. server_newConnection tid True wcb x cb a fd loc peer w = Inr w' \<and> table_ok tid w' \<and> table_frame w w'
                 \<and> pendingJobs (fst w') = pendingJobs (fst w) @ map (ConnTask a) (pendingJobs l') \<and> threadId (fst w') = threadId (fst w)
                 \<and> rest_of w' = rest_of w \<and> conns (snd w') a = Some c')))"
proof -
  note ok = table_okD[OF w]
  have fr: "a \<notin> dom (conns (snd w))" "fd \<notin> set (map chfd (all_chans (snd w)))" "kernel (fst w) fd = None"
    using f by (simp_all add: fresh_def)
  from newConnection_eq[of tid True wcb x a fd loc peer] obtain b where b: "buf_ok b" "content b = []" and
    new: "\<And>(w :: ('x, 'z) table_world) cb. isInLoopThread tid (fst w) \<Longrightarrow> server_newConnection tid True wcb x cb a fd loc peer w =
       at_conn a (\<lambda>v. bindR (connectEstablished tid v) cb)
         (fst w, (snd w)\<lparr>objs := insort a (objs (snd w)), conns := (conns (snd w))(a \<mapsto> fresh_conn b True wcb x fd loc peer)\<rparr>)"
    by blast
  let ?c = "fresh_conn b True wcb x fd loc peer"
  let ?w1 = "(fst w, (snd w)\<lparr>objs := insort a (objs (snd w)), conns := (conns (snd w))(a \<mapsto> ?c)\<rparr>)"
  have na: "a \<notin> set (objs (snd w))" using fr(1) ok(4) by simp
  have "loop_sync (chan ?c # all_chans (snd w)) (fst w)"
    using ok(2) fr(2,3) by (simp add: loop_sync_def chan_sync_def)
  then have sync: "loop_sync (all_chans (snd ?w1)) (fst w)"
    unfolding snd_conv by (rule loop_sync_perm[OF all_chans_insort[OF na], THEN iffD2])
  have others: "conn_ok tid (conn_view d ?w1)" if "d \<in> dom (conns (snd ?w1))" "d \<noteq> a" for d
    using that ok(6)[of d] by (simp add: conn_view_def)
  have but: "table_but a tid ?w1"
    using ok(1,3,4,5,7) sync others na by (auto simp: table_but_def distinct_insort set_insort_key)
  have no_tasks: "own_tasks a (pendingJobs (fst w)) = []"
  proof -
    have "t \<notin> set (own_tasks a (pendingJobs (fst w)))" for t using ok(5)[of a t] fr(1) by (auto simp: set_own_tasks)
    then show ?thesis by (metis list.set_intros(1) neq_Nil_conv)
  qed
  obtain l where l: "conn_view a ?w1 = (l, ?c)" "pendingJobs l = []" "poller l = poller (fst w)" "threadId l = threadId (fst w)"
    using no_tasks by (simp add: conn_view_def)
  have "loop_sync [chan ?c] l" using ok(2) fr(3) l(3) by (simp add: loop_sync_def chan_sync_def)
  moreover have "isInLoopThread tid l" using ok(1) l(4) by (simp add: isInLoopThread_def)
  ultimately obtain l1 ch where
    e: "connectEstablished tid (l, ?c) = Inr (l1, ?c\<lparr>state := kConnected, chan := ch\<rparr>)"
    "conn_ok tid (l1, ?c\<lparr>state := kConnected, chan := ch\<rparr>)" "pendingJobs l1 = pendingJobs l"
    using connectEstablished_ok[of tid l ?c] b(1,2) l(2) by (auto simp: isWriting_def)
  let ?c1 = "?c\<lparr>state := kConnected, chan := ch\<rparr>"
  have run: "server_newConnection tid True wcb x cb a fd loc peer w =
      bindR (cb (l1, ?c1)) (\<lambda>v. Inr (conn_put a v ?w1))" for cb
    using new[OF ok(1)] l(1) e(1) by (simp add: at_conn_def)
  have est: "conn_frame (conn_view a ?w1) (l1, ?c1)"
    using framed_connectEstablished[of "conn_view a ?w1" tid] e(1) l(1) by simp
  have thr: "threadId l1 = threadId (fst w)" using conn_okD(1)[OF e(2)] ok(1) by (simp add: isInLoopThread_def)
  have "case cb (l1, ?c1) of Inl err \<Rightarrow> server_newConnection tid True wcb x cb a fd loc peer w = Inl err
     | Inr (l', c') \<Rightarrow> conn_ok tid (l', c') \<longrightarrow>
         (\<exists>w'. server_newConnection tid True wcb x cb a fd loc peer w = Inr w' \<and> table_ok tid w' \<and> table_frame w w'
            \<and> pendingJobs (fst w') = pendingJobs (fst w) @ map (ConnTask a) (pendingJobs l') \<and> threadId (fst w') = threadId (fst w)
            \<and> rest_of w' = rest_of w \<and> conns (snd w') a = Some c')"
    if cb: "framed (l1, ?c1) (cb (l1, ?c1))" for cb
  proof (cases "cb (l1, ?c1)")
    case (Inl err)
    then show ?thesis using run by simp
  next
    case (Inr v)
    obtain l' c' where v: "v = (l', c')" by (cases v)
    have f2: "conn_frame (l1, ?c1) (l', c')" using cb Inr v by simp
    have cf: "conn_frame (conn_view a ?w1) (l', c')" by (rule conn_frame_trans[OF est f2])
    let ?w' = "conn_put a (l', c') ?w1"
    have "resting (chan ?c)" by simp
    then have idle: "resting (chan c')" using cf l(1) by (simp add: conn_frame_def resting_def)
    have "table_ok tid ?w'" if "conn_ok tid (l', c')" by (rule table_ok_put[OF but _ that conn_frame_grows[OF cf]]) (use idle in simp_all)
    moreover have "rest_of ?w' = rest_of w" using rest_put[OF conn_frame_grows[OF cf]] by (simp add: rest_of_def)
    moreover have "table_frame w ?w'" using fr(1) by (auto simp: frame_defs fun_eq_iff)
    moreover have "pendingJobs (fst ?w') = pendingJobs (fst w) @ map (ConnTask a) (pendingJobs l')"
      using no_tasks by (simp add: conn_put_def Let_def)
    moreover have "threadId (fst ?w') = threadId (fst w)" using f2 thr by (simp add: conn_put_def conn_frame_def Let_def)
    ultimately show ?thesis using run Inr v by (simp add: conn_put_def Let_def)
  qed
  then show ?thesis using e(2,3) l(2) b(2) by (intro exI[of _ l1] exI[of _ ?c1]) simp
qed

end
