(* ===== verification/Echo_Loop.thy ===== *)
theory Echo_Loop
  imports Server_Conns Echo_Props
begin

text \<open>
  The echo server with any number of connections on its loop: \<open>newConnection\<close> with the server's
  connection callback when the acceptor delivers a socket, \<open>onTimeout\<close> over the whole map
  \<open>connections_\<close> when its timer fires, and the callbacks of each connection. The map's entries are the
  fields \<open>expiry\<close>; its keys are pointers, so that the order of its iterator is that of the addresses.
\<close>

interpretation echo: framed_client "echo_user tid (bounded io) timeout now" tid for tid io timeout now
proof unfold_locales
  fix w :: echo_world and n
  have exp: "framed v (Inr (expireAfter now i v'))" if "conn_frame v v'" for v v' i
    using that by (cases v') (simp add: expireAfter_def conn_frame_snd)
  show "framed w (on_message (echo_user tid (bounded io) timeout now) w)"
    by (auto simp: echo_user_def echo_onMessage_def growing_def bindR_Inr_iff expireAfter_def
        dest!: send_buffer_frame elim: conn_frame_snd)
  have st: "framed w (bindR r (\<lambda>w1. Inr (expireAfter now i w1)))" if "framed w r" for r i
    using that exp by (cases r) auto
  show "framed w (on_writeComplete (echo_user tid (bounded io) timeout now) w)"
    by (simp add: echo_user_def echo_onWriteComplete_def st framed_startRead)
  show "framed w (on_highWater (echo_user tid (bounded io) timeout now) n w)"
    by (simp add: echo_user_def echo_onHighWaterMark_def st framed_stopRead)
  show "framed w (on_close (echo_user tid (bounded io) timeout now) w)"
    by (simp add: echo_user_def echo_onConnection_def expireAfter_def setHighWaterMarkCallback_def conn_frame_def)
next
  fix w :: echo_world
  assume "conn_ok tid w" "live (snd w)"
  from echo_onMessage_ok[of tid "fst w" "snd w" "bounded io" timeout now] this bounded_ok(2)
  have "ends_in (\<lambda>w'. stays_on w w') (echo_onMessage tid (bounded io) timeout now w)" by (auto elim: ends_in_mono)
  then show "growing (\<lambda>_ w'. live (snd w')) w (on_message (echo_user tid (bounded io) timeout now) w)"
    using \<open>live (snd w)\<close> by (auto simp: echo_user_def growing_def stays_on_def)
qed

type_synonym 'z echo_table_world = "loop_task eventloop \<times> (\<lparr>expiry :: timestamp option\<rparr>, 'z) table_scheme"

definition echo_newConnection :: "nat \<Rightarrow> int \<Rightarrow> timestamp \<Rightarrow> nat \<Rightarrow> int \<Rightarrow> inetaddr \<Rightarrow> inetaddr
    \<Rightarrow> 'z echo_table_world \<Rightarrow> 'z echo_table_world result" where
  "echo_newConnection tid timeout now = server_newConnection tid True True \<lparr>expiry = None\<rparr> (echo_onConnection timeout now)"

definition echo_sweep :: "nat \<Rightarrow> (nat \<Rightarrow> timestamp) \<Rightarrow> 'z echo_table_world \<Rightarrow> 'z echo_table_world result" where
  "echo_sweep tid clock w = foldR (\<lambda>a. at_conn a (echo_onTimeout tid (clock a))) (objs (snd w)) w"

text \<open>
  The keys of the map are shared pointers, and what \<open>onTimeout\<close> erases from it may be the last one to a
  connection that is closed.
\<close>

definition in_map :: "echo_conn \<Rightarrow> bool" where
  "in_map c \<longleftrightarrow> expiry c \<noteq> None"

definition echo_idle_check :: "nat \<Rightarrow> (nat \<Rightarrow> timestamp) \<Rightarrow> 'z echo_table_world \<Rightarrow> 'z echo_table_world result" where
  "echo_idle_check tid clock w = bindR (echo_sweep tid clock w) (reap in_map)"

subsection \<open>The timeout over the whole map\<close>

text \<open>What \<open>onTimeout\<close> does to a connection, and whether it closes it.\<close>

definition timed_out :: "timestamp \<Rightarrow> echo_conn \<Rightarrow> bool" where
  "timed_out now c \<longleftrightarrow> (\<exists>t. expiry c = Some t \<and> t \<le> now)"

definition swept :: "timestamp \<Rightarrow> echo_conn \<Rightarrow> echo_conn" where
  "swept now c = (if timed_out now c
     then (if state c = kDisconnected then c\<lparr>expiry := None\<rparr> else c\<lparr>state := kDisconnecting, expiry := None\<rparr>) else c)"

lemma echo_onTimeout_exact:
  "echo_onTimeout tid now (l, c) = Inr (if timed_out now c \<and> state c \<noteq> kDisconnected
     then queueInLoop tid ForceCloseInLoop l else l, swept now c)"
  by (auto simp: echo_onTimeout_def timed_out_def swept_def forceClose_def forceClose_exchange_def
      stateAtomicGetAndSet_def conn_queue_def split: option.split)

lemma framed_onTimeout: "framed w (echo_onTimeout tid now w)"
proof (cases w)
  case (Pair l c)
  have "chan (swept now c) = chan c" by (simp add: swept_def)
  then show ?thesis by (auto simp: Pair echo_onTimeout_exact conn_frame_def)
qed

definition closes :: "(nat \<Rightarrow> timestamp) \<Rightarrow> 'z echo_table_world \<Rightarrow> nat \<Rightarrow> bool" where
  "closes clock w a \<longleftrightarrow> (\<exists>c. conns (snd w) a = Some c \<and> timed_out (clock a) c \<and> state c \<noteq> kDisconnected)"

lemma sweep_one:
  assumes "a \<in> dom (conns (snd w))"
  shows "\<exists>w'. at_conn a (echo_onTimeout tid (clock a)) w = Inr w' \<and> objs (snd w') = objs (snd w)
     \<and> pendingJobs (fst w') = pendingJobs (fst w) @ (if closes clock w a then [ConnTask a ForceCloseInLoop] else [])
     \<and> conns (snd w') = (conns (snd w))(a := map_option (swept (clock a)) (conns (snd w) a))
     \<and> rest_of w' = rest_of w \<and> loop_marks w' = loop_marks w"
proof -
  obtain c where c: "conns (snd w) a = Some c" using assms by blast
  obtain l where v: "conn_view a w = (l, c)" "pendingJobs l = own_tasks a (pendingJobs (fst w))"
    using c by (simp add: conn_view_def)
  have "framed (conn_view a w) (echo_onTimeout tid (clock a) (conn_view a w))" by (rule framed_onTimeout)
  then have f: "conn_grows (conn_view a w) u" if "echo_onTimeout tid (clock a) (conn_view a w) = Inr u" for u
    using that by (simp add: conn_frame_grows)
  obtain u where u: "echo_onTimeout tid (clock a) (conn_view a w) = Inr u" by (simp add: v echo_onTimeout_exact)
  have "at_conn a (echo_onTimeout tid (clock a)) w = Inr (conn_put a u w)" using c u by (simp add: at_conn_def)
  then show ?thesis using c v u rest_put[OF f[OF u]]
    by (auto simp: echo_onTimeout_exact closes_def conn_put_def Let_def loop_marks_def loop_chan_def fun_eq_iff)
qed

lemma sweep_exact:
  assumes "distinct as" "set as \<subseteq> dom (conns (snd w))"
  shows "\<exists>w'. foldR (\<lambda>a. at_conn a (echo_onTimeout tid (clock a))) as w = Inr w' \<and> objs (snd w') = objs (snd w)
     \<and> pendingJobs (fst w') = pendingJobs (fst w) @ map (\<lambda>a. ConnTask a ForceCloseInLoop) (filter (closes clock w) as)
     \<and> conns (snd w') = (\<lambda>a. if a \<in> set as then map_option (swept (clock a)) (conns (snd w) a) else conns (snd w) a)
     \<and> rest_of w' = rest_of w \<and> loop_marks w' = loop_marks w"
  using assms
proof (induction as arbitrary: w)
  case Nil
  then show ?case by simp
next
  case (Cons a as)
  from sweep_one[of a w tid clock] Cons.prems(2) obtain w1 where
    w1: "at_conn a (echo_onTimeout tid (clock a)) w = Inr w1" "objs (snd w1) = objs (snd w)"
    "pendingJobs (fst w1) = pendingJobs (fst w) @ (if closes clock w a then [ConnTask a ForceCloseInLoop] else [])"
    "conns (snd w1) = (conns (snd w))(a := map_option (swept (clock a)) (conns (snd w) a))"
    "rest_of w1 = rest_of w" "loop_marks w1 = loop_marks w" by auto
  have "set as \<subseteq> dom (conns (snd w1))" using Cons.prems w1(4) by auto
  from Cons.IH[OF _ this] Cons.prems(1) obtain w' where
    w': "foldR (\<lambda>a. at_conn a (echo_onTimeout tid (clock a))) as w1 = Inr w'" "objs (snd w') = objs (snd w1)"
    "pendingJobs (fst w') = pendingJobs (fst w1) @ map (\<lambda>a. ConnTask a ForceCloseInLoop) (filter (closes clock w1) as)"
    "conns (snd w') = (\<lambda>a. if a \<in> set as then map_option (swept (clock a)) (conns (snd w1) a) else conns (snd w1) a)"
    "rest_of w' = rest_of w1" "loop_marks w' = loop_marks w1" by auto
  have "filter (closes clock w1) as = filter (closes clock w) as"
    using Cons.prems(1) w1(4) by (intro filter_cong) (auto simp: closes_def)
  moreover have "conns (snd w') = (\<lambda>b. if b \<in> set (a # as) then map_option (swept (clock b)) (conns (snd w) b) else conns (snd w) b)"
    using w'(4) w1(4) Cons.prems(1) by (auto simp: fun_eq_iff)
  ultimately show ?case using w1(1-3,5,6) w'(1-3,5,6) by simp
qed

lemma sweep_keeps:
  assumes "table_ok tid w"
  shows "ends_in (\<lambda>w'. table_ok tid w' \<and> table_frame w w' \<and> rest_of w' = rest_of w) (echo_sweep tid clock w)"
proof -
  note ok = table_okD[OF assms]
  let ?I = "\<lambda>v. table_ok tid v \<and> dom (conns (snd v)) = dom (conns (snd w))"
  have step: "ends_in ?I (at_conn a (echo_onTimeout tid (clock a)) v)" if "a \<in> set (objs (snd w))" "?I v" for a v
  proof -
    have a: "a \<in> dom (conns (snd v))" using that ok(4) by simp
    obtain l c where lc: "conn_view a v = (l, c)" by (cases "conn_view a v")
    have "conn_ok tid (l, c)" using table_okD(6)[OF conjunct1[OF that(2)] a] by (simp add: lc)
    from echo_onTimeout_ok[OF this, of "clock a"] have "ends_in (conn_ok tid) (echo_onTimeout tid (clock a) (conn_view a v))"
      by (auto simp: lc)
    from at_conn_ok[where f = "echo_onTimeout tid (clock a)", OF conjunct1[OF that(2)] a this framed_onTimeout]
    have keep: "ends_in (\<lambda>w'. table_ok tid w' \<and> (\<exists>u. echo_onTimeout tid (clock a) (conn_view a v) = Inr u \<and> w' = conn_put a u v))
      (at_conn a (echo_onTimeout tid (clock a)) v)" .
    have "dom (conns (snd (conn_put a u v))) = dom (conns (snd w))" for u
      using that(2) a by (simp add: insert_absorb)
    then show ?thesis by (intro ends_in_mono[OF keep]) blast
  qed
  have I: "ends_in ?I (echo_sweep tid clock w)"
    unfolding echo_sweep_def by (rule ends_in_foldR[where P = ?I, OF step]) (use assms in simp_all)
  have sub: "set (objs (snd w)) \<subseteq> dom (conns (snd w))" using ok(4) by simp
  from sweep_exact[OF ok(3) sub, of tid clock] obtain w' where w': "echo_sweep tid clock w = Inr w'"
    "conns (snd w') = (\<lambda>a. if a \<in> set (objs (snd w)) then map_option (swept (clock a)) (conns (snd w) a) else conns (snd w) a)"
    "rest_of w' = rest_of w" "loop_marks w' = loop_marks w"
    by (auto simp: echo_sweep_def)
  have "state c \<noteq> kConnecting" if "conns (snd w) a = Some c" for a c
    using ok(6)[of a] that by (auto simp: conn_ok_def)
  moreover have "state c \<noteq> kConnecting \<Longrightarrow> live (swept now c) = live c" for now c
    by (cases "state c") (simp_all add: swept_def)
  ultimately have "live (swept now c) = live c" if "conns (snd w) a = Some c" for now a c
    using that by blast
  then have "table_frame w w'"
    using w'(2,4) ok(4) by (fastforce simp: table_frame_def conns_stay_def swept_def)
  then show ?thesis using I w'(1,3) by simp
qed

lemma idle_check_ok:
  assumes w: "table_ok tid w"
  shows "\<exists>w'. echo_idle_check tid clock w = Inr w' \<and> table_ok tid w' \<and> table_frame w w' \<and> rest_of w' = rest_of w
     \<and> pendingJobs (fst w') = pendingJobs (fst w) @ map (\<lambda>a. ConnTask a ForceCloseInLoop) (filter (closes clock w) (objs (snd w)))
     \<and> (\<forall>a. conns (snd w) a = None \<longrightarrow> conns (snd w') a = None)
     \<and> (\<forall>a c. conns (snd w) a = Some c \<longrightarrow> conns (snd w') a =
          (if state c = kDisconnected \<and> (timed_out (clock a) c \<or> \<not> in_map c) \<and> own_tasks a (pendingJobs (fst w)) = [] then None
           else Some (swept (clock a) c)))"
proof -
  note ok = table_okD[OF w]
  have sub: "set (objs (snd w)) \<subseteq> dom (conns (snd w))" using ok(4) by simp
  from sweep_exact[OF ok(3) sub, of tid clock] obtain w1 where
    w1: "echo_sweep tid clock w = Inr w1"
      "pendingJobs (fst w1) = pendingJobs (fst w) @ map (\<lambda>a. ConnTask a ForceCloseInLoop) (filter (closes clock w) (objs (snd w)))"
      "conns (snd w1) = (\<lambda>a. if a \<in> set (objs (snd w)) then map_option (swept (clock a)) (conns (snd w) a) else conns (snd w) a)"
    by (auto simp: echo_sweep_def)
  have k: "table_ok tid w1" "table_frame w w1" "rest_of w1 = rest_of w" using sweep_keeps[OF w, of clock] w1(1) by simp_all
  from reap_ok[OF k(1), of in_map] obtain w' where
    w': "reap in_map w1 = Inr w'" "table_ok tid w'" "table_frame w1 w'" "rest_of w' = rest_of w1" "pendingJobs (fst w') = pendingJobs (fst w1)"
      "conns (snd w') = (\<lambda>a. if unheld in_map (conn_view a w1) then None else conns (snd w1) a)" by blast
  have mine: "own_tasks a (map (\<lambda>a. ConnTask a ForceCloseInLoop) as) = [] \<longleftrightarrow> a \<notin> set as" for a as
    by (induction as) auto
  have "conns (snd w') a = (if state c = kDisconnected \<and> (timed_out (clock a) c \<or> \<not> in_map c) \<and> own_tasks a (pendingJobs (fst w)) = [] then None
           else Some (swept (clock a) c))" if c: "conns (snd w) a = Some c" for a c
  proof -
    have c1: "conns (snd w1) a = Some (swept (clock a) c)" using c w1(3) ok(4) by auto
    have "unheld in_map (conn_view a w1) \<longleftrightarrow> state c = kDisconnected \<and> (timed_out (clock a) c \<or> \<not> in_map c) \<and> own_tasks a (pendingJobs (fst w)) = []"
      using c1 w1(2) c mine[of a] by (auto simp: unheld_def swept_def in_map_def closes_def)
    then show ?thesis using w'(6) c1 by simp
  qed
  moreover have "conns (snd w') a = None" if "conns (snd w) a = None" for a using that w'(6) w1(3) by simp
  ultimately show ?thesis using w1(1,2) w'(1-5) table_frame_trans[OF k(2) w'(3)] k(3) by (simp add: echo_idle_check_def)
qed

subsection \<open>Accepting\<close>

lemma framed_onConnection: "framed w (echo_onConnection timeout now w)"
  by (simp add: echo_onConnection_def expireAfter_def setHighWaterMarkCallback_def conn_frame_def)

lemma echo_onConnection_up:
  assumes "conn_ok tid (l, c)" "state c = kConnected"
  shows "\<exists>c'. echo_onConnection timeout now (l, c) = Inr (l, c') \<and> conn_ok tid (l, c') \<and> state c' = kConnected
     \<and> expiry c' = Some (now + timeout)"
  using assms by (simp add: echo_onConnection_def TcpConnection_connected_def setHighWaterMarkCallback_def expireAfter_def
      nowAfter_def conn_ok_def)

lemma echo_newConnection_ok:
  assumes w: "table_ok tid w" and f: "fresh a fd w"
  shows "\<exists>w'. echo_newConnection tid timeout now a fd loc peer w = Inr w' \<and> table_ok tid w'
     \<and> table_frame w w' \<and> pendingJobs (fst w') = pendingJobs (fst w)
     \<and> threadId (fst w') = threadId (fst w) \<and> rest_of w' = rest_of w
     \<and> (\<exists>c. conns (snd w') a = Some c \<and> state c = kConnected \<and> expiry c = Some (now + timeout))"
proof -
  from server_newConnection_ok[OF w f, of "\<lparr>expiry = None\<rparr>" True loc peer] obtain l c where
    c: "conn_ok tid (l, c)" "state c = kConnected" "pendingJobs l = []" and
    new: "\<And>cb. framed (l, c) (cb (l, c)) \<Longrightarrow> (case cb (l, c) of Inl e \<Rightarrow> server_newConnection tid True True \<lparr>expiry = None\<rparr> cb a fd loc peer w = Inl e
           | Inr (l', c') \<Rightarrow> conn_ok tid (l', c') \<longrightarrow>
              (\<exists>w'. server_newConnection tid True True \<lparr>expiry = None\<rparr> cb a fd loc peer w = Inr w' \<and> table_ok tid w' \<and> table_frame w w'
                 \<and> pendingJobs (fst w') = pendingJobs (fst w) @ map (ConnTask a) (pendingJobs l') \<and> threadId (fst w') = threadId (fst w)
                 \<and> rest_of w' = rest_of w \<and> conns (snd w') a = Some c'))" by blast
  from echo_onConnection_up[OF c(1,2), of timeout now] obtain c' where
    "echo_onConnection timeout now (l, c) = Inr (l, c')" "conn_ok tid (l, c')" "state c' = kConnected" "expiry c' = Some (now + timeout)" by blast
  with new[of "echo_onConnection timeout now", OF framed_onConnection] c(3) show ?thesis
    by (auto simp: echo_newConnection_def)
qed

end
