(* ===== verification/Timer_Threads.thy ===== *)
theory Timer_Threads
  imports Timer_Callbacks
begin

text \<open>
  Timers set and cancelled by other threads than the loop's, whose insertions and cancellations are
  tasks of the loop; and the destruction of the queue.
\<close>

subsection \<open>The destructor\<close>

definition free_entry :: "timestamp \<times> nat \<Rightarrow> ('cb, 'z) timerqueue_scheme \<Rightarrow> ('cb, 'z) timerqueue_scheme result" where
  "free_entry e q = deref q (snd e) (\<lambda>_. Inr (q\<lparr>heap := (heap q)(snd e := None)\<rparr>))"

lemma free_entries:
  assumes "distinct (map snd es)" "\<forall>e \<in> set es. heap q (snd e) \<noteq> None"
  shows "\<exists>q'. foldR free_entry es q = Inr q' \<and> heap q' = heap q |` (- snd ` set es)"
  using assms
proof (induction es arbitrary: q)
  case Nil
  then show ?case by simp
next
  case (Cons e es)
  let ?q = "q\<lparr>heap := (heap q)(snd e := None)\<rparr>"
  obtain t where t: "heap q (snd e) = Some t" using Cons.prems(2) by auto
  then have e: "free_entry e q = Inr ?q" by (simp add: free_entry_def deref_def)
  have d: "distinct (map snd es)" "snd e \<notin> snd ` set es" using Cons.prems(1) by simp_all
  have "\<forall>x \<in> set es. heap ?q (snd x) \<noteq> None"
  proof
    fix x assume x: "x \<in> set es"
    then have "snd x \<in> snd ` set es" by (rule imageI)
    then have "snd x \<noteq> snd e" using d(2) by metis
    then show "heap ?q (snd x) \<noteq> None" using Cons.prems(2) x by simp
  qed
  from Cons.IH[OF d(1) this] obtain q' where q': "foldR free_entry es ?q = Inr q'" "heap q' = heap ?q |` (- snd ` set es)" by blast
  have "heap ?q |` (- snd ` set es) = heap q |` (- snd ` set (e # es))" by (rule ext) (simp add: restrict_map_def)
  then show ?case using e q' by simp
qed

lemma TimerQueue_delete_ok:
  assumes "tq_ok good {} q"
  shows "\<exists>q'. TimerQueue_delete q = Inr q' \<and> heap q' = Map.empty"
proof -
  note ok = tq_okD[OF assms]
  have "\<forall>e \<in> set (timers q). heap q (snd e) \<noteq> None" using ok(4) by auto
  from free_entries[OF ok(2) this] obtain q' where
    q': "foldR free_entry (timers q) q = Inr q'" "heap q' = heap q |` (- snd ` set (timers q))" by blast
  have "heap q |` (- snd ` set (timers q)) = Map.empty"
    using ok(4) by (auto simp: fun_eq_iff restrict_map_def)
  then show ?thesis using q' by (simp add: TimerQueue_delete_def free_entry_def[abs_def])
qed

lemma free_entries_dangling:
  assumes "e \<in> set es" "heap q (snd e) = None"
  shows "foldR free_entry es q = Inl UndefinedBehaviour"
  using assms
proof (induction es arbitrary: q)
  case (Cons x es)
  show ?case
  proof (cases "heap q (snd x)")
    case (Some t)
    then have "e \<in> set es" using Cons.prems by auto
    then have "foldR free_entry es (q\<lparr>heap := (heap q)(snd x := None)\<rparr>) = Inl UndefinedBehaviour"
      using Cons.prems(2) by (intro Cons.IH) simp_all
    moreover have "free_entry x q = Inr (q\<lparr>heap := (heap q)(snd x := None)\<rparr>)" using Some by (simp add: free_entry_def deref_def)
    ultimately show ?thesis by simp
  qed (simp add: free_entry_def deref_def)
qed simp

lemma TimerQueue_delete_dangling:
  "(ts, p) \<in> set (timers q) \<Longrightarrow> heap q p = None \<Longrightarrow> TimerQueue_delete q = Inl UndefinedBehaviour"
  using free_entries_dangling[of "(ts, p)" "timers q" q] by (simp add: TimerQueue_delete_def free_entry_def[abs_def])

lemma handleRead_dangling:
  assumes "isInLoopThread tid l" "(ts, p) \<in> set (timers q)" "heap q p = None" "ts \<le> now" "\<forall>e \<in> set (timers q). (ts, p) \<le> e"
    and "sorted_wrt (<) (timers q)"
  shows "TimerQueue_handleRead fire tid now (l, q) = Inl UndefinedBehaviour"
proof -
  obtain es where es: "timers q = (ts, p) # es"
  proof (cases "timers q")
    case (Cons e es)
    then have "\<not> e < (ts, p)" using assms(5) by (simp add: not_less)
    then have "e = (ts, p)" using assms(2,6) Cons by (auto dest: order_less_imp_le)
    then show ?thesis using Cons that by simp
  qed (use assms(2) in simp)
  then have "set_below (now + 1, 0) (timers q) = (ts, p) # set_below (now + 1, 0) es"
    using assms(4) by (simp add: set_below_def)
  then show ?thesis using assms(1,3)
    by (simp add: TimerQueue_handleRead_def getExpired_def timerfdRead_def handle_expired_def deref_def Let_def)
qed

subsection \<open>Timers of other threads\<close>

text \<open>A live timer that waits for its insertion.\<close>

lemma tq_ok_new_timer:
  assumes "tq_ok (\<lambda>_. True) {} q" "heap q p = None"
  shows "tq_ok (\<lambda>_. True) {p} (q\<lparr>heap := (heap q)(p \<mapsto> Timer_new cb ts interval)\<rparr>)"
proof -
  note ok = tq_okD[OF assms(1)]
  have p: "p \<notin> snd ` set (timers q)" using ok(4) assms(2) by auto
  have "dom ((heap q)(p \<mapsto> Timer_new cb ts interval)) = insert p (dom (heap q))" by simp
  moreover have "snd e \<noteq> p" if "e \<in> set (timers q)" for e using p that by auto
  ultimately show ?thesis using ok(1-3) ok(4) ok(6-8) p by (auto simp: tq_ok_def Timer_new_def)
qed

text \<open>
  C11. Timers from another thread. \<open>runAt\<close> returns the address of the timer at once and leaves its
  insertion to a task of the loop. When that thread cancels the timer, the two tasks run in order and
  the queue is as it was before. But when the loop's thread cancels it before the insertion has run,
  the timer is freed at once and the insertion then puts the freed address into the queue: it is used
  when it expires, and by the destructor of the queue in any case.
\<close>

theorem timer_of_another_thread:
  fixes l :: "tq_task eventloop"
  assumes "alloc_ok alloc" "tq_ok (\<lambda>_. True) {} q" "tid \<noteq> threadId l" "pendingJobs l = []"
    and "runAt id alloc tid ts cb (l, q) = Inr (p, w)"
  shows "(\<exists>w1 l2 q2. EventLoop_cancelTimer id tid p w = Inr w1 \<and> doPendingJobs (threadId l) run_tq_task w1 = Inr (l2, q2)
       \<and> set (timers q2) = set (timers q) \<and> heap q2 = heap q \<and> tq_ok (\<lambda>_. True) {} q2)
     \<and> (\<exists>w1 l2 q2. EventLoop_cancelTimer id (threadId l) p w = Inr w1 \<and> doPendingJobs (threadId l) run_tq_task w1 = Inr (l2, q2)
       \<and> (ts, p) \<in> set (timers q2) \<and> heap q2 p = None \<and> TimerQueue_delete q2 = Inl UndefinedBehaviour
       \<and> (\<forall>fire now. ts \<le> now \<and> (\<forall>e \<in> set (timers q). (ts, p) \<le> e)
            \<longrightarrow> TimerQueue_handleRead fire (threadId l) now (l2, q2) = Inl UndefinedBehaviour))"
proof -
  let ?t = "Timer_new cb ts 0" and ?own = "threadId l"
  let ?q = "q\<lparr>heap := (heap q)(p \<mapsto> ?t)\<rparr>" and ?l = "queueInLoop tid (InsertTimer ts p) l"
  have out: "\<not> isInLoopThread tid l" using assms(3) by (simp add: isInLoopThread_def)
  have p: "p = alloc (heap q)" "w = (?l, ?q)" using assms(5) out by (auto simp: runAt_def addTimerTask_def runInLoop_def Let_def)
  have fresh: "heap q p = None" using assms(1) tq_ok_finite[OF assms(2)] p(1) by (auto simp: alloc_ok_def)
  have ok: "tq_ok (\<lambda>_. True) {p} ?q" by (rule tq_ok_new_timer[OF assms(2) fresh])
  have l: "threadId ?l = ?own" "pendingJobs ?l = [InsertTimer ts p]"
    using assms(4) by (simp_all add: queueInLoop_def EventLoop_wakeup_def Let_def)
  have notin: "p \<notin> snd ` set (timers q)" using tq_okD(4)[OF assms(2)] fresh by auto
  show ?thesis
  proof
    let ?l1 = "queueInLoop tid (CancelTimer p) ?l"
    have c: "EventLoop_cancelTimer id tid p w = Inr (?l1, ?q)"
      using l(1) assms(3) by (simp add: EventLoop_cancelTimer_def TimerQueue_cancelTimer_def runInLoop_def isInLoopThread_def p(2))
    have l1: "threadId ?l1 = ?own" "pendingJobs ?l1 = [InsertTimer ts p, CancelTimer p]"
      using l by (simp_all add: queueInLoop_def EventLoop_wakeup_def Let_def)
    from insert_in_loop_ok[of "\<lambda>_. True" p "{}" ?q ?t ts] ok obtain q1 where
      q1: "insert_in_loop ts p ?q = Inr q1" "tq_ok (\<lambda>_. True) {} q1" "heap q1 = heap ?q" "set (timers q1) = insert (ts, p) (set (timers q))"
      by (auto simp: Timer_new_def)
    from cancel_in_loop_ok[OF q1(2), of p ?t] q1(3) obtain q2 where
      q2: "cancel_in_loop p q1 = Inr q2" "tq_ok (\<lambda>_. True) {} q2" "heap q2 = (heap q1)(p := None)"
        "set (timers q2) = {e \<in> set (timers q1). snd e \<noteq> p}" by auto
    have "set (timers q2) = set (timers q)" using q1(4) q2(4) notin by auto
    moreover have "heap q2 = heap q" using q1(3) q2(3) fresh by (simp add: fun_upd_idem)
    moreover have "\<exists>l2. doPendingJobs ?own run_tq_task (?l1, ?q) = Inr (l2, q2)"
      using l1 q1(1) q2(1) by (simp add: doPendingJobs_def isInLoopThread_def Let_def)
    ultimately show "\<exists>w1 l2 q2. EventLoop_cancelTimer id tid p w = Inr w1 \<and> doPendingJobs ?own run_tq_task w1 = Inr (l2, q2)
       \<and> set (timers q2) = set (timers q) \<and> heap q2 = heap q \<and> tq_ok (\<lambda>_. True) {} q2"
      using c q2(2) by blast
  next
    let ?q1 = "?q\<lparr>timers := set_erase (ts, p) (timers q), heap := heap q\<rparr>"
    have c: "EventLoop_cancelTimer id ?own p w = Inr (?l, ?q1)"
      using l(1) fresh by (simp add: EventLoop_cancelTimer_def TimerQueue_cancelTimer_def runInLoop_def isInLoopThread_def p(2)
          cancel_in_loop_def deref_def Timer_cancel_def Timer_new_def fun_upd_idem)
    have "(ts, p) \<notin> set (timers q)" using notin by force
    then have e: "(ts, p) \<notin> set (timers ?q1)" "set (timers ?q1) = set (timers q)" by simp_all
    have s: "sorted_wrt (<) (timers ?q1)" using tq_okD(1)[OF assms(2)] by (simp add: sorted_set_erase)
    obtain q2 where q2: "insert_in_loop ts p ?q1 = Inr q2" "timers q2 = set_insert (ts, p) (timers ?q1)" "heap q2 = heap q"
      using e(1) by (simp add: insert_in_loop_def timerfdSet_def Let_def)
    have mem: "set (timers q2) = insert (ts, p) (set (timers q))" using q2(2) e(2) by simp
    let ?l2 = "?l\<lparr>pendingJobs := [], doingPendingJobs := False\<rparr>"
    have run: "doPendingJobs ?own run_tq_task (?l, ?q1) = Inr (?l2, q2)"
      using l q2(1) by (simp add: doPendingJobs_def isInLoopThread_def Let_def)
    have thr: "isInLoopThread ?own ?l2" using l(1) by (simp add: isInLoopThread_def)
    have none: "heap q2 p = None" using q2(3) fresh by simp
    have bad: "TimerQueue_handleRead fire ?own now (?l2, q2) = Inl UndefinedBehaviour"
      if "ts \<le> now" "\<forall>e \<in> set (timers q). (ts, p) \<le> e" for fire now
      by (rule handleRead_dangling[OF thr _ none that(1)]) (use mem that(2) q2(2) s sorted_set_insert in auto)
    show "\<exists>w1 l2 q2. EventLoop_cancelTimer id ?own p w = Inr w1 \<and> doPendingJobs ?own run_tq_task w1 = Inr (l2, q2)
       \<and> (ts, p) \<in> set (timers q2) \<and> heap q2 p = None \<and> TimerQueue_delete q2 = Inl UndefinedBehaviour
       \<and> (\<forall>fire now. ts \<le> now \<and> (\<forall>e \<in> set (timers q). (ts, p) \<le> e)
            \<longrightarrow> TimerQueue_handleRead fire ?own now (l2, q2) = Inl UndefinedBehaviour)"
      using c run mem none bad TimerQueue_delete_dangling[of ts p q2]
      by (intro exI[of _ "(?l, ?q1)"] exI[of _ ?l2] exI[of _ q2]) simp
  qed
qed

definition quiet_loop :: "'task eventloop" where
  "quiet_loop = \<lparr>pendingJobs = [], doingPendingJobs = False, quitting = False, threadId = 1, eventfd = 0, poller = Epoller_new\<rparr>"

theorem timer_of_another_thread_witness:
  "\<exists>p w w1 l2 q2. runAt id first_fit 2 4 None (quiet_loop, two_timers) = Inr (p, w)
     \<and> EventLoop_cancelTimer id 1 p w = Inr w1 \<and> doPendingJobs 1 run_tq_task w1 = Inr (l2, q2)
     \<and> (\<forall>fire. TimerQueue_handleRead fire 1 6 (l2, q2) = Inl UndefinedBehaviour)"
proof -
  have ok: "tq_ok (\<lambda>_. True) {} two_timers" by (rule tq_ok_mono[OF two_timers_ok]) simp
  have l: "(2 :: nat) \<noteq> threadId (quiet_loop :: tq_task eventloop)" "pendingJobs (quiet_loop :: tq_task eventloop) = []"
    "threadId (quiet_loop :: tq_task eventloop) = 1" by (simp_all add: quiet_loop_def)
  obtain p w where w: "runAt id first_fit 2 4 None (quiet_loop, two_timers) = Inr (p, w)"
    by (simp add: runAt_def addTimerTask_def runInLoop_def isInLoopThread_def quiet_loop_def Let_def)
  have "\<forall>e \<in> set (timers two_timers). (4, p) \<le> e" by (simp add: two_timers_def less_eq_prod_def)
  with timer_of_another_thread[OF first_fit_ok ok l(1,2) w] w show ?thesis unfolding l(3) by fastforce
qed

end
