(* ===== verification/Server_Setup.thy ===== *)
theory Server_Setup
  imports Server_Conns Tcp_Server
begin

text \<open>
  How a server gets its loop and its socket, for the main programs and for the threads of a
  \<open>TcpServerThreaded\<close>, and what the outside decides while it runs.
\<close>

text \<open>
  The server that \<open>startInLoop()\<close> makes for the base loop, and \<open>runInThread()\<close> for that of a further
  thread: the acceptor from the results of \<open>socket\<close>, \<open>setsockopt\<close>, \<open>bind\<close> and \<open>listen\<close>, and the
  callbacks of \<open>TcpServerThreaded\<close>, of which the message callback is always set (the constructor sets
  a default) and the write-complete callback only when \<open>wcb\<close>. The threads are in \<open>Server_Threads\<close>.
\<close>

record sys_results =
  sys_timerfd :: int
  sys_eventfd :: int
  sys_socket :: int
  sys_reuseaddr :: int
  sys_reuseport :: int
  sys_bind :: int
  sys_listen :: int

definition startInLoop :: "bool \<Rightarrow> nat \<Rightarrow> sys_results \<Rightarrow> inetaddr \<Rightarrow> 'task eventloop \<Rightarrow> ('task eventloop \<times> tcpserver) result" where
  "startInLoop wcb tid sys loc l =
     bindR (TcpServer_new (Acceptor_new (sys_socket sys) (sys_reuseaddr sys) (sys_reuseport sys) (sys_bind sys) loc)) (\<lambda>srv.
       let srv = TcpServer_setMessageCallback True srv;
           srv = TcpServer_setWriteCompleteCallback wcb srv
       in TcpServer_start tid (sys_listen sys) (l, srv))"

text \<open>
  What the outside decides in a round: the results of \<open>readv\<close> and \<open>write\<close> and the readings of the clock,
  and the socket that \<open>accept4\<close> returns with the bytes of its address and what the stack held, and the
  address of the new connection. What \<open>handleRead\<close> of the acceptor does when \<open>accept4\<close> fails is in
  \<open>Tcp_Server\<close>.
\<close>

record round_env =
  env_io :: "nat \<Rightarrow> conn_io"
  env_clock :: "nat \<Rightarrow> timestamp"
  env_now :: timestamp
  env_start :: timestamp
  env_accept :: "(nat \<times> int \<times> byte list \<times> byte list) option"

subsection \<open>What the set-up makes\<close>

text \<open>The system calls succeed, with descriptors of their own.\<close>

definition sys_ok :: "sys_results \<Rightarrow> bool" where
  "sys_ok sys \<longleftrightarrow> distinct [sys_timerfd sys, sys_eventfd sys, sys_socket sys]
     \<and> -1 \<notin> {sys_timerfd sys, sys_eventfd sys, sys_socket sys, sys_reuseaddr sys, sys_reuseport sys, sys_bind sys, sys_listen sys}"

definition reading_chan :: "int \<Rightarrow> channel" where
  "reading_chan fd = (setCallBack ReadCb (Channel_new fd))\<lparr>events := new_events EnableRead 0, polling := True\<rparr>"

definition main_loop :: "nat \<Rightarrow> int list \<Rightarrow> 'task eventloop" where
  "main_loop tid fds = \<lparr>pendingJobs = [], doingPendingJobs = False, quitting = False, threadId = tid, eventfd = 0,
     poller = Epoller_new\<lparr>ctl_log := map (\<lambda>fd. \<lparr>ctl_op = EPOLL_CTL_ADD, ctl_fd = fd, ctl_events = new_events EnableRead 0\<rparr>) fds\<rparr>\<rparr>"

lemma main_loop_in [simp]: "isInLoopThread tid (main_loop tid fds)"
  by (simp add: isInLoopThread_def main_loop_def)

lemma sys_okD:
  assumes "sys_ok sys"
  shows "sys_timerfd sys \<noteq> -1" "sys_eventfd sys \<noteq> -1" "sys_socket sys \<noteq> -1" "sys_reuseaddr sys \<noteq> -1"
    "sys_reuseport sys \<noteq> -1" "sys_bind sys \<noteq> -1" "sys_listen sys \<noteq> -1" "sys_timerfd sys \<noteq> sys_eventfd sys"
    "distinct [sys_timerfd sys, sys_eventfd sys, sys_socket sys]"
  using assms by (auto simp: sys_ok_def)

lemma read_interest: "new_events EnableRead 0 \<noteq> 0"
  by (simp add: new_events.simps epoll_bits)

lemma enable_read [simp]:
  "chan_do EnableRead tid (setCallBack ReadCb (Channel_new fd)) (main_loop tid fds) = Inr (reading_chan fd, main_loop tid (fds @ [fd]))"
  using read_interest
  by (simp add: chan_do_def EventLoop_updateChannel_def Epoller_updateChannel_def Epoller_ctl_def main_loop_def reading_chan_def
      setCallBack_def Channel_new_def hasNoneEvents_def Epoller_new_def assertInLoopThread_def isInLoopThread_def)

lemma main_loop_log:
  assumes "distinct fds"
  shows "all_legal (ctl_log (poller (main_loop tid fds))) Map.empty"
    "kernel (main_loop tid fds) fd = (if fd \<in> set fds then Some (new_events EnableRead 0) else None)"
proof -
  have "all_legal (ctl_log (poller (main_loop tid fds))) Map.empty
     \<and> (\<forall>fd. kernel (main_loop tid fds) fd = (if fd \<in> set fds then Some (new_events EnableRead 0) else None))"
    using assms
  proof (induction fds rule: rev_induct)
    case Nil
    then show ?case by (simp add: main_loop_def Epoller_new_def)
  next
    case (snoc fd fds)
    then show ?case by (auto simp: main_loop_def all_legal_append interest_append ctl_legal_def ctl_effect_def)
  qed
  then show "all_legal (ctl_log (poller (main_loop tid fds))) Map.empty"
    "kernel (main_loop tid fds) fd = (if fd \<in> set fds then Some (new_events EnableRead 0) else None)" by blast+
qed

lemma main_loop_sync: "distinct fds \<Longrightarrow> loop_sync (map reading_chan fds) (main_loop tid fds)"
  using read_interest
  by (auto simp: loop_sync_def chan_sync_def main_loop_log reading_chan_def setCallBack_def Channel_new_def comp_def)

lemma EventLoop_new_ok:
  assumes "timerfd \<noteq> -1" "wakeupfd \<noteq> -1" "timerfd \<noteq> wakeupfd"
  shows "EventLoop_new tid timerfd wakeupfd False
     = Inr (reading_chan timerfd, reading_chan wakeupfd, main_loop tid [timerfd, wakeupfd])"
proof -
  have l: "\<lparr>pendingJobs = [], doingPendingJobs = False, quitting = False, threadId = tid, eventfd = 0, poller = Epoller_new\<rparr>
      = main_loop tid []" by (simp add: main_loop_def Epoller_new_def)
  show ?thesis using assms unfolding EventLoop_new_def l by (simp add: Let_def)
qed

lemma EventLoop_new_aborts:
  assumes "timerfd = -1 \<or> wakeupfd = -1"
  shows "EventLoop_new tid timerfd wakeupfd False = Inl Aborted"
proof -
  have l: "\<lparr>pendingJobs = [], doingPendingJobs = False, quitting = False, threadId = tid, eventfd = 0, poller = Epoller_new\<rparr>
      = main_loop tid []" by (simp add: main_loop_def Epoller_new_def)
  show ?thesis using assms unfolding EventLoop_new_def l by (auto simp: Let_def)
qed

lemma startInLoop_ok:
  assumes "sys_ok sys"
  shows "\<exists>srv. startInLoop wcb tid sys loc (main_loop tid fds) = Inr (main_loop tid (fds @ [sys_socket sys]), srv)
     \<and> acceptChannel (srv_acceptor srv) = reading_chan (sys_socket sys) \<and> srv_messageCb srv \<and> srv_writeCompleteCb srv = wcb"
proof -
  show ?thesis using sys_okD[OF assms]
    by (simp add: startInLoop_def TcpServer_new_def Acceptor_new_def createSocket_def TcpServer_start_def Acceptor_listen_def
        TcpServer_setMessageCallback_def TcpServer_setWriteCompleteCallback_def Let_def)
qed

text \<open>Without connections, and with the three channels of the set-up, the table and its loop are well-formed.\<close>

lemma new_table_ok:
  assumes "sys_ok sys" "objs t = []" "conns t = Map.empty" "wakeupChnl t = reading_chan (sys_eventfd sys)"
    "timerChnl t = reading_chan (sys_timerfd sys)" "acceptChnl t = reading_chan (sys_socket sys)"
  shows "table_ok tid (main_loop tid [sys_timerfd sys, sys_eventfd sys, sys_socket sys], t)"
    and "loop_idle (main_loop tid [sys_timerfd sys, sys_eventfd sys, sys_socket sys], t)"
    and "fd \<notin> {sys_timerfd sys, sys_eventfd sys, sys_socket sys} \<Longrightarrow> fresh a fd (main_loop tid [sys_timerfd sys, sys_eventfd sys, sys_socket sys], t)"
proof -
  let ?fds = "[sys_timerfd sys, sys_eventfd sys, sys_socket sys]"
  have d: "distinct ?fds" by (rule sys_okD(9)[OF assms(1)])
  have m: "mset (all_chans t) = mset (map reading_chan ?fds)" using assms(2-6) by (simp add: all_chans_def)
  have "loop_sync (all_chans t) (main_loop tid ?fds :: loop_task eventloop)"
    using main_loop_sync[OF d, of tid] loop_sync_perm[OF m, of "main_loop tid ?fds :: loop_task eventloop"] by simp
  then show "table_ok tid (main_loop tid ?fds, t)" using assms(2,3) by (simp add: table_ok_def) (simp add: main_loop_def)
  have c: "\<not> handlingEvents (reading_chan f)" "chfd (reading_chan f) = f" for f
    by (simp_all add: reading_chan_def setCallBack_def Channel_new_def)
  show "loop_idle (main_loop tid ?fds, t)" using assms(4-6) c(1) by (simp add: loop_idle_def loop_chan_def)
  show "fresh a fd (main_loop tid ?fds, t)" if "fd \<notin> {sys_timerfd sys, sys_eventfd sys, sys_socket sys}"
    using that main_loop_log(2)[OF d, of tid fd] assms(2-6) c(2) by (simp add: fresh_def all_chans_def)
qed

lemma reading_chan_callbacks [simp]: "callbacks (reading_chan fd) = [ReadCb]"
  by (simp add: reading_chan_def setCallBack_def Channel_new_def)

end
