(* ===== verification/Echo_Main.thy ===== *)
theory Echo_Main
  imports Echo_Loop Timer_Threads Server_Setup Server_Threads Logger
begin

text \<open>
  The program of \<open>examples/EchoServer.cc\<close> as a whole: \<open>main\<close> and the constructor, \<open>start()\<close> and the
  destructor of \<open>EchoServer\<close>, and the rounds of the loop with its timer queue, its acceptor and all its
  connections. The timers run three closures: the idle check \<open>onTimeout\<close>, the one-shot that after 100
  seconds starts the countdown, and the countdown itself, whose variable is part of its closure.

  The state is the table of the connections, extended by the timer queue and the objects of \<open>main\<close>.
  A timer callback works on the same state with the queue first (\<open>to_queue\<close>, \<open>of_queue\<close>).
\<close>

datatype echo_cb = OnTimeout | StartCountdown | Countdown int

record echo_server =
  es_numThread :: nat
  es_timeout :: int
  es_timer :: nat
  es_server :: threaded
  es_base :: tcpserver

type_synonym echo_ext = "\<lparr>expiry :: timestamp option\<rparr>"

record echo_prog = "echo_ext table" +
  timerq :: "echo_cb timerqueue"
  server :: echo_server

record echo_queue = "echo_cb timerqueue" +
  conn_table :: "echo_ext table"
  main_server :: echo_server

type_synonym prog_world = "loop_task eventloop \<times> echo_prog"
type_synonym queue_world = "loop_task eventloop \<times> echo_queue"

definition to_queue :: "prog_world \<Rightarrow> queue_world" where
  "to_queue w = (fst w, timerqueue.extend (timerq (snd w)) \<lparr>conn_table = table.truncate (snd w), main_server = server (snd w)\<rparr>)"

definition of_queue :: "queue_world \<Rightarrow> prog_world" where
  "of_queue w = (fst w, table.extend (conn_table (snd w)) \<lparr>timerq = timerqueue.truncate (snd w), server = main_server (snd w)\<rparr>)"

text \<open>
  Of the whole run \<open>self\<close> is the thread, \<open>alloc\<close> the address that \<open>new Timer\<close> returns, and \<open>log\<close> the
  logger; \<open>main\<close> sets its level to \<open>TRACE\<close>, which stays an argument here, to state what depends on it.
\<close>

record prog_env =
  self :: nat
  alloc :: "(nat \<rightharpoonup> echo_cb timer) \<Rightarrow> nat"
  log :: logger

subsection \<open>The callbacks of the timers\<close>

text \<open>
  \<open>--countdown\<close> is an argument of the macro \<open>INFO\<close>, which evaluates its arguments only when the level
  lets the line through.
\<close>

definition count_down :: "logger \<Rightarrow> int \<Rightarrow> int" where
  "count_down lg n = (if logLevel lg \<le> LOG_LEVEL_INFO then n - 1 else n)"

definition set_closure :: "nat \<Rightarrow> 'cb \<Rightarrow> ('cb, 'z) timerqueue_scheme \<Rightarrow> ('cb, 'z) timerqueue_scheme" where
  "set_closure p cb q = q\<lparr>heap := (heap q)(p := map_option (\<lambda>t. t\<lparr>timer_callback := Some cb\<rparr>) (heap q p))\<rparr>"

fun echo_fire :: "prog_env \<Rightarrow> round_env \<Rightarrow> nat \<Rightarrow> echo_cb \<Rightarrow> queue_world \<Rightarrow> queue_world result" where
  "echo_fire pe env p OnTimeout w =
     bindR (echo_idle_check (self pe) (env_clock env) (fst w, conn_table (snd w)))
       (\<lambda>(l, t). Inr (l, (snd w)\<lparr>conn_table := t\<rparr>))"
| "echo_fire pe env p StartCountdown w =
     bindR (runEvery TimerTask (alloc pe) (self pe) (env_start env) 1000000000 (Some (Countdown 5)) w) (\<lambda>(_, w'). Inr w')"
| "echo_fire pe env p (Countdown n) w =
     (let n' = count_down (log pe) n; w' = (fst w, set_closure p (Countdown n') (snd w))
      in if n' = 0 then bindR (EventLoop_quit (self pe) (fst w')) (\<lambda>l. Inr (l, snd w')) else Inr w')"

subsection \<open>The handlers and the rounds\<close>

definition prog_on_timer :: "prog_env \<Rightarrow> round_env \<Rightarrow> prog_world \<Rightarrow> prog_world result" where
  "prog_on_timer pe env w =
     bindR (TimerQueue_handleRead (echo_fire pe env) (self pe) (env_now env) (to_queue w)) (\<lambda>w'. Inr (of_queue w'))"

text \<open>
  A new socket has a descriptor that nobody uses, and a new object an address that is free; otherwise
  \<open>env_accept\<close> is not a socket the kernel can return, and the round accepts nothing.
\<close>

definition prog_on_accept :: "prog_env \<Rightarrow> int \<Rightarrow> round_env \<Rightarrow> prog_world \<Rightarrow> prog_world result" where
  "prog_on_accept pe timeout env w =
     (case env_accept env of None \<Rightarrow> Inr w
      | Some (a, fd, addr, stack) \<Rightarrow>
          if fresh a fd w then Acceptor_handleRead (self pe)
                 (Some (\<lambda>connfd loc peer. echo_newConnection (self pe) timeout (env_clock env a) a connfd loc peer))
                 (srv_acceptor (es_base (server (snd w)))) (AcceptOk fd addr) stack w
          else Inr w)"

definition prog_handlers :: "prog_env \<Rightarrow> int \<Rightarrow> round_env
    \<Rightarrow> (echo_ext, \<lparr>timerq :: echo_cb timerqueue, server :: echo_server\<rparr>) handlers" where
  "prog_handlers pe timeout env =
     \<lparr>user_of = (\<lambda>a. echo_user (self pe) (bounded (env_io env a)) timeout (env_clock env a)),
      io_of = (\<lambda>a. bounded (env_io env a)),
      on_timer = prog_on_timer pe env,
      on_timer_task = (\<lambda>t w. bindR (run_tq_task t (to_queue w)) (\<lambda>w'. Inr (of_queue w'))),
      on_accept = prog_on_accept pe timeout env, held_by = in_map\<rparr>"

text \<open>
  The loop of \<open>main\<close>: the rounds until \<open>quit_\<close> is set. The result tells whether the loop has returned.
\<close>

fun prog_loop :: "prog_env \<Rightarrow> int \<Rightarrow> (round_env \<times> epoll_wait_result) list \<Rightarrow> prog_world \<Rightarrow> (prog_world \<times> bool) result" where
  "prog_loop pe timeout [] w = Inr (w, False)"
| "prog_loop pe timeout ((env, r) # rs) w =
     bindR (table_round (self pe) (prog_handlers pe timeout env) r w)
       (\<lambda>w'. if quitting (fst w') then Inr (w', True) else prog_loop pe timeout rs w')"

subsection \<open>\<open>main\<close>\<close>

definition EchoServer_new :: "prog_env \<Rightarrow> timestamp \<Rightarrow> nat \<Rightarrow> int \<Rightarrow> loop_task eventloop \<times> echo_cb timerqueue
    \<Rightarrow> (nat \<times> loop_task eventloop \<times> echo_cb timerqueue) result" where
  "EchoServer_new pe now numThread timeout w = runEvery TimerTask (alloc pe) (self pe) now timeout (Some OnTimeout) w"

definition EchoServer_start :: "nat \<Rightarrow> sys_results \<Rightarrow> inetaddr \<Rightarrow> nat \<Rightarrow> threaded \<Rightarrow> 'task eventloop
    \<Rightarrow> (threaded \<times> 'task eventloop \<times> tcpserver) result" where
  "EchoServer_start tid sys loc numThread ts l =
     assertInLoopThread tid l
       (bindR (setNumThread numThread ts) (\<lambda>ts.
          bindR (startInLoop True tid sys loc l) (\<lambda>(l, srv). Inr (TcpServerThreaded_start ts, l, srv))))"

definition echo_main :: "prog_env \<Rightarrow> sys_results \<Rightarrow> timestamp \<Rightarrow> timestamp \<Rightarrow> prog_world result" where
  "echo_main pe sys t0 t1 =
     bindR (EventLoop_new (self pe) (sys_timerfd sys) (sys_eventfd sys) False) (\<lambda>(tch, wch, l).
     let addr = InetAddress_port 9877 False in
     bindR (EchoServer_new pe t0 1 5000000000 (l, TimerQueue_new)) (\<lambda>(timer, l, q).
     bindR (EchoServer_start (self pe) sys addr 1 TcpServerThreaded_new l) (\<lambda>(ts, l, srv).
     bindR (runAfter TimerTask (alloc pe) (self pe) t1 100000000000 (Some StartCountdown) (l, q)) (\<lambda>(_, l, q).
       assertInLoopThread (self pe) l
         (Inr (l\<lparr>quitting := False\<rparr>,
           \<lparr>objs = [], conns = Map.empty, wakeupChnl = wch, timerChnl = tch, acceptChnl = acceptChannel (srv_acceptor srv),
            timerq = q, server = \<lparr>es_numThread = 1, es_timeout = 5000000000, es_timer = timer, es_server = ts, es_base = srv\<rparr>\<rparr>))))))"

text \<open>
  The end of \<open>main\<close>: \<open>~EchoServer\<close> cancels the timer, then its members go, and with \<open>server_\<close> the base
  server: its set, which holds the connections that are not closed, and its acceptor. The loop goes
  last: the channel of its wake-ups, and the timer queue with its timers and its channel.
\<close>

definition main_end_loop :: "prog_world \<Rightarrow> prog_world result" where
  "main_end_loop w =
     bindR (Channel_delete (acceptChnl (snd w))) (\<lambda>_.
     bindR (Channel_delete (wakeupChnl (snd w))) (\<lambda>_.
     bindR (TimerQueue_delete (timerq (snd w))) (\<lambda>q.
     bindR (Channel_delete (timerChnl (snd w))) (\<lambda>_. Inr (fst w, (snd w)\<lparr>timerq := q\<rparr>)))))"

definition echo_main_end :: "prog_env \<Rightarrow> prog_world \<Rightarrow> prog_world result" where
  "echo_main_end pe w =
     bindR (EventLoop_cancelTimer TimerTask (self pe) (es_timer (server (snd w))) (to_queue w)) (\<lambda>w1.
     let w2 = of_queue w1 in
     bindR (foldR (\<lambda>a u. bindR (TcpConnection_delete (the (conns (snd u) a))) (\<lambda>_. Inr u))
              (filter (\<lambda>a. state (the (conns (snd w2) a)) \<noteq> kDisconnected) (objs (snd w2))) w2) main_end_loop)"

end
