(* ===== verification/Shutdown_Clock.thy ===== *)
theory Shutdown_Clock
  imports Echo_Main
begin

text \<open>
  When the echo server stops. Of all its timers only one drives the shutdown: the one-shot of \<open>main\<close>, then
  the countdown that its callback starts. \<open>phase\<close> is that clock on its own, \<open>shutdown_at\<close> says that the
  timer queue and the quit flag of the loop are in a phase, and the expiry handler, with the idle checks of
  all connections running in between, moves the queue as \<open>phase_tick\<close> moves the clock.
\<close>

datatype phase = Waiting timestamp | Counting int timestamp | Stopped

fun phase_fire :: "logger \<Rightarrow> timestamp \<Rightarrow> phase \<Rightarrow> phase" where
  "phase_fire lg start (Waiting d) = Counting 5 (start + 1000000000)"
| "phase_fire lg start (Counting n d) =
     (if count_down lg n = 0 then Stopped else Counting (count_down lg n) (d + 1000000000))"
| "phase_fire lg start Stopped = Stopped"

fun phase_due :: "timestamp \<Rightarrow> phase \<Rightarrow> bool" where
  "phase_due now (Waiting d) = (d \<le> now)"
| "phase_due now (Counting n d) = (d \<le> now)"
| "phase_due now Stopped = False"

definition phase_tick :: "logger \<Rightarrow> round_env \<Rightarrow> phase \<Rightarrow> phase" where
  "phase_tick lg env ph = (if phase_due (env_now env) ph then phase_fire lg (env_start env) ph else ph)"

definition idle_but :: "nat \<Rightarrow> (echo_cb, 'z) timerqueue_scheme \<Rightarrow> bool" where
  "idle_but p q \<longleftrightarrow> (\<forall>r t. r \<noteq> p \<longrightarrow> heap q r = Some t \<longrightarrow> timer_callback t = Some OnTimeout)"

fun shutdown_at :: "logger \<Rightarrow> phase \<Rightarrow> nat \<Rightarrow> bool \<Rightarrow> (echo_cb, 'z) timerqueue_scheme \<Rightarrow> bool" where
  "shutdown_at lg (Waiting d) p quit q \<longleftrightarrow> \<not> quit \<and> idle_but p q \<and> heap q p = Some (Timer_new (Some StartCountdown) d 0)"
| "shutdown_at lg (Counting n d) p quit q \<longleftrightarrow> \<not> quit \<and> 0 < n \<and> idle_but p q
     \<and> heap q p = Some (Timer_new (Some (Countdown n)) d 1000000000)"
| "shutdown_at lg Stopped p quit q \<longleftrightarrow> quit \<and> logLevel lg \<le> LOG_LEVEL_INFO \<and> idle_but p q
     \<and> (\<exists>n d. n \<le> 0 \<and> heap q p = Some (Timer_new (Some (Countdown n)) d 1000000000))"

subsection \<open>The table behind the timer queue\<close>

lemma extend_simps [simp]:
  "objs (table.extend t z) = objs t" "conns (table.extend t z) = conns t" "wakeupChnl (table.extend t z) = wakeupChnl t"
  "timerChnl (table.extend t z) = timerChnl t" "acceptChnl (table.extend t z) = acceptChnl t"
  "table.more (table.extend t z) = z"
  "objs (table.truncate u) = objs u" "conns (table.truncate u) = conns u" "wakeupChnl (table.truncate u) = wakeupChnl u"
  "timerChnl (table.truncate u) = timerChnl u" "acceptChnl (table.truncate u) = acceptChnl u"
  by (simp_all add: table.defs)

lemma table_ok_cong:
  assumes "table_ok tid (l, t)" "objs u = objs t" "conns u = conns t" "wakeupChnl u = wakeupChnl t"
    "timerChnl u = timerChnl t" "acceptChnl u = acceptChnl t"
  shows "table_ok tid (l, u)"
  using assms by (simp add: table_ok_def all_chans_def conn_view_def)

lemma table_ok_extend [simp]:
  "table_ok tid (l, table.extend t z) = table_ok tid (l, t)" "table_ok tid (l, table.truncate u) = table_ok tid (l, u)"
  by (auto elim: table_ok_cong)

lemma table_frame_extend [simp]:
  fixes w :: "('x, 'y) table_world" and w' :: "('x, 'v) table_world"
  shows "table_frame w (l', table.extend t' z) = table_frame w (l', t')"
    and "table_frame (l, table.truncate u) w' = table_frame (l, u) w'"
  by (simp_all add: frame_defs fun_eq_iff)

lemma quit_ok: "table_ok tid (l, t) \<Longrightarrow> table_ok tid (l\<lparr>quitting := b\<rparr>, t)"
proof -
  assume w: "table_ok tid (l, t)"
  have "conn_ok tid (conn_view a (l\<lparr>quitting := b\<rparr>, t))" if "conn_ok tid (conn_view a (l, t))" for a
    using that by (simp add: conn_ok_def conn_view_def isInLoopThread_def loop_sync_def)
  then show ?thesis using w by (auto simp: table_ok_def isInLoopThread_def loop_sync_def)
qed

lemma of_to_queue: "of_queue (to_queue w) = w"
  by (cases w) (simp add: of_queue_def to_queue_def table.defs timerqueue.defs)

text \<open>What a timer callback may change of the program: nothing but the timers, the connections and the quit flag.\<close>

definition conn_world_of :: "queue_world \<Rightarrow> loop_task eventloop \<times> echo_ext table" where
  "conn_world_of w = (fst w, conn_table (snd w))"

definition callback_frame :: "nat \<Rightarrow> queue_world \<Rightarrow> queue_world \<Rightarrow> bool" where
  "callback_frame tid w w' \<longleftrightarrow> table_ok tid (conn_world_of w') \<and> table_frame (conn_world_of w) (conn_world_of w')
     \<and> rest_of (conn_world_of w') = (rest_of (conn_world_of w))\<lparr>rest_quit := quitting (fst w')\<rparr>
     \<and> main_server (snd w') = main_server (snd w)"

lemma callback_frame_refl: "table_ok tid (conn_world_of w) \<Longrightarrow> callback_frame tid w w"
  by (simp add: callback_frame_def rest_of_def conn_world_of_def)

lemma callback_frame_trans: "callback_frame tid u v \<Longrightarrow> callback_frame tid v w \<Longrightarrow> callback_frame tid u w"
  unfolding callback_frame_def by (auto intro: table_frame_trans)

lemma callback_frame_queue:
  "callback_frame tid w (l, q) \<Longrightarrow> conn_table q' = conn_table q \<Longrightarrow> main_server q' = main_server q \<Longrightarrow>
   callback_frame tid w (l, q')"
  by (simp add: callback_frame_def conn_world_of_def)

lemma more_fields:
  "timerqueue.more q' = timerqueue.more q \<Longrightarrow> conn_table q' = conn_table q \<and> main_server q' = main_server q" for q q' :: echo_queue
  by (cases q; cases q') simp

lemma fire_OnTimeout:
  assumes "table_ok (self pe) (conn_world_of w)"
  shows "\<exists>l t. echo_fire pe env p OnTimeout w = Inr (l, (snd w)\<lparr>conn_table := t\<rparr>) \<and> quitting l = quitting (fst w)
     \<and> callback_frame (self pe) w (l, (snd w)\<lparr>conn_table := t\<rparr>)"
proof -
  from idle_check_ok[OF assms, of "env_clock env"] obtain w' where
    w': "echo_idle_check (self pe) (env_clock env) (conn_world_of w) = Inr w'" and
    k: "table_ok (self pe) w'" "table_frame (conn_world_of w) w'" "rest_of w' = rest_of (conn_world_of w)" by blast
  have "quitting (fst w') = quitting (fst w)" using k(3) by (metis conn_world_of_def fst_conv rest_simps(4))
  then show ?thesis using w' k
    by (intro exI[of _ "fst w'"] exI[of _ "snd w'"]) (simp add: conn_world_of_def callback_frame_def rest_of_def case_prod_beta)
qed

subsection \<open>The expiry handler moves the clock\<close>

text \<open>The timer of the idle check.\<close>

definition owned :: "nat \<Rightarrow> (echo_cb, 'z) timerqueue_scheme \<Rightarrow> bool" where
  "owned x q \<longleftrightarrow> (\<exists>t. heap q x = Some t \<and> timer_callback t = Some OnTimeout \<and> timer_repeat t)"

lemma closure_ok:
  assumes "tq_ok (\<lambda>_. True) D q" "heap q p = Some t"
  shows "tq_ok (\<lambda>_. True) D (set_closure p cb q)"
proof -
  note ok = tq_okD[OF assms(1)]
  have "dom (heap (set_closure p cb q)) = dom (heap q)" using assms(2) by (auto simp: set_closure_def)
  then show ?thesis using ok(1-5) ok(6-8) assms(2) by (auto simp: tq_ok_def set_closure_def)
qed

text \<open>The callback of the timer that drives the shutdown.\<close>

lemma fire_shutdown:
  assumes q: "tq_ok (\<lambda>_. True) D (snd w)" "alloc_ok (alloc pe)" and w: "table_ok (self pe) (conn_world_of w)"
    and s: "shutdown_at (log pe) ph p (quitting (fst w)) (snd w)" "p \<in> D"
    and t: "heap (snd w) p = Some t" "timer_callback t = Some cb"
  shows "\<exists>w1 p1 k. echo_fire pe env p cb w = Inr w1 \<and> tq_ok (\<lambda>_. True) D (snd w1) \<and> callback_frame (self pe) w w1
     \<and> fired (snd w1) = fired (snd w) \<and> heap (snd w1) p = Some (t\<lparr>timer_callback := k\<rparr>)
     \<and> (\<forall>r \<in> dom (heap (snd w)). r \<noteq> p \<longrightarrow> heap (snd w1) r = heap (snd w) r) \<and> (p1 = p \<or> p1 \<notin> D)
     \<and> (\<forall>q. heap q = (heap (snd w1))(p := next_life (t\<lparr>timer_callback := k\<rparr>)) \<longrightarrow>
          shutdown_at (log pe) (phase_fire (log pe) (env_start env) ph) p1 (quitting (fst w1)) (q :: echo_queue))"
proof -
  have in_loop: "isInLoopThread (self pe) (fst w)" using table_okD(1)[OF w] by (simp add: conn_world_of_def)
  show ?thesis
  proof (cases ph)
    case (Waiting d)
    have t': "t = Timer_new (Some StartCountdown) d 0" "cb = StartCountdown" using s(1) t by (auto simp: Waiting Timer_new_def)
    from addTimerTask_ok[OF q(1) in_loop q(2), of "Some (Countdown 5)" TimerTask "env_start env + 1000000000" 1000000000]
    obtain p1 q1 where a: "runEvery TimerTask (alloc pe) (self pe) (env_start env) 1000000000 (Some (Countdown 5)) w = Inr (p1, fst w, q1)"
      "tq_ok (\<lambda>_. True) D q1" "p1 \<notin> dom (heap (snd w))" "fired q1 = fired (snd w)" "timerqueue.more q1 = timerqueue.more (snd w)"
      "heap q1 = (heap (snd w))(p1 \<mapsto> Timer_new (Some (Countdown 5)) (env_start env + 1000000000) 1000000000)"
      by (auto simp: runEvery_def)
    have D: "D \<subseteq> dom (heap (snd w))" using tq_okD(4)[OF q(1)] by simp
    then have p1: "p1 \<notin> D" "p1 \<noteq> p" using a(3) s(2) by auto
    have "callback_frame (self pe) w (fst w, q1)"
      using callback_frame_queue[of "self pe" w "fst w" "snd w" q1] callback_frame_refl[OF w] more_fields[OF a(5)] by simp
    moreover have "shutdown_at (log pe) (Counting 5 (env_start env + 1000000000)) p1 (quitting (fst w)) q"
      if "heap q = (heap q1)(p := next_life (t\<lparr>timer_callback := timer_callback t\<rparr>))" for q :: echo_queue
      using that s(1) p1 a(6) t' by (auto simp: Waiting idle_but_def next_life_def Timer_new_def)
    moreover have "\<forall>r \<in> dom (heap (snd w)). heap q1 r = heap (snd w) r" using a(3,6) by auto
    moreover have "heap q1 p = Some t" using a(6) t(1) p1(2) by simp
    ultimately show ?thesis using a(1,2,4) t(1) p1 s(2) unfolding t'(2) Waiting
      by (intro exI[of _ "(fst w, q1)"] exI[of _ p1] exI[of _ "timer_callback t"]) simp
  next
    case (Counting n d)
    have t': "t = Timer_new (Some (Countdown n)) d 1000000000" "cb = Countdown n" "0 < n" "\<not> quitting (fst w)"
      using s(1) t by (auto simp: Counting Timer_new_def)
    let ?n = "count_down (log pe) n" and ?q = "set_closure p (Countdown (count_down (log pe) n)) (snd w)"
    let ?l = "if ?n = 0 then (fst w)\<lparr>quitting := True\<rparr> else fst w"
    have run: "echo_fire pe env p cb w = Inr (?l, ?q)"
      using in_loop t'(2,4) by (simp add: EventLoop_quit_def isInLoopThread_def Let_def)
    have ok: "tq_ok (\<lambda>_. True) D ?q" by (rule closure_ok[OF q(1) t(1)])
    have "callback_frame (self pe) w (?l, snd w)"
      using w quit_ok[of "self pe" "fst w" "conn_table (snd w)" True]
      by (simp add: callback_frame_def conn_world_of_def rest_of_def frame_defs fun_eq_iff)
    then have fr: "callback_frame (self pe) w (?l, ?q)" by (rule callback_frame_queue) (simp_all add: set_closure_def)
    have "0 < ?n \<or> ?n = 0 \<and> logLevel (log pe) \<le> LOG_LEVEL_INFO" using t'(3) by (auto simp: count_down_def)
    then have "shutdown_at (log pe) (phase_fire (log pe) (env_start env) ph) p (quitting ?l) q"
      if "heap q = (heap ?q)(p := next_life (t\<lparr>timer_callback := Some (Countdown ?n)\<rparr>))" for q :: echo_queue
      using that s(1) t t'(1,4) by (auto simp: Counting idle_but_def next_life_def Timer_new_def set_closure_def)
    then show ?thesis using run ok fr t s(2)
      by (intro exI[of _ "(?l, ?q)"] exI[of _ p] exI[of _ "Some (Countdown ?n)"]) (simp add: set_closure_def)
  next
    case Stopped
    then obtain n d where n: "n \<le> 0" "t = Timer_new (Some (Countdown n)) d 1000000000" "quitting (fst w)"
        "logLevel (log pe) \<le> LOG_LEVEL_INFO" "cb = Countdown n" "idle_but p (snd w)"
      using s(1) t by (auto simp: Timer_new_def)
    let ?q = "set_closure p (Countdown (n - 1)) (snd w)"
    have run: "echo_fire pe env p cb w = Inr (fst w, ?q)" using n by (simp add: count_down_def Let_def)
    have ok: "tq_ok (\<lambda>_. True) D ?q" by (rule closure_ok[OF q(1) t(1)])
    have fr: "callback_frame (self pe) w (fst w, ?q)"
      using callback_frame_queue[of "self pe" w "fst w" "snd w" ?q] callback_frame_refl[OF w] by (simp add: set_closure_def)
    have "shutdown_at (log pe) Stopped p (quitting (fst w)) q"
      if "heap q = (heap ?q)(p := next_life (t\<lparr>timer_callback := Some (Countdown (n - 1))\<rparr>))" for q :: echo_queue
      using that t n by (auto simp: idle_but_def next_life_def Timer_new_def set_closure_def intro!: exI[of _ "n - 1"])
    then show ?thesis using run ok fr t s(2)
      by (intro exI[of _ "(fst w, ?q)"] exI[of _ p] exI[of _ "Some (Countdown (n - 1))"]) (simp add: set_closure_def Stopped)
  qed
qed

text \<open>One expired timer: if it is the one that drives the shutdown, the clock moves.\<close>

lemma expired_step:
  assumes q: "tq_ok (\<lambda>_. True) (insert r D) (snd w)" "r \<notin> D" "alloc_ok (alloc pe)" and w: "table_ok (self pe) (conn_world_of w)"
    and s: "shutdown_at (log pe) ph p (quitting (fst w)) (snd w)"
    and t: "heap (snd w) r = Some t" "timer_when t \<le> now"
  shows "\<exists>w' p'. handle_expired (echo_fire pe env) now (ts, r) w = Inr w' \<and> tq_ok (\<lambda>_. True) D (snd w')
     \<and> callback_frame (self pe) w w' \<and> fired (snd w') = fired (snd w) @ [r] \<and> (\<forall>x \<in> D. heap (snd w') x = heap (snd w) x)
     \<and> (\<forall>x. owned x (snd w) \<longrightarrow> owned x (snd w'))
     \<and> shutdown_at (log pe) (if p = r then phase_fire (log pe) (env_start env) ph else ph) p' (quitting (fst w')) (snd w')
     \<and> (if p = r then p' \<notin> D else p' = p)"
proof -
  let ?w = "(fst w, (snd w)\<lparr>fired := fired (snd w) @ [r]\<rparr>)"
  have ok: "tq_ok (\<lambda>_. True) (insert r D) (snd ?w)" using q(1) by (simp add: tq_ok_def)
  have live: "\<not> timer_canceled t" by (rule tq_okD(7)[OF q(1) t(1)])
  have wok: "table_ok (self pe) (conn_world_of ?w)" using w by (simp add: conn_world_of_def)
  have fr0: "callback_frame (self pe) w ?w" using w by (simp add: callback_frame_def conn_world_of_def rest_of_def)
  have s0: "shutdown_at (log pe) ph p (quitting (fst ?w)) (snd ?w)" using s by (cases ph) (simp_all add: idle_but_def)
  have cb: "\<exists>cb. timer_callback t = Some cb" using s t(1) by (cases ph; cases "r = p") (auto simp: idle_but_def Timer_new_def)
  then obtain cb where cb: "timer_callback t = Some cb" by blast
  have run: "run_if_live (echo_fire pe env r) r t w = echo_fire pe env r cb ?w"
    using live cb by (simp add: run_if_live_def Timer_run_def)
  show ?thesis
  proof (cases "p = r")
    case True
    have "shutdown_at (log pe) ph r (quitting (fst ?w)) (snd ?w)" "heap (snd ?w) r = Some t" using s0 t(1) True by simp_all
    from fire_shutdown[OF ok q(3) wok this(1) insertI1 this(2) cb, of env] obtain w1 p1 k where
      f: "echo_fire pe env r cb ?w = Inr w1" "tq_ok (\<lambda>_. True) (insert r D) (snd w1)" "callback_frame (self pe) ?w w1"
        "fired (snd w1) = fired (snd ?w)" "heap (snd w1) r = Some (t\<lparr>timer_callback := k\<rparr>)"
        "\<forall>x \<in> dom (heap (snd ?w)). x \<noteq> r \<longrightarrow> heap (snd w1) x = heap (snd ?w) x" "p1 = r \<or> p1 \<notin> insert r D"
        "\<forall>q. heap q = (heap (snd w1))(r := next_life (t\<lparr>timer_callback := k\<rparr>)) \<longrightarrow>
          shutdown_at (log pe) (phase_fire (log pe) (env_start env) ph) p1 (quitting (fst w1)) (q :: echo_queue)" by blast
    from handle_expired_after[where fire = "echo_fire pe env", OF run[unfolded f(1)] t(1) live t(2) f(2) q(2) f(5), of ts] obtain q' where
      h: "handle_expired (echo_fire pe env) now (ts, r) w = Inr (fst w1, q')" "tq_ok (\<lambda>_. True) D q'"
        "heap q' = (heap (snd w1))(r := next_life (t\<lparr>timer_callback := k\<rparr>))" "fired q' = fired (snd w1)"
        "timerqueue.more q' = timerqueue.more (snd w1)" by blast
    have "callback_frame (self pe) w (fst w1, q')"
      using callback_frame_queue[of "self pe" w "fst w1" "snd w1" q'] callback_frame_trans[OF fr0 f(3)] more_fields[OF h(5)] by simp
    moreover have D: "D \<subseteq> dom (heap (snd w))" using tq_okD(4)[OF q(1)] by auto
    then have "\<forall>x \<in> D. heap q' x = heap (snd w) x" using f(6) h(3) q(2) by auto
    moreover have "cb \<noteq> OnTimeout" using s t(1) cb True by (cases ph) (auto simp: Timer_new_def)
    then have "owned x q'" if "owned x (snd w)" for x using that f(6) h(3) t(1) cb by (auto simp: owned_def)
    ultimately show ?thesis using h f(4,7,8) q(2) True by (intro exI[of _ "(fst w1, q')"] exI[of _ p1]) auto
  next
    case False
    then have cb': "cb = OnTimeout" using s t(1) cb by (cases ph) (auto simp: idle_but_def)
    from fire_OnTimeout[OF wok, of env r] obtain l u where
      f: "echo_fire pe env r cb ?w = Inr (l, (snd ?w)\<lparr>conn_table := u\<rparr>)" "quitting l = quitting (fst w)"
        "callback_frame (self pe) ?w (l, (snd ?w)\<lparr>conn_table := u\<rparr>)" unfolding cb' by auto
    have ok1: "tq_ok (\<lambda>_. True) (insert r D) (snd (l, (snd ?w)\<lparr>conn_table := u\<rparr>))" using ok by (simp add: tq_ok_def)
    have "heap (snd (l, (snd ?w)\<lparr>conn_table := u\<rparr>)) r = Some (t\<lparr>timer_callback := timer_callback t\<rparr>)" using t(1) by simp
    from handle_expired_after[where fire = "echo_fire pe env", OF run[unfolded f(1)] t(1) live t(2) ok1 q(2) this, of ts] obtain q' where
      h: "handle_expired (echo_fire pe env) now (ts, r) w = Inr (l, q')" "tq_ok (\<lambda>_. True) D q'"
        "heap q' = (heap (snd w))(r := next_life t)" "fired q' = fired (snd w) @ [r]"
        "timerqueue.more q' = timerqueue.more ((snd ?w)\<lparr>conn_table := u\<rparr>)" by auto
    have "callback_frame (self pe) w (l, q')"
      using callback_frame_queue[of "self pe" w l "(snd ?w)\<lparr>conn_table := u\<rparr>" q'] callback_frame_trans[OF fr0 f(3)] more_fields[OF h(5)] by simp
    moreover have "shutdown_at (log pe) ph p (quitting l) q'"
      using s f(2) h(3) False cb cb' t(1) by (cases ph) (auto simp: idle_but_def next_life_def)
    moreover have "owned x q'" if "owned x (snd w)" for x
      using that h(3) t(1) by (auto simp: owned_def next_life_def)
    ultimately show ?thesis using h q(2) False by (intro exI[of _ "(l, q')"] exI[of _ p]) auto
  qed
qed

lemma expired_batch_step:
  assumes "tq_ok (\<lambda>_. True) (snd ` set ex) (snd w)" "distinct (map snd ex)" "alloc_ok (alloc pe)"
    and "table_ok (self pe) (conn_world_of w)" "shutdown_at (log pe) ph p (quitting (fst w)) (snd w)"
    and "\<forall>e \<in> set ex. \<exists>t. heap (snd w) (snd e) = Some t \<and> timer_when t \<le> now"
  shows "\<exists>w' p'. foldR (handle_expired (echo_fire pe env) now) ex w = Inr w' \<and> tq_ok (\<lambda>_. True) {} (snd w')
     \<and> callback_frame (self pe) w w' \<and> fired (snd w') = fired (snd w) @ map snd ex
     \<and> (\<forall>x. owned x (snd w) \<longrightarrow> owned x (snd w'))
     \<and> shutdown_at (log pe) (if p \<in> snd ` set ex then phase_fire (log pe) (env_start env) ph else ph) p' (quitting (fst w')) (snd w')"
  using assms
proof (induction ex arbitrary: w ph p)
  case Nil
  then show ?case by (auto intro!: exI[of _ p] callback_frame_refl)
next
  case (Cons e ex)
  obtain ts r where e: "e = (ts, r)" by (cases e)
  from Cons.prems(6) obtain t where t: "heap (snd w) r = Some t" "timer_when t \<le> now" by (auto simp: e)
  have q: "tq_ok (\<lambda>_. True) (insert r (snd ` set ex)) (snd w)" "r \<notin> snd ` set ex" using Cons.prems(1,2) by (simp_all add: e)
  from expired_step[OF q Cons.prems(3,4,5) t, of env ts] obtain w1 p1 where
    w1: "handle_expired (echo_fire pe env) now (ts, r) w = Inr w1" "tq_ok (\<lambda>_. True) (snd ` set ex) (snd w1)"
      "callback_frame (self pe) w w1" "fired (snd w1) = fired (snd w) @ [r]" "\<forall>x \<in> snd ` set ex. heap (snd w1) x = heap (snd w) x"
      "shutdown_at (log pe) (if p = r then phase_fire (log pe) (env_start env) ph else ph) p1 (quitting (fst w1)) (snd w1)"
      "if p = r then p1 \<notin> snd ` set ex else p1 = p" "\<And>x. owned x (snd w) \<Longrightarrow> owned x (snd w1)" by blast
  have ok1: "table_ok (self pe) (conn_world_of w1)" using w1(3) by (simp add: callback_frame_def)
  have "\<forall>e \<in> set ex. \<exists>t. heap (snd w1) (snd e) = Some t \<and> timer_when t \<le> now" using w1(5) Cons.prems(6) by auto
  from Cons.IH[OF w1(2) _ Cons.prems(3) ok1 w1(6) this] Cons.prems(2) obtain w' p' where
    w': "foldR (handle_expired (echo_fire pe env) now) ex w1 = Inr w'" "tq_ok (\<lambda>_. True) {} (snd w')"
      "callback_frame (self pe) w1 w'" "fired (snd w') = fired (snd w1) @ map snd ex"
      "shutdown_at (log pe) (if p1 \<in> snd ` set ex then phase_fire (log pe) (env_start env) (if p = r then phase_fire (log pe) (env_start env) ph else ph)
         else (if p = r then phase_fire (log pe) (env_start env) ph else ph)) p' (quitting (fst w')) (snd w')"
      "\<And>x. owned x (snd w1) \<Longrightarrow> owned x (snd w')" by auto
  have "foldR (handle_expired (echo_fire pe env) now) (e # ex) w = Inr w'" using w1(1) w'(1) by (simp add: e)
  moreover have "callback_frame (self pe) w w'" by (rule callback_frame_trans[OF w1(3) w'(3)])
  moreover have "fired (snd w') = fired (snd w) @ map snd (e # ex)" using w1(4) w'(4) by (simp add: e)
  moreover have eq: "(if p \<in> snd ` set (e # ex) then phase_fire (log pe) (env_start env) ph else ph)
      = (if p1 \<in> snd ` set ex then phase_fire (log pe) (env_start env) (if p = r then phase_fire (log pe) (env_start env) ph else ph)
         else (if p = r then phase_fire (log pe) (env_start env) ph else ph))"
    using w1(7) q(2) by (cases "p = r") (simp_all add: e)
  moreover have "shutdown_at (log pe) (if p \<in> snd ` set (e # ex) then phase_fire (log pe) (env_start env) ph else ph)
      p' (quitting (fst w')) (snd w')" using w'(5) unfolding eq .
  ultimately show ?case using w'(2,6) w1(8) by blast
qed

subsection \<open>The timer handler of the program\<close>

definition prog_in :: "prog_env \<Rightarrow> phase \<Rightarrow> \<lparr>timerq :: echo_cb timerqueue, server :: echo_server\<rparr> rest \<Rightarrow> bool" where
  "prog_in pe ph z \<longleftrightarrow> rest_tasks z = [] \<and> rest_cbs z = [[ReadCb], [ReadCb], [ReadCb]]
     \<and> (\<exists>q s p. rest_more z = \<lparr>timerq = q, server = s\<rparr> \<and> tq_ok (\<lambda>_. True) {} q \<and> tq_covered q
          \<and> shutdown_at (log pe) ph p (rest_quit z) q \<and> owned (es_timer s) q)"

lemma queue_extend_simps [simp]:
  "heap (timerqueue.extend q z) = heap q" "timers (timerqueue.extend q z) = timers q" "armed (timerqueue.extend q z) = armed q"
  "fired (timerqueue.extend q z) = fired q" "timerqueue.more (timerqueue.extend q z) = z"
  "heap (timerqueue.truncate r) = heap r" "timers (timerqueue.truncate r) = timers r" "armed (timerqueue.truncate r) = armed r"
  by (simp_all add: timerqueue.defs)

lemma queue_extend_ok [simp]:
  "tq_ok good D (timerqueue.extend q z) = tq_ok good D q" "tq_ok good D (timerqueue.truncate r) = tq_ok good D r"
  "tq_covered (timerqueue.truncate r) = tq_covered r"
  by (simp_all add: tq_ok_def tq_covered_def split: option.split)

lemma shutdown_at_cong: "heap q' = heap q \<Longrightarrow> shutdown_at lg ph p b q = shutdown_at lg ph p b q'"
  by (cases ph) (simp_all add: idle_but_def)

lemma conn_world_to_queue [simp]: "conn_world_of (to_queue w) = (fst w, table.truncate (snd w))"
  by (simp add: conn_world_of_def to_queue_def timerqueue.defs)

lemma prog_fields: "table.more t = \<lparr>timerq = q, server = s\<rparr> \<longleftrightarrow> timerq t = q \<and> server t = s" for t :: echo_prog
  by (cases t) auto

lemma rest_of_queue:
  "rest_of (of_queue (l, q)) = \<lparr>rest_quit = quitting l, rest_tasks = rest_tasks (rest_of (l, conn_table q)),
     rest_cbs = rest_cbs (rest_of (l, conn_table q)), rest_more = \<lparr>timerq = timerqueue.truncate q, server = main_server q\<rparr>\<rparr>"
  by (simp add: rest_of_def of_queue_def)

lemma on_timer_tick:
  assumes w: "table_ok (self pe) w" and i: "prog_in pe ph (rest_of w)" and a: "alloc_ok (alloc pe)"
  shows "\<exists>w'. prog_on_timer pe env w = Inr w' \<and> table_ok (self pe) w' \<and> table_frame w w'
     \<and> prog_in pe (phase_tick (log pe) env ph) (rest_of w')"
proof -
  let ?w = "to_queue w"
  from i obtain p where q: "tq_ok (\<lambda>_. True) {} (timerq (snd w))" "shutdown_at (log pe) ph p (quitting (fst w)) (timerq (snd w))"
    "owned (es_timer (server (snd w))) (timerq (snd w))"
    by (auto simp: prog_in_def prog_fields)
  have hq: "heap (snd ?w) = heap (timerq (snd w))" "fst ?w = fst w" by (simp_all add: to_queue_def)
  have ok: "tq_ok (\<lambda>_. True) {} (snd ?w)" using q(1) by (simp add: to_queue_def)
  have s: "shutdown_at (log pe) ph p (quitting (fst ?w)) (snd ?w)" using q(2) shutdown_at_cong[OF hq(1)] hq(2) by simp
  obtain ex q1 where e: "getExpired (env_now env) (timerfdRead (snd ?w)) = (ex, q1)" by fastforce
  note g = expired_batch[OF ok e]
  have more: "conn_table q1 = conn_table (snd ?w) \<and> main_server q1 = main_server (snd ?w)" by (rule more_fields[OF g(7)])
  have cw: "conn_world_of (fst w, q1) = (fst w, table.truncate (snd w))"
    using more conn_world_to_queue[of w] hq(2) by (simp add: conn_world_of_def)
  have w1: "table_ok (self pe) (conn_world_of (fst w, q1))" using w cw by (cases w) simp
  have s1: "shutdown_at (log pe) ph p (quitting (fst (fst w, q1))) (snd (fst w, q1))"
    using s shutdown_at_cong[of q1 "snd ?w"] g(5) hq(2) by simp
  have q1: "tq_ok (\<lambda>_. True) (snd ` set ex) (snd (fst w, q1))" "\<forall>e \<in> set ex. \<exists>t. heap (snd (fst w, q1)) (snd e) = Some t \<and> timer_when t \<le> env_now env"
    using g(1,8) by simp_all
  from expired_batch_step[OF q1(1) g(2) a w1 s1 q1(2), of env] obtain w' p' where
    w': "foldR (handle_expired (echo_fire pe env) (env_now env)) ex (fst w, q1) = Inr w'" "tq_ok (\<lambda>_. True) {} (snd w')"
      "callback_frame (self pe) (fst w, q1) w'"
      "shutdown_at (log pe) (if p \<in> snd ` set ex then phase_fire (log pe) (env_start env) ph else ph) p' (quitting (fst w')) (snd w')"
      "\<And>x. owned x q1 \<Longrightarrow> owned x (snd w')" by auto
  have tick: "(if p \<in> snd ` set ex then phase_fire (log pe) (env_start env) ph else ph) = phase_tick (log pe) env ph"
  proof (cases ph)
    case (Waiting d)
    then have "heap (snd ?w) p = Some (Timer_new (Some StartCountdown) d 0)" using s by simp
    from expired_iff[OF ok e this] show ?thesis by (simp add: Waiting phase_tick_def Timer_new_def)
  next
    case (Counting n d)
    then have "heap (snd ?w) p = Some (Timer_new (Some (Countdown n)) d 1000000000)" using s by simp
    from expired_iff[OF ok e this] show ?thesis by (simp add: Counting phase_tick_def Timer_new_def)
  qed (simp add: phase_tick_def)
  let ?q = "rearm (snd w')"
  note r = rearm_ok[OF w'(2)]
  have rmore: "conn_table ?q = conn_table (snd w') \<and> main_server ?q = main_server (snd w')" by (rule more_fields[OF r(4)])
  have run: "prog_on_timer pe env w = Inr (of_queue (fst w', ?q))"
    using table_okD(1)[OF w] e w'(1) hq(2) by (simp add: prog_on_timer_def TimerQueue_handleRead_def)
  have tab: "of_queue (fst w', ?q) = (fst w', table.extend (snd (conn_world_of w')) \<lparr>timerq = timerqueue.truncate ?q, server = main_server ?q\<rparr>)"
    using rmore by (simp add: of_queue_def conn_world_of_def)
  have "table_ok (self pe) (of_queue (fst w', ?q))"
    using w'(3) by (simp add: tab callback_frame_def conn_world_of_def)
  moreover have "table_frame w (of_queue (fst w', ?q))"
    using w'(3) cw by (cases w) (simp add: tab callback_frame_def conn_world_of_def)
  moreover have "prog_in pe (phase_tick (log pe) env ph) (rest_of (of_queue (fst w', ?q)))"
  proof -
    have "rest_tasks (rest_of (conn_world_of w')) = rest_tasks (rest_of w)" "rest_cbs (rest_of (conn_world_of w')) = rest_cbs (rest_of w)"
      using w'(3) cw by (simp_all add: callback_frame_def rest_of_def)
    moreover have "shutdown_at (log pe) (phase_tick (log pe) env ph) p' (quitting (fst w')) (timerqueue.truncate ?q)"
      using w'(4) tick shutdown_at_cong[of "timerqueue.truncate ?q" "snd w'"] r(2) by simp
    moreover have "main_server (snd w') = server (snd w)"
      using w'(3) more by (simp add: callback_frame_def to_queue_def timerqueue.defs)
    moreover have "owned (es_timer (server (snd w))) (timerqueue.truncate ?q)"
      using w'(5)[of "es_timer (server (snd w))"] q(3) r(2) g(5) hq(1) by (simp add: owned_def)
    ultimately show ?thesis using i r(5,6) rmore unfolding rest_of_queue
      by (auto simp: prog_in_def conn_world_of_def)
  qed
  ultimately show ?thesis using run by blast
qed

end
