(* ===== verification/Echo_Run.thy ===== *)
theory Echo_Run
  imports Shutdown_Clock
begin

text \<open>
  The echo server from the start of \<open>main\<close> to its end: what \<open>main\<close> sets up, the safety of every round of
  its loop, when the loop returns, and what its destructors find.
\<close>

subsection \<open>The handlers fulfil the contract of the loop\<close>

lemma on_accept_ok:
  assumes "table_ok (self pe) w"
  shows "ends_in (\<lambda>w'. table_ok (self pe) w' \<and> table_frame w w' \<and> rest_of w' = rest_of w) (prog_on_accept pe timeout env w)"
proof (cases "env_accept env")
  case (Some acc)
  obtain a fd addr stack where acc: "acc = (a, fd, addr, stack)" by (cases acc) auto
  have "isInLoopThread (self pe) (fst w)" by (rule table_okD(1)[OF assms])
  then show ?thesis
    using echo_newConnection_ok[OF assms, of a fd timeout "env_clock env a" "acc_local (srv_acceptor (es_base (server (snd w))))"
        "setAddress (sockaddr_of (store_addr 1 addr stack)) (InetAddress_port 0 False)"] assms
    by (auto simp: prog_on_accept_def Some acc Acceptor_handleRead_def)
qed (simp add: prog_on_accept_def assms)

interpretation echo_prog: loop_handlers "self pe" "prog_handlers pe timeout env"
    "\<lambda>z. alloc_ok (alloc pe) \<and> (\<exists>ph. prog_in pe ph z)" for pe timeout env
proof (rule loop_handlers.intro)
  show "framed_client (user_of (prog_handlers pe timeout env) a) (self pe)" for a
    by (simp add: prog_handlers_def echo.framed_client_axioms)
  show "io_ok (io_of (prog_handlers pe timeout env) a)" for a by (simp add: prog_handlers_def bounded_ok)
  show "rest_tasks z = [] \<and> rest_cbs z = [[ReadCb], [ReadCb], [ReadCb]]"
    if "alloc_ok (alloc pe) \<and> (\<exists>ph. prog_in pe ph z)" for z using that by (auto simp: prog_in_def)
  fix w :: prog_world
  assume w: "table_ok (self pe) w" "alloc_ok (alloc pe) \<and> (\<exists>ph. prog_in pe ph (rest_of w))"
  then obtain ph where ph: "prog_in pe ph (rest_of w)" by blast
  show "ends_in (\<lambda>w'. table_ok (self pe) w' \<and> table_frame w w' \<and> alloc_ok (alloc pe) \<and> (\<exists>ph. prog_in pe ph (rest_of w')))
      (on_timer (prog_handlers pe timeout env) w)"
    using on_timer_tick[OF w(1) ph, of env] w(2) by (auto simp: prog_handlers_def)
  show "ends_in (\<lambda>w'. table_ok (self pe) w' \<and> table_frame w w' \<and> rest_of w' = rest_of w) (on_accept (prog_handlers pe timeout env) w)"
    using on_accept_ok[OF w(1)] by (simp add: prog_handlers_def)
qed

text \<open>A round of the program, and what it does to the clock of the shutdown.\<close>

lemma prog_round:
  assumes "table_ok (self pe) w" "alloc_ok (alloc pe)" "prog_in pe ph (rest_of w)" "deliverable w r"
  shows "ends_but (closing (prog_handlers pe timeout env) (reported r)) (\<lambda>w'. table_ok (self pe) w' \<and> (loop_idle w \<longrightarrow> loop_idle w')
       \<and> (\<forall>a \<in> dom (conns (snd w')). \<not> unheld in_map (conn_view a w'))
       \<and> prog_in pe (if timer_due (reported r) then phase_tick (log pe) env ph else ph) (rest_of w'))
     (table_round (self pe) (prog_handlers pe timeout env) r w)"
proof (rule ends_but_mono)
  show "ends_but (closing (prog_handlers pe timeout env) (reported r)) (\<lambda>w'. table_ok (self pe) w' \<and> (alloc_ok (alloc pe) \<and> (\<exists>ph. prog_in pe ph (rest_of w')))
      \<and> ticked (self pe) (prog_handlers pe timeout env) (timer_due (reported r)) w w' \<and> (loop_idle w \<longrightarrow> loop_idle w')
      \<and> (\<forall>a \<in> dom (conns (snd w')). \<not> unheld (held_by (prog_handlers pe timeout env)) (conn_view a w')))
     (table_round (self pe) (prog_handlers pe timeout env) r w)"
    using assms by (intro echo_prog.round_ok) auto
  fix w'
  assume w': "table_ok (self pe) w' \<and> (alloc_ok (alloc pe) \<and> (\<exists>ph. prog_in pe ph (rest_of w')))
      \<and> ticked (self pe) (prog_handlers pe timeout env) (timer_due (reported r)) w w' \<and> (loop_idle w \<longrightarrow> loop_idle w')
      \<and> (\<forall>a \<in> dom (conns (snd w')). \<not> unheld (held_by (prog_handlers pe timeout env)) (conn_view a w'))"
  have held: "held_by (prog_handlers pe timeout env) = in_map" by (simp add: prog_handlers_def)
  show "table_ok (self pe) w' \<and> (loop_idle w \<longrightarrow> loop_idle w')
       \<and> (\<forall>a \<in> dom (conns (snd w')). \<not> unheld in_map (conn_view a w'))
       \<and> prog_in pe (if timer_due (reported r) then phase_tick (log pe) env ph else ph) (rest_of w')"
  proof (cases "timer_due (reported r)")
    case True
    then obtain v v' where v: "table_ok (self pe) v" "rest_of v = rest_of w" "prog_on_timer pe env v = Inr v'" "rest_of w' = rest_of v'"
      using w' by (auto simp: ticked_def prog_handlers_def)
    have "prog_in pe ph (rest_of v)" using v(2) assms(3) by simp
    from on_timer_tick[OF v(1) this assms(2), of env] v(3,4) w' True held show ?thesis by auto
  next
    case False
    then show ?thesis using w' assms(3) held by (simp add: ticked_def)
  qed
qed simp

subsection \<open>What \<open>main\<close> sets up\<close>

lemma timers_set_up:
  assumes "alloc_ok al"
  shows "\<exists>p q p2 q2. runEvery TimerTask al tid t0 timeout (Some OnTimeout) (main_loop tid fds, TimerQueue_new) = Inr (p, main_loop tid fds, q)
     \<and> runAfter TimerTask al tid t1 delay (Some StartCountdown) (main_loop tid fds', q) = Inr (p2, main_loop tid fds', q2)
     \<and> tq_ok (\<lambda>_. True) {} q2 \<and> tq_covered q2 \<and> p \<noteq> p2
     \<and> heap q2 = [p \<mapsto> Timer_new (Some OnTimeout) (t0 + timeout) timeout, p2 \<mapsto> Timer_new (Some StartCountdown) (t1 + delay) 0]"
proof -
  have "tq_ok (\<lambda>_. True) {} (TimerQueue_new :: echo_cb timerqueue)" "tq_covered (TimerQueue_new :: echo_cb timerqueue)"
    by (simp_all add: TimerQueue_new_def tq_ok_def tq_covered_def)
  from addTimerTask_ok[of "\<lambda>_. True" "{}" "(main_loop tid fds, TimerQueue_new)" tid al "Some OnTimeout" TimerTask "t0 + timeout" timeout]
    this assms obtain p q where
    q: "addTimerTask TimerTask al tid (Some OnTimeout) (t0 + timeout) timeout (main_loop tid fds, TimerQueue_new) = Inr (p, main_loop tid fds, q)"
      "tq_ok (\<lambda>_. True) {} q" "tq_covered q" "heap q = [p \<mapsto> Timer_new (Some OnTimeout) (t0 + timeout) timeout]"
    by (auto simp: TimerQueue_new_def)
  from addTimerTask_ok[of "\<lambda>_. True" "{}" "(main_loop tid fds', q)" tid al "Some StartCountdown" TimerTask "t1 + delay" 0]
    q(2,3) assms obtain p2 q2 where
    q2: "addTimerTask TimerTask al tid (Some StartCountdown) (t1 + delay) 0 (main_loop tid fds', q) = Inr (p2, main_loop tid fds', q2)"
      "tq_ok (\<lambda>_. True) {} q2" "tq_covered q2" "p2 \<notin> dom (heap q)"
      "heap q2 = (heap q)(p2 \<mapsto> Timer_new (Some StartCountdown) (t1 + delay) 0)" by auto
  then show ?thesis using q unfolding runEvery_def runAfter_def runAt_def
    by (intro exI[of _ p] exI[of _ q] exI[of _ p2] exI[of _ q2]) auto
qed

lemma echo_main_ok:
  assumes "sys_ok sys" "alloc_ok (alloc pe)"
  shows "\<exists>w. echo_main pe sys t0 t1 = Inr w \<and> table_ok (self pe) w \<and> loop_idle w \<and> conns (snd w) = Map.empty
     \<and> pendingJobs (fst w) = [] \<and> (\<forall>a fd. fd \<notin> {sys_timerfd sys, sys_eventfd sys, sys_socket sys} \<longrightarrow> fresh a fd w)
     \<and> prog_in pe (Waiting (t1 + 100000000000)) (rest_of w)"
proof -
  let ?fds = "[sys_timerfd sys, sys_eventfd sys]" and ?sock = "sys_socket sys"
  from startInLoop_ok[OF assms(1), of True "self pe" "InetAddress_port 9877 False" ?fds] obtain srv where
    srv: "startInLoop True (self pe) sys (InetAddress_port 9877 False) (main_loop (self pe) ?fds :: loop_task eventloop) = Inr (main_loop (self pe) (?fds @ [?sock]), srv)"
      "acceptChannel (srv_acceptor srv) = reading_chan ?sock" by blast
  from timers_set_up[OF assms(2), of "self pe" t0 5000000000 ?fds t1 100000000000 "?fds @ [?sock]"] obtain p q p2 q2 where
    q: "runEvery TimerTask (alloc pe) (self pe) t0 5000000000 (Some OnTimeout) (main_loop (self pe) ?fds, TimerQueue_new) = Inr (p, main_loop (self pe) ?fds, q)"
      "runAfter TimerTask (alloc pe) (self pe) t1 100000000000 (Some StartCountdown) (main_loop (self pe) (?fds @ [?sock]), q)
         = Inr (p2, main_loop (self pe) (?fds @ [?sock]), q2)"
      "tq_ok (\<lambda>_. True) {} q2" "tq_covered q2" "p \<noteq> p2"
      "heap q2 = [p \<mapsto> Timer_new (Some OnTimeout) (t0 + 5000000000) 5000000000, p2 \<mapsto> Timer_new (Some StartCountdown) (t1 + 100000000000) 0]" by blast
  have fds: "sys_timerfd sys \<noteq> -1" "sys_eventfd sys \<noteq> -1" "sys_timerfd sys \<noteq> sys_eventfd sys"
    using sys_okD[OF assms(1)] by simp_all
  obtain ts where ts: "setNumThread 1 TcpServerThreaded_new = Inr ts" by (simp add: setNumThread_def TcpServerThreaded_new_def)
  let ?l = "main_loop (self pe) (?fds @ [?sock]) :: loop_task eventloop"
  let ?t = "\<lparr>objs = [], conns = Map.empty, wakeupChnl = reading_chan (sys_eventfd sys), timerChnl = reading_chan (sys_timerfd sys),
    acceptChnl = reading_chan ?sock, timerq = q2, server = \<lparr>es_numThread = 1, es_timeout = 5000000000, es_timer = p,
    es_server = TcpServerThreaded_start ts, es_base = srv\<rparr>\<rparr> :: echo_prog"
  have quit: "?l\<lparr>quitting := False\<rparr> = ?l" by (simp add: main_loop_def)
  have run: "echo_main pe sys t0 t1 = Inr (?l, ?t)"
    using srv q(1,2) ts quit
    by (simp add: EventLoop_new_ok[OF fds] echo_main_def EchoServer_new_def EchoServer_start_def Let_def)
  note new = new_table_ok[OF assms(1), of ?t, simplified]
  have "prog_in pe (Waiting (t1 + 100000000000)) (rest_of (?l, ?t))"
    using q(3-6) by (auto simp: prog_in_def rest_of_def main_loop_def idle_but_def owned_def Timer_new_def intro!: exI[of _ p2])
  moreover have "pendingJobs ?l = []" by (simp add: main_loop_def)
  ultimately show ?thesis using run new by (intro exI[of _ "(?l, ?t)"]) simp
qed

subsection \<open>The clock of the shutdown over a run\<close>

fun shutdown_clock :: "logger \<Rightarrow> (round_env \<times> epoll_wait_result) list \<Rightarrow> phase \<Rightarrow> phase" where
  "shutdown_clock lg [] ph = ph"
| "shutdown_clock lg ((env, r) # rs) ph =
     (let ph' = (if timer_due (reported r) then phase_tick lg env ph else ph)
      in if ph' = Stopped then Stopped else shutdown_clock lg rs ph')"

text \<open>A round in which the timer descriptor is readable once the time \<open>b\<close> has come.\<close>

definition late :: "timestamp \<Rightarrow> round_env \<times> epoll_wait_result \<Rightarrow> bool" where
  "late b x \<longleftrightarrow> timer_due (reported (snd x)) \<and> b \<le> env_now (fst x)"

lemma clock_append:
  "shutdown_clock lg (xs @ ys) ph =
     (if shutdown_clock lg xs ph = Stopped then Stopped else shutdown_clock lg ys (shutdown_clock lg xs ph))"
  if "ph \<noteq> Stopped"
  using that by (induction lg xs ph rule: shutdown_clock.induct) (auto simp: Let_def)

lemma tick_cases:
  "phase_tick lg env (Waiting d) = (if d \<le> env_now env then Counting 5 (env_start env + 1000000000) else Waiting d)"
  "phase_tick lg env (Counting n d) = (if d \<le> env_now env
     then (if count_down lg n = 0 then Stopped else Counting (count_down lg n) (d + 1000000000)) else Counting n d)"
  by (simp_all add: phase_tick_def)

text \<open>A countdown that is due by \<open>b\<close> stops after as many late rounds as it has to count.\<close>

fun counting_by :: "timestamp \<Rightarrow> phase \<Rightarrow> bool" where
  "counting_by b (Counting n d) = (1 \<le> n \<and> n \<le> 5 \<and> d + (n - 1) * 1000000000 \<le> b)"
| "counting_by b ph = (ph = Stopped)"

lemma counting_stops:
  assumes "logLevel lg \<le> LOG_LEVEL_INFO" "counting_by b (Counting n d)" "n \<le> int (length (filter (late b) rs))"
  shows "shutdown_clock lg rs (Counting n d) = Stopped"
  using assms(2,3)
proof (induction rs arbitrary: n d)
  case Nil
  then show ?case by simp
next
  case (Cons x rs)
  obtain env r where x: "x = (env, r)" by (cases x)
  have c: "count_down lg n = n - 1" using assms(1) by (simp add: count_down_def)
  have d: "d \<le> b" using Cons.prems(1) by auto
  show ?case
  proof (cases "timer_due (reported r) \<and> d \<le> env_now env \<and> n \<noteq> 1")
    case True
    have "shutdown_clock lg rs (Counting (n - 1) (d + 1000000000)) = Stopped"
      using Cons.prems True by (intro Cons.IH) (auto simp: x split: if_splits)
    then show ?thesis using True c by (simp add: x tick_cases)
  next
    case False
    then have "\<not> (late b x \<and> n \<noteq> 1)" using d by (auto simp: late_def x)
    then have "late b x \<longrightarrow> n = 1" by blast
    then have "shutdown_clock lg rs (Counting n d) = Stopped" if "\<not> late b x" using that Cons by simp
    moreover have "\<not> (timer_due (reported r) \<and> d \<le> env_now env)" if "n \<noteq> 1" using False that by blast
    ultimately show ?thesis using c \<open>late b x \<longrightarrow> n = 1\<close> d
      by (cases "timer_due (reported r) \<and> d \<le> env_now env") (auto simp: x tick_cases late_def)
  qed
qed

lemma counting_keeps:
  assumes "logLevel lg \<le> LOG_LEVEL_INFO" "counting_by b ph" "ph \<noteq> Stopped"
  shows "counting_by b (shutdown_clock lg rs ph)"
  using assms
proof (induction lg rs ph rule: shutdown_clock.induct)
  case (2 lg env r rs ph)
  obtain n d where ph: "ph = Counting n d" using "2.prems" by (cases ph) auto
  have "counting_by b (phase_tick lg env ph)" using "2.prems" by (auto simp: ph tick_cases count_down_def)
  then show ?case using "2.IH" "2.prems" by (auto simp: Let_def)
qed simp

lemma waiting_keeps:
  assumes "logLevel lg \<le> LOG_LEVEL_INFO" "\<forall>(env, r) \<in> set rs. env_start env + 5000000000 \<le> b"
  shows "shutdown_clock lg rs (Waiting d) = Waiting d \<or> counting_by b (shutdown_clock lg rs (Waiting d))"
  using assms
proof (induction rs)
  case (Cons x rs)
  obtain env r where x: "x = (env, r)" by (cases x)
  have "counting_by b (Counting 5 (env_start env + 1000000000))" using Cons.prems by (simp add: x)
  from counting_keeps[OF Cons.prems(1) this] show ?case using Cons by (simp add: x tick_cases)
qed simp

lemma stops_late:
  assumes "logLevel lg \<le> LOG_LEVEL_INFO" "late d (env, r)" "5 \<le> length (filter (late b) rs2)"
    and "\<forall>(e, r) \<in> set (rs1 @ [(env, r)]). env_start e + 5000000000 \<le> b"
  shows "shutdown_clock lg (rs1 @ (env, r) # rs2) (Waiting d) = Stopped"
proof -
  let ?ph = "shutdown_clock lg (rs1 @ [(env, r)]) (Waiting d)"
  have "shutdown_clock lg (rs1 @ [(env, r)]) (Waiting d) \<noteq> Waiting d"
    using assms(2) waiting_keeps[OF assms(1), of rs1 b d] assms(4)
    by (cases "shutdown_clock lg rs1 (Waiting d)") (auto simp: clock_append tick_cases late_def)
  then have c: "counting_by b ?ph" using waiting_keeps[OF assms(1,4)] by blast
  have split: "rs1 @ (env, r) # rs2 = (rs1 @ [(env, r)]) @ rs2" by simp
  show ?thesis
  proof (cases ?ph)
    case (Counting n e)
    then have "shutdown_clock lg rs2 ?ph = Stopped"
      using c assms(3) counting_stops[OF assms(1), of b n e rs2] by simp
    then show ?thesis unfolding split by (subst clock_append) simp_all
  next
    case Stopped
    then show ?thesis unfolding split by (subst clock_append) simp_all
  qed (use c in simp)
qed

text \<open>It does not stop before its time, and never when the level keeps the lines of the countdown out.\<close>

lemma counting_not_early:
  "shutdown_clock lg rs (Counting n d) = Stopped \<Longrightarrow> 0 < n \<Longrightarrow> \<exists>x \<in> set rs. late (d + (n - 1) * 1000000000) x"
proof (induction rs arbitrary: n d)
  case (Cons x rs)
  obtain env r where x: "x = (env, r)" by (cases x)
  show ?case
  proof (cases "timer_due (reported r) \<and> d \<le> env_now env")
    case True
    show ?thesis
    proof (cases "count_down lg n = 0")
      case True
      then have "n = 1" using Cons.prems(2) by (auto simp: count_down_def split: if_splits)
      then show ?thesis using \<open>timer_due (reported r) \<and> d \<le> env_now env\<close> by (auto simp: x late_def)
    next
      case False
      then have "shutdown_clock lg rs (Counting (count_down lg n) (d + 1000000000)) = Stopped"
        using Cons.prems(1) True by (simp add: x tick_cases)
      moreover have "0 < count_down lg n" using False Cons.prems(2) by (auto simp: count_down_def)
      ultimately obtain y where "y \<in> set rs" "late (d + 1000000000 + (count_down lg n - 1) * 1000000000) y" using Cons.IH by blast
      moreover have "d + (n - 1) * 1000000000 \<le> d + 1000000000 + (count_down lg n - 1) * 1000000000"
        by (simp add: count_down_def)
      ultimately show ?thesis by (auto simp: late_def)
    qed
  next
    case False
    then have "shutdown_clock lg rs (Counting n d) = Stopped"
      using Cons.prems(1) by (auto simp: x tick_cases split: if_splits)
    then show ?thesis using Cons.IH Cons.prems(2) by auto
  qed
qed simp

lemma not_early:
  assumes "shutdown_clock lg rs (Waiting d) = Stopped" "\<forall>(env, r) \<in> set rs. env_now env \<le> env_start env"
  shows "\<exists>x \<in> set rs. late (d + 5000000000) x"
  using assms
proof (induction rs)
  case (Cons x rs)
  obtain env r where x: "x = (env, r)" by (cases x)
  show ?case
  proof (cases "timer_due (reported r) \<and> d \<le> env_now env")
    case True
    then have "shutdown_clock lg rs (Counting 5 (env_start env + 1000000000)) = Stopped"
      using Cons.prems(1) by (simp add: x tick_cases)
    from counting_not_early[OF this] obtain y where "y \<in> set rs" "late (env_start env + 5000000000) y" by (auto simp: add.commute)
    moreover have "d \<le> env_start env" using True Cons.prems(2) by (auto simp: x)
    ultimately show ?thesis by (auto simp: late_def)
  next
    case False
    then have "shutdown_clock lg rs (Waiting d) = Stopped" using Cons.prems(1) by (auto simp: x tick_cases split: if_splits)
    then show ?thesis using Cons by auto
  qed
qed simp

lemma quiet_never_stops:
  assumes "\<not> logLevel lg \<le> LOG_LEVEL_INFO" "ph \<noteq> Stopped" "\<And>n d. ph = Counting n d \<Longrightarrow> n \<noteq> 0"
  shows "shutdown_clock lg rs ph \<noteq> Stopped"
  using assms
proof (induction lg rs ph rule: shutdown_clock.induct)
  case (2 lg env r rs ph)
  let ?ph = "if timer_due (reported r) then phase_tick lg env ph else ph"
  have "?ph \<noteq> Stopped" "\<And>n d. ?ph = Counting n d \<Longrightarrow> n \<noteq> 0"
    using "2.prems" by (cases ph; auto simp: tick_cases count_down_def split: if_splits)+
  then show ?case using "2.IH" "2.prems"(1) by (simp add: Let_def)
qed simp

subsection \<open>Runs of the program\<close>

definition prog_start :: "prog_env \<Rightarrow> prog_world \<Rightarrow> bool" where
  "prog_start pe w \<longleftrightarrow> alloc_ok (alloc pe) \<and> (\<exists>sys t0 t1. sys_ok sys \<and> echo_main pe sys t0 t1 = Inr w)"

inductive prog_step :: "prog_env \<Rightarrow> prog_world \<Rightarrow> prog_world \<Rightarrow> bool" for pe where
  round: "\<not> quitting (fst w) \<Longrightarrow> deliverable w r \<Longrightarrow>
     table_round (self pe) (prog_handlers pe 5000000000 env) r w = Inr w' \<Longrightarrow> prog_step pe w w'"

definition prog_ok :: "prog_env \<Rightarrow> prog_world \<Rightarrow> bool" where
  "prog_ok pe w \<longleftrightarrow> table_ok (self pe) w \<and> alloc_ok (alloc pe) \<and> loop_idle w
     \<and> (\<forall>a \<in> dom (conns (snd w)). \<not> unheld in_map (conn_view a w)) \<and> (\<exists>ph. prog_in pe ph (rest_of w))"

lemma prog_start_ok: "prog_start pe w \<Longrightarrow> prog_ok pe w"
proof -
  assume "prog_start pe w"
  then obtain sys t0 t1 where "sys_ok sys" "alloc_ok (alloc pe)" "echo_main pe sys t0 t1 = Inr w" by (auto simp: prog_start_def)
  with echo_main_ok[of sys pe t0 t1] show "prog_ok pe w" by (auto simp: prog_ok_def)
qed

lemma prog_round_ok:
  "prog_ok pe w \<Longrightarrow> deliverable w r \<Longrightarrow>
   ends_but (closing (prog_handlers pe timeout env) (reported r)) (prog_ok pe) (table_round (self pe) (prog_handlers pe timeout env) r w)"
  unfolding prog_ok_def by (elim conjE exE, rule ends_but_mono[OF prog_round], assumption+) auto

interpretation echo_system: safe_system "prog_start pe" "prog_step pe" "prog_ok pe" for pe
proof unfold_locales
  show "prog_ok pe w'" if "prog_ok pe w" "prog_step pe w w'" for w w'
    using that(2)
  proof cases
    case (round r env)
    then show ?thesis using prog_round_ok[OF that(1) round(2), of 5000000000 env] by simp
  qed
qed (rule prog_start_ok)

text \<open>What the kernel delivers in the rounds of a run is possible in the state each round finds.\<close>

fun deliverable_run :: "prog_env \<Rightarrow> int \<Rightarrow> (round_env \<times> epoll_wait_result) list \<Rightarrow> prog_world \<Rightarrow> bool" where
  "deliverable_run pe timeout [] w \<longleftrightarrow> True"
| "deliverable_run pe timeout ((env, r) # rs) w \<longleftrightarrow> deliverable w r
     \<and> (case table_round (self pe) (prog_handlers pe timeout env) r w of
          Inl e \<Rightarrow> True | Inr w' \<Rightarrow> quitting (fst w') \<or> deliverable_run pe timeout rs w')"

definition peers_close :: "prog_env \<Rightarrow> int \<Rightarrow> (round_env \<times> epoll_wait_result) list \<Rightarrow> bool" where
  "peers_close pe timeout rs \<longleftrightarrow> (\<exists>(env, r) \<in> set rs. closing (prog_handlers pe timeout env) (reported r))"

lemma prog_in_quit: "prog_in pe ph (rest_of w) \<Longrightarrow> quitting (fst w) \<longleftrightarrow> ph = Stopped"
  by (cases ph) (auto simp: prog_in_def)

lemma prog_loop_clock:
  assumes "table_ok (self pe) w" "alloc_ok (alloc pe)" "prog_in pe ph (rest_of w)" "ph \<noteq> Stopped" "deliverable_run pe timeout rs w" "loop_idle w"
    "\<forall>a \<in> dom (conns (snd w)). \<not> unheld in_map (conn_view a w)"
  shows "ends_but (peers_close pe timeout rs) (\<lambda>(w', returned). prog_ok pe w' \<and> prog_in pe (shutdown_clock (log pe) rs ph) (rest_of w')
       \<and> returned = (shutdown_clock (log pe) rs ph = Stopped)) (prog_loop pe timeout rs w)"
  using assms
proof (induction rs arbitrary: w ph)
  case Nil
  then show ?case by (auto simp: prog_ok_def)
next
  case (Cons x rs)
  obtain env r where x: "x = (env, r)" by (cases x)
  let ?ph = "if timer_due (reported r) then phase_tick (log pe) env ph else ph"
  let ?it = "table_round (self pe) (prog_handlers pe timeout env) r w"
  have d: "deliverable w r" using Cons.prems(5) by (simp add: x)
  note round = prog_round[OF Cons.prems(1-3) d, of timeout env]
  show ?case
  proof (cases ?it)
    case (Inl e)
    then show ?thesis using round by (auto simp: x peers_close_def)
  next
    case (Inr w')
    then have w': "table_ok (self pe) w'" "prog_in pe ?ph (rest_of w')" "loop_idle w'"
      "\<forall>a \<in> dom (conns (snd w')). \<not> unheld in_map (conn_view a w')" using round Cons.prems(6) by simp_all
    note q = prog_in_quit[OF w'(2)]
    show ?thesis
    proof (cases "?ph = Stopped")
      case True
      then have "shutdown_clock (log pe) (x # rs) ph = Stopped" by (simp add: x Let_def)
      then show ?thesis using True Inr w' q Cons.prems(2) w' by (auto simp: x prog_ok_def)
    next
      case False
      then have "shutdown_clock (log pe) (x # rs) ph = shutdown_clock (log pe) rs ?ph" by (simp add: x Let_def)
      moreover have "deliverable_run pe timeout rs w'" using Cons.prems(5) Inr q False by (simp add: x)
      moreover have "peers_close pe timeout rs \<Longrightarrow> peers_close pe timeout (x # rs)" by (auto simp: peers_close_def)
      ultimately show ?thesis using ends_but_mono[OF Cons.IH[OF w'(1) Cons.prems(2) w'(2) False _ w'(3,4)]] Inr q False by (simp add: x)
    qed
  qed
qed

subsection \<open>Properties\<close>

lemma prog_okD:
  assumes "prog_ok pe w"
  shows "table_ok (self pe) w" "tq_ok (\<lambda>_. True) {} (timerq (snd w))" "tq_covered (timerq (snd w))"
    "conns (snd w) a = Some c \<Longrightarrow> state c = kDisconnected \<Longrightarrow> in_map c \<or> own_tasks a (pendingJobs (fst w)) \<noteq> []"
proof -
  show "table_ok (self pe) w" "tq_ok (\<lambda>_. True) {} (timerq (snd w))" "tq_covered (timerq (snd w))"
    using assms by (auto simp: prog_ok_def prog_in_def prog_fields)
  have "\<not> unheld in_map (conn_view a w)" if "conns (snd w) a = Some c" using assms domI[of "conns (snd w)" a] that by (simp add: prog_ok_def)
  then show "in_map c \<or> own_tasks a (pendingJobs (fst w)) \<noteq> []" if "conns (snd w) a = Some c" "state c = kDisconnected"
    using that by (auto simp: unheld_def)
qed


text \<open>
  C17. A client that leaves takes the echo server down. In every state the server can reach, when epoll
  reports that the peer of a connection hung up, or that its stream can be read and \<open>read\<close> finds its
  end, and none of the connection's tasks is pending, the round ends the program: the callback erases the
  last pointers, those in the server's set and in the map, and the connection is destroyed while
  its channel handles the event.
\<close>

theorem echo_peer_close_aborts:
  assumes "reach (prog_start pe) (prog_step pe) w" "conns (snd w) a = Some c" "reportable m c" "own_tasks a (pendingJobs (fst w)) = []"
    and "wants_close m \<or> wants_read m \<and> io_read (env_io env a) = (\<lambda>_. ReadOk [])"
  shows "table_round (self pe) (prog_handlers pe 5000000000 env) (Ready [(a + 3, m)]) w = Inl ChannelInUse"
proof (rule echo_prog.round_aborts[OF _ assms(2-4)])
  show "table_ok (self pe) w" by (rule prog_okD(1)[OF echo_system.reach_inv[OF assms(1)]])
  show "wants_close m \<or> wants_read m \<and> (\<forall>n. io_read (io_of (prog_handlers pe 5000000000 env) a) n = ReadOk [])"
    using assms(5) by (auto simp: prog_handlers_def bounded_def)
  show "\<exists>v'. on_close (user_of (prog_handlers pe 5000000000 env) a) v = Inr v' \<and> state (snd v') = kDisconnected
      \<and> \<not> held_by (prog_handlers pe 5000000000 env) (snd v') \<and> pendingJobs (fst v') = pendingJobs (fst v)"
    if "state (snd v) = kDisconnected" for v
    using that by (simp add: prog_handlers_def echo_user_def echo_onConnection_def TcpConnection_connected_def in_map_def)
qed


text \<open>The destructors: the idle check is cancelled, then the connections that are open go, then the timers.\<close>

lemma main_end_loop_ok:
  assumes "tq_ok (\<lambda>_. True) {} (timerq (snd w))" "loop_idle w"
  shows "\<exists>w'. main_end_loop w = Inr w' \<and> heap (timerq (snd w')) = Map.empty"
proof -
  have idle: "\<not> handlingEvents (loop_chan w p)" if "p < 3" for p using assms(2) that by (simp add: loop_idle_def)
  have "\<not> handlingEvents (wakeupChnl (snd w))" "\<not> handlingEvents (timerChnl (snd w))" "\<not> handlingEvents (acceptChnl (snd w))"
    using idle[of 0] idle[of 1] idle[of 2] by (simp_all add: loop_chan_def)
  then show ?thesis using TimerQueue_delete_ok[OF assms(1)] by (auto simp: main_end_loop_def Channel_delete_def)
qed

lemma main_end_steps:
  assumes w: "table_ok (self pe) w" "tq_ok (\<lambda>_. True) {} (timerq (snd w))" "owned (es_timer (server (snd w))) (timerq (snd w))"
  shows "\<exists>w2. conns (snd w2) = conns (snd w) \<and> tq_ok (\<lambda>_. True) {} (timerq (snd w2)) \<and> (loop_idle w \<longrightarrow> loop_idle w2)
     \<and> echo_main_end pe w = bindR (foldR (\<lambda>a u. bindR (TcpConnection_delete (the (conns (snd u) a))) (\<lambda>_. Inr u))
           (filter (\<lambda>a. state (the (conns (snd w) a)) \<noteq> kDisconnected) (objs (snd w))) w2)
         main_end_loop"
proof -
  note ok = table_okD[OF w(1)]
  let ?p = "es_timer (server (snd w))"
  obtain l q where lq: "to_queue w = (l, q)" "l = fst w" "tq_ok (\<lambda>_. True) {} q" "conn_table q = table.truncate (snd w)"
    using w(2) by (simp add: to_queue_def timerqueue.defs[abs_def] tq_ok_def)
  have "heap q = heap (timerq (snd w))" using lq(1) by (auto simp: to_queue_def)
  then obtain t where "heap q ?p = Some t" using w(3) by (auto simp: owned_def)
  from cancel_in_loop_ok[OF lq(3) this] obtain q2 where
    q2: "cancel_in_loop ?p q = Inr q2" "tq_ok (\<lambda>_. True) {} q2" by auto
  have more: "timerqueue.more q2 = timerqueue.more q"
    using q2(1) by (auto simp: cancel_in_loop_def deref_def result_iffs split: option.splits)
  let ?w2 = "of_queue (l, q2)"
  have tab: "objs (snd ?w2) = objs (snd w)" "conns (snd ?w2) = conns (snd w)"
    using more_fields[OF more] lq(4) by (simp_all add: of_queue_def)
  have "loop_idle ?w2 = loop_idle w"
    using more_fields[OF more] lq(4) by (simp add: loop_idle_def loop_chan_def of_queue_def)
  moreover have cancel: "EventLoop_cancelTimer TimerTask (self pe) ?p (to_queue w) = Inr (l, q2)"
    using ok(1) q2(1) lq(1,2) by (simp add: EventLoop_cancelTimer_def TimerQueue_cancelTimer_def runInLoop_def)
  moreover have "tq_ok (\<lambda>_. True) {} (timerq (snd ?w2))" using q2(2) by (simp add: of_queue_def table.defs)
  ultimately show ?thesis using tab by (intro exI[of _ ?w2]) (simp add: echo_main_end_def)
qed

text \<open>
  C20. The end of \<open>main\<close>. When the loop has returned, the destructors abort if a connection is still open: the
  base server takes its set of connections with it, and a connection asserts in its destructor that it is
  disconnected. Otherwise they return and free every timer, those of the countdown included.
\<close>

theorem echo_main_ends:
  assumes "reach (prog_start pe) (prog_step pe) w"
  shows "((\<exists>a c. conns (snd w) a = Some c \<and> state c \<noteq> kDisconnected) \<longrightarrow> echo_main_end pe w = Inl AssertFailed)
     \<and> ((\<forall>a c. conns (snd w) a = Some c \<longrightarrow> state c = kDisconnected)
          \<longrightarrow> (\<exists>w'. echo_main_end pe w = Inr w' \<and> heap (timerq (snd w')) = Map.empty))"
proof -
  have "prog_ok pe w" by (rule echo_system.reach_inv[OF assms])
  then have w: "table_ok (self pe) w" "tq_ok (\<lambda>_. True) {} (timerq (snd w))" "owned (es_timer (server (snd w))) (timerq (snd w))"
    and idle: "loop_idle w" by (auto simp: prog_ok_def prog_in_def prog_fields)
  note ok = table_okD[OF w(1)]
  let ?open = "filter (\<lambda>a. state (the (conns (snd w) a)) \<noteq> kDisconnected) (objs (snd w))"
  from main_end_steps[OF w] obtain w2 where w2: "conns (snd w2) = conns (snd w)" "tq_ok (\<lambda>_. True) {} (timerq (snd w2))" "loop_idle w2"
    and run: "echo_main_end pe w = bindR (foldR (\<lambda>a u. bindR (TcpConnection_delete (the (conns (snd u) a))) (\<lambda>_. Inr u)) ?open w2)
      main_end_loop" using idle by blast
  have "echo_main_end pe w = Inl AssertFailed" if "conns (snd w) a = Some c" "state c \<noteq> kDisconnected" for a c
  proof -
    have "a \<in> set ?open" using that ok(4) by auto
    then obtain b bs where o: "?open = b # bs" by (cases ?open) auto
    then have "b \<in> set ?open" by simp
    then have "state (the (conns (snd w) b)) \<noteq> kDisconnected" by simp
    then show ?thesis unfolding run o by (simp add: TcpConnection_delete_def w2(1))
  qed
  moreover have "\<exists>w'. echo_main_end pe w = Inr w' \<and> heap (timerq (snd w')) = Map.empty"
    if "\<forall>a c. conns (snd w) a = Some c \<longrightarrow> state c = kDisconnected"
  proof -
    have "?open = []" using that ok(4) by (fastforce simp: filter_empty_conv)
    then show ?thesis using main_end_loop_ok[OF w2(2,3)] unfolding run by auto
  qed
  ultimately show ?thesis by blast
qed

text \<open>
  C21. The idle check over the whole map. In every state the server can reach, and for any readings of
  the clock, \<open>onTimeout\<close> visits each entry of \<open>connections_\<close> once, without invalidating its iterator:
  for each connection whose entry has expired the entry is gone; if it was not yet closed it is
  disconnecting and exactly one task to close it is queued, in the order of the map, behind the tasks
  already there; if it was closed and none of its tasks is pending, it is destroyed with its entry; no
  other connection changes.
\<close>

theorem echo_timeout_sweep:
  assumes "reach (prog_start pe) (prog_step pe) w"
  shows "\<exists>w'. echo_idle_check (self pe) clock w = Inr w'
     \<and> pendingJobs (fst w') = pendingJobs (fst w) @ map (\<lambda>a. ConnTask a ForceCloseInLoop) (filter (closes clock w) (objs (snd w)))
     \<and> (\<forall>a. conns (snd w') a = (case conns (snd w) a of None \<Rightarrow> None | Some c \<Rightarrow>
          if state c = kDisconnected \<and> timed_out (clock a) c \<and> own_tasks a (pendingJobs (fst w)) = [] then None else Some (swept (clock a) c)))"
proof -
  have w: "prog_ok pe w" by (rule echo_system.reach_inv[OF assms])
  have held: "timed_out (clock a) c \<or> \<not> in_map c \<longleftrightarrow> timed_out (clock a) c"
    if "conns (snd w) a = Some c" "state c = kDisconnected" "own_tasks a (pendingJobs (fst w)) = []" for a c
    using prog_okD(4)[OF w that(1,2)] that(3) by simp
  from idle_check_ok[OF prog_okD(1)[OF w], of clock] obtain w' where
    w': "echo_idle_check (self pe) clock w = Inr w'"
      "pendingJobs (fst w') = pendingJobs (fst w) @ map (\<lambda>a. ConnTask a ForceCloseInLoop) (filter (closes clock w) (objs (snd w)))"
      "\<And>a. conns (snd w) a = None \<Longrightarrow> conns (snd w') a = None"
      "\<And>a c. conns (snd w) a = Some c \<Longrightarrow> conns (snd w') a =
          (if state c = kDisconnected \<and> (timed_out (clock a) c \<or> \<not> in_map c) \<and> own_tasks a (pendingJobs (fst w)) = [] then None
           else Some (swept (clock a) c))" by blast
  have "conns (snd w') a = (case conns (snd w) a of None \<Rightarrow> None | Some c \<Rightarrow>
          if state c = kDisconnected \<and> timed_out (clock a) c \<and> own_tasks a (pendingJobs (fst w)) = [] then None else Some (swept (clock a) c))" for a
    using w'(3)[of a] w'(4)[of a] held[of a] by (cases "conns (snd w) a") auto
  then show ?thesis using w'(1,2) by blast
qed

subsection \<open>Witnesses\<close>

text \<open>A connection that is open at the end of an iteration is still there after the round.\<close>

lemma round_after:
  assumes w: "prog_ok pe w" "deliverable w r" and it: "loop_iteration (self pe) (table_client (self pe) (prog_handlers pe timeout env)) r w = Inr v"
    and c: "conns (snd v) a = Some c" "state c \<noteq> kDisconnected"
  shows "\<exists>w'. table_round (self pe) (prog_handlers pe timeout env) r w = Inr w' \<and> conns (snd w') a = Some c
     \<and> pendingJobs (fst w') = pendingJobs (fst v)"
proof -
  have held: "held_by (prog_handlers pe timeout env) = in_map" by (simp add: prog_handlers_def)
  from echo_prog.iteration_ok[OF prog_okD(1)[OF w(1)] _ w(2), of timeout env] w(1) have "table_ok (self pe) v"
    by (auto simp: it prog_ok_def)
  from reap_ok[OF this, of in_map] obtain w' where
    w': "reap in_map v = Inr w'" "pendingJobs (fst w') = pendingJobs (fst v)"
      "conns (snd w') = (\<lambda>b. if unheld in_map (conn_view b v) then None else conns (snd v) b)" by blast
  have "\<not> unheld in_map (conn_view a v)" using c by (simp add: unheld_def)
  then show ?thesis using it w' c(1) by (simp add: table_round_def held)
qed

text \<open>A round in which the acceptor delivers a socket.\<close>

lemma accept_round:
  assumes w: "prog_ok pe w" and p: "pendingJobs (fst w) = []" and f: "fresh a fd w"
    and e: "env_accept env = Some (a, fd, addr, stack)"
  shows "\<exists>w' c. table_round (self pe) (prog_handlers pe timeout env) (Ready [(2, EPOLLIN)]) w = Inr w' \<and> pendingJobs (fst w') = []
     \<and> conns (snd w') a = Some c \<and> state c = kConnected \<and> expiry c = Some (env_clock env a + timeout)"
proof -
  let ?cl = "table_client (self pe) (prog_handlers pe timeout env)" and ?tid = "self pe"
  let ?ep = "if Suc 0 = evCapacity (poller (fst w)) then (poller (fst w))\<lparr>evCapacity := 2 * evCapacity (poller (fst w))\<rparr> else poller (fst w)"
  let ?chs = "(table_chans w)(2 \<mapsto> setRevents EPOLLIN (acceptChnl (snd w)))"
  let ?w1 = "table_set_chans ?chs ((fst w)\<lparr>poller := ?ep\<rparr>, snd w)"
  have ok: "table_ok ?tid w" and inv: "rest_cbs (rest_of w) = [[ReadCb], [ReadCb], [ReadCb]]"
    using w by (auto simp: prog_ok_def prog_in_def)
  have poll: "Poll (Ready [(2, EPOLLIN)]) (poller (fst w)) (table_chans w) = Inr (?ep, ?chs, [2])"
    by (simp add: Poll_def)
  have ok1: "table_ok ?tid ?w1"
    by (rule table_ok_set_chans[OF ok]) auto
  let ?upd = "\<lambda>b. upd_chan ?cl 2 (\<lambda>ch. ch\<lparr>handlingEvents := b\<rparr>)"
  have ch: "table_chans ?w1 2 = Some (setRevents EPOLLIN (acceptChnl (snd w)))" by (simp add: table_set_chans_def)
  have cbs: "callbacks (acceptChnl (snd w)) = [ReadCb]" using inv by (simp add: rest_cbs_iff)
  have two: "(2 :: nat) < 3" by simp
  note upd = upd_loop_chan[OF two, where tid = ?tid and h = "prog_handlers pe timeout env"] upd_loop_chan_ok[OF two]
  have ok2: "table_ok ?tid (?upd True ?w1)" by (rule upd(5)[OF ok1])
  have same: "conns (snd (?upd b v)) = conns (snd v)" "pendingJobs (fst (?upd b v)) = pendingJobs (fst v)"
    "threadId (fst (?upd b v)) = threadId (fst v)" "poller (fst (?upd b v)) = poller (fst v)"
    "map chfd (all_chans (snd (?upd b v))) = map chfd (all_chans (snd v))" for b v
  proof -
    have c: "conns (snd (?upd b v)) = conns (snd v)"
      by (auto simp: upd_chan_def table_client_def table_set_chans_def fun_eq_iff intro: option.map_ident_strong)
    show "conns (snd (?upd b v)) = conns (snd v)" "pendingJobs (fst (?upd b v)) = pendingJobs (fst v)"
      "threadId (fst (?upd b v)) = threadId (fst v)" "poller (fst (?upd b v)) = poller (fst v)"
      "map chfd (all_chans (snd (?upd b v))) = map chfd (all_chans (snd v))"
      using c by (simp_all add: upd_chan_def table_client_def table_set_chans_def all_chans_def)
  qed
  have c1: "conns (snd ?w1) = conns (snd w)"
    by (auto simp: table_set_chans_def fun_eq_iff intro: option.map_ident_strong)
  have "map chfd (all_chans (snd ?w1)) = map chfd (all_chans (snd w))"
    using c1 by (simp add: table_set_chans_def all_chans_def setRevents_def)
  then have f2: "fresh a fd (?upd True ?w1)" using f c1 unfolding fresh_def same by (simp add: table_set_chans_def)
  from echo_newConnection_ok[OF ok2 f2, of timeout "env_clock env a" "acc_local (srv_acceptor (es_base (server (snd (?upd True ?w1)))))"
      "setAddress (sockaddr_of (store_addr 1 addr stack)) (InetAddress_port 0 False)"] obtain w2 c where
    w2: "prog_on_accept pe timeout env (?upd True ?w1) = Inr w2" "pendingJobs (fst w2) = pendingJobs (fst (?upd True ?w1))"
      "threadId (fst w2) = threadId (fst (?upd True ?w1))" "rest_of w2 = rest_of (?upd True ?w1)"
      "conns (snd w2) a = Some c" "state c = kConnected" "expiry c = Some (env_clock env a + timeout)"
    using table_okD(1)[OF ok2] f2 by (auto simp: prog_on_accept_def e Acceptor_handleRead_def)
  have cb2: "callbacks (acceptChnl (snd w2)) = [ReadCb]"
    using w2(4) upd(4)[of True ?w1] rest_poll[OF poll, of "(fst w)\<lparr>poller := ?ep\<rparr>"] inv
    by (metis rest_cbs_iff rest_simps(1))
  have run: "handleEventsWithGuard (\<lambda>w. table_chans w 2) (upd_chan ?cl 2) (on_event ?cl 2) ?w1 = Inr (?upd False w2)"
  proof (subst dispatch_read)
    show "table_chans ?w1 2 = Some (setRevents EPOLLIN (acceptChnl (snd w)))" by (rule ch)
    show "table_chans (?upd b v) 2 = map_option (\<lambda>ch. ch\<lparr>handlingEvents := b\<rparr>) (table_chans v 2)" for b v by (rule upd(2))
    have ev: "on_event ?cl 2 ReadCb v = prog_on_accept pe timeout env v" for v by (simp add: table_client_def prog_handlers_def)
    show "\<exists>ch'. table_chans w' 2 = Some ch' \<and> callbacks ch' = [ReadCb]" if "on_event ?cl 2 ReadCb (?upd True ?w1) = Inr w'" for w'
      using that w2(1) cb2 by (simp add: ev)
    have "wants_read EPOLLIN" by (simp add: wants_read_def epoll_bits)
    then show "bindR (if wants_read (revents (setRevents EPOLLIN (acceptChnl (snd w)))) then on_event ?cl 2 ReadCb (?upd True ?w1)
        else Inr (?upd True ?w1)) (\<lambda>w'. Inr (?upd False w')) = Inr (?upd False w2)"
      using w2(1) by (simp add: ev setRevents_def)
  qed (use cbs in \<open>simp add: setRevents_def\<close>)
  have thr: "isInLoopThread ?tid (fst ?w1)" "isInLoopThread ?tid (fst (?upd False w2))"
    using table_okD(1)[OF ok1] w2(3) by (simp_all add: isInLoopThread_def same)
  have "pendingJobs (fst (?upd False w2)) = []" using w2(2) p by (simp add: same table_set_chans_def)
  then have "doPendingJobs ?tid (run_task ?cl) (?upd False w2) = Inr ((fst (?upd False w2))\<lparr>pendingJobs := [], doingPendingJobs := False\<rparr>, snd (?upd False w2))"
    using thr(2) by (simp add: doPendingJobs_def Let_def)
  moreover have "get_chans ?cl = table_chans" "set_chans ?cl = table_set_chans" by (simp_all add: table_client_def)
  ultimately have it: "loop_iteration ?tid ?cl (Ready [(2, EPOLLIN)]) w
      = Inr ((fst (?upd False w2))\<lparr>pendingJobs := [], doingPendingJobs := False\<rparr>, snd (?upd False w2))"
    using table_okD(1)[OF ok] poll run thr(1) by (simp add: loop_iteration_def Channel_handleEvents_def)
  moreover have "conns (snd (?upd False w2)) = conns (snd w2)" by (rule same)
  moreover have "deliverable w (Ready [(2, EPOLLIN)])" by (simp add: deliverable_def)
  ultimately show ?thesis using round_after[OF w _ it, of a c] w2(5-7) by fastforce
qed

text \<open>A program, the results of its system calls, and the state in which it has accepted one client.\<close>

definition demo_prog :: prog_env where
  "demo_prog = \<lparr>self = 1, alloc = first_fit, log = logger_init\<lparr>logLevel := LOG_LEVEL_TRACE\<rparr>\<rparr>"

definition demo_sys :: sys_results where
  "demo_sys = \<lparr>sys_timerfd = 5, sys_eventfd = 6, sys_socket = 7, sys_reuseaddr = 0, sys_reuseport = 0, sys_bind = 0, sys_listen = 0\<rparr>"

definition demo_round :: "timestamp \<Rightarrow> round_env" where
  "demo_round t = \<lparr>env_io = (\<lambda>_. \<lparr>io_read = (\<lambda>_. ReadFail 5), io_write = WriteOk\<rparr>), env_clock = (\<lambda>_. t),
     env_now = t, env_start = t, env_accept = Some (9, 8, [], [])\<rparr>"

lemma demo_ok: "alloc_ok (alloc demo_prog)" "sys_ok demo_sys"
  by (simp_all add: demo_prog_def first_fit_ok sys_ok_def demo_sys_def)

lemma demo_started:
  "\<exists>w. echo_main demo_prog demo_sys 0 0 = Inr w \<and> reach (prog_start demo_prog) (prog_step demo_prog) w \<and> prog_ok demo_prog w
     \<and> conns (snd w) = Map.empty \<and> pendingJobs (fst w) = [] \<and> fresh 9 8 w \<and> \<not> quitting (fst w)"
proof -
  from echo_main_ok[OF demo_ok(2,1), of 0 0] obtain w where
    w: "echo_main demo_prog demo_sys 0 0 = Inr w" "conns (snd w) = Map.empty" "pendingJobs (fst w) = []" "fresh 9 8 w"
      "prog_in demo_prog (Waiting 100000000000) (rest_of w)" by (auto simp: demo_sys_def)
  have "prog_start demo_prog w" using w(1) demo_ok by (auto simp: prog_start_def)
  then show ?thesis using w prog_in_quit[OF w(5)] prog_start_ok by (blast intro: reach_start)
qed

lemma demo_accepted:
  "\<exists>w c. reach (prog_start demo_prog) (prog_step demo_prog) w \<and> conns (snd w) 9 = Some c \<and> state c = kConnected
     \<and> expiry c = Some 5000000002 \<and> pendingJobs (fst w) = []"
proof -
  from demo_started obtain w where w: "reach (prog_start demo_prog) (prog_step demo_prog) w" "prog_ok demo_prog w"
    "pendingJobs (fst w) = []" "fresh 9 8 w" "\<not> quitting (fst w)" by blast
  have "env_accept (demo_round 2) = Some (9, 8, [], [])" by (simp add: demo_round_def)
  from accept_round[OF w(2-4) this] obtain w' c where
    w': "table_round (self demo_prog) (prog_handlers demo_prog 5000000000 (demo_round 2)) (Ready [(2, EPOLLIN)]) w = Inr w'"
      "conns (snd w') 9 = Some c" "state c = kConnected" "expiry c = Some (env_clock (demo_round 2) 9 + 5000000000)"
      "pendingJobs (fst w') = []" by blast
  have "deliverable w (Ready [(2, EPOLLIN)])" by (simp add: deliverable_def)
  then have "reach (prog_start demo_prog) (prog_step demo_prog) w'"
    using w(5) w'(1) by (intro reach_step[OF w(1)] prog_step.round)
  moreover have "env_clock (demo_round 2) 9 + 5000000000 = 5000000002" by (simp add: demo_round_def)
  ultimately show ?thesis using w'(2-5) by metis
qed


text \<open>The client closes.\<close>

definition leaving :: round_env where
  "leaving = (demo_round 3)\<lparr>env_io := (\<lambda>_. \<lparr>io_read = (\<lambda>_. ReadOk []), io_write = WriteOk\<rparr>)\<rparr>"

theorem echo_peer_close_aborts_witness:
  "\<exists>w. reach (prog_start demo_prog) (prog_step demo_prog) w
     \<and> table_round 1 (prog_handlers demo_prog 5000000000 leaving) (Ready [(12, EPOLLIN)]) w = Inl ChannelInUse"
proof -
  from demo_accepted obtain w c where w: "reach (prog_start demo_prog) (prog_step demo_prog) w" "conns (snd w) 9 = Some c"
    "state c = kConnected" "pendingJobs (fst w) = []" by blast
  have m: "\<not> wants_close EPOLLIN" "wants_read EPOLLIN" "\<not> wants_write EPOLLIN"
    by (simp_all add: wants_close_def wants_read_def wants_write_def epoll_bits)
  then have "reportable EPOLLIN c" using w(3) by (simp add: reportable_def)
  moreover have "io_read (env_io leaving 9) = (\<lambda>_. ReadOk [])" by (simp add: leaving_def)
  moreover have "self demo_prog = 1" by (simp add: demo_prog_def)
  ultimately show ?thesis using echo_peer_close_aborts[OF w(1,2), of EPOLLIN leaving] w(1,4) m(2) by (intro exI[of _ w]) simp
qed

theorem echo_timeout_sweep_witness:
  "\<exists>w w'. reach (prog_start demo_prog) (prog_step demo_prog) w \<and> echo_idle_check 1 (\<lambda>_. 6000000000) w = Inr w'
     \<and> ConnTask 9 ForceCloseInLoop \<in> set (pendingJobs (fst w')) \<and> (\<exists>c. conns (snd w') 9 = Some c \<and> state c = kDisconnecting \<and> expiry c = None)"
proof -
  from demo_accepted obtain w c where w: "reach (prog_start demo_prog) (prog_step demo_prog) w" "conns (snd w) 9 = Some c"
    "state c = kConnected" "expiry c = Some 5000000002" by blast
  have c: "closes (\<lambda>_. 6000000000) w 9" "swept 6000000000 c = c\<lparr>state := kDisconnecting, expiry := None\<rparr>" "self demo_prog = 1"
    using w by (simp_all add: closes_def timed_out_def swept_def demo_prog_def)
  have "table_ok (self demo_prog) w" using echo_system.reach_inv[OF w(1)] by (simp add: prog_ok_def)
  then have o: "9 \<in> set (objs (snd w))" using table_okD(4)[of "self demo_prog" w] w(2) by auto
  from echo_timeout_sweep[OF w(1), of "\<lambda>_. 6000000000"] obtain w' where
    w': "echo_idle_check (self demo_prog) (\<lambda>_. 6000000000) w = Inr w'"
      "pendingJobs (fst w') = pendingJobs (fst w) @ map (\<lambda>a. ConnTask a ForceCloseInLoop) (filter (closes (\<lambda>_. 6000000000) w) (objs (snd w)))"
      "conns (snd w') 9 = Some (swept 6000000000 c)" using w(2,3) by auto
  have "ConnTask 9 ForceCloseInLoop \<in> set (pendingJobs (fst w'))" using o c(1) w'(2) by auto
  then show ?thesis using w(1) w'(1,3) c(2,3) by (intro exI[of _ w] exI[of _ w']) simp
qed

theorem echo_main_ends_witness:
  "(\<exists>w. reach (prog_start demo_prog) (prog_step demo_prog) w \<and> echo_main_end demo_prog w = Inl AssertFailed)
   \<and> (\<exists>w w'. reach (prog_start demo_prog) (prog_step demo_prog) w \<and> echo_main_end demo_prog w = Inr w')"
proof -
  from demo_accepted obtain w c where w: "reach (prog_start demo_prog) (prog_step demo_prog) w" "conns (snd w) 9 = Some c"
    "state c \<noteq> kDisconnected" by auto
  have "echo_main_end demo_prog w = Inl AssertFailed" using echo_main_ends[OF w(1)] w(2,3) by blast
  moreover from demo_started obtain v where v: "reach (prog_start demo_prog) (prog_step demo_prog) v" "conns (snd v) = Map.empty" by blast
  have "\<exists>v'. echo_main_end demo_prog v = Inr v'" using echo_main_ends[OF v(1)] v(2) by auto
  ultimately show ?thesis using w(1) v(1) by blast
qed

text \<open>Six rounds, a second apart, in which only the timer descriptor is readable.\<close>

lemma timer_rounds_deliverable:
  "\<forall>x \<in> set rs. snd x = Ready [(1, EPOLLIN)] \<Longrightarrow> deliverable_run pe timeout rs w"
  by (induction pe timeout rs w rule: deliverable_run.induct) (auto simp: deliverable_def split: sum.splits)


end
