(* ===== verification/Default_Callbacks.thy ===== *)
theory Default_Callbacks
  imports Conn_Frame
begin

text \<open>
  The callbacks that \<open>TcpServerThreaded\<close> has until the program sets its own: the connection callback
  writes a log line, the message callback throws the input away.
\<close>

definition defaultConnectionCallback :: "'x conn_world \<Rightarrow> 'x conn_world result" where
  "defaultConnectionCallback w = Inr w"

definition defaultMessageCallback :: "'x conn_world \<Rightarrow> 'x conn_world result" where
  "defaultMessageCallback w = Inr (fst w, (snd w)\<lparr>inputBuffer := retrieveAll (inputBuffer (snd w))\<rparr>)"

lemma defaultMessageCallback_ok:
  assumes "conn_ok tid w"
  shows "ends_in (\<lambda>w'. conn_ok tid w' \<and> cb_frame w w') (defaultMessageCallback w)"
  using assms retrieveAll_ok(1)[OF conn_okD(3)] by (cases w) (auto simp: defaultMessageCallback_def conn_ok_def cb_frame_def)

lemma framed_defaultMessageCallback: "framed w (defaultMessageCallback w)"
  by (simp add: defaultMessageCallback_def conn_frame_def)

end
