(* ===== verification/Server_Loop.thy ===== *)
theory Server_Loop
  imports Server_Setup Default_Callbacks
begin

text \<open>
  A server of \<open>TcpServerThreaded\<close> with the callbacks of any program: what \<open>runInThread\<close> sets up in its
  thread, the rounds of the loop it then runs, and several such threads together. The locale \<open>service\<close>
  is what the program's callbacks must fulfil; under it each thread's loop is safe.

  A \<open>service\<close> has the callbacks of \<open>TcpServerThreaded\<close>, each for a thread, the results of the system
  calls on the connection and a reading of the clock; \<open>highWater\<close> is the callback that a connection has
  when its connection callback sets one, \<open>initial\<close> what the program keeps with a connection at first, and
  \<open>keeps\<close> whether it holds a shared pointer to the connection. The program sets no timers.
\<close>

type_synonym 'x callback = "nat \<Rightarrow> conn_io \<Rightarrow> timestamp \<Rightarrow> 'x conn_world \<Rightarrow> 'x conn_world result"

record 'x service =
  connectionCallback :: "'x callback"
  messageCallback :: "'x callback"
  writeCompleteCallback :: "'x callback option"
  highWater :: "nat \<Rightarrow> 'x callback"
  initial :: 'x
  keeps :: "'x tcpconn_scheme \<Rightarrow> bool"

definition service_new :: "(nat \<Rightarrow> 'x callback) \<Rightarrow> ('x tcpconn_scheme \<Rightarrow> bool) \<Rightarrow> 'x \<Rightarrow> 'x service" where
  "service_new hw held x =
     \<lparr>connectionCallback = (\<lambda>_ _ _. defaultConnectionCallback), messageCallback = (\<lambda>_ _ _. defaultMessageCallback),
      writeCompleteCallback = None, highWater = hw, initial = x, keeps = held\<rparr>"

definition service_setConnectionCallback :: "'x callback \<Rightarrow> 'x service \<Rightarrow> 'x service" where
  "service_setConnectionCallback cb sv = sv\<lparr>connectionCallback := cb\<rparr>"

definition service_setMessageCallback :: "'x callback \<Rightarrow> 'x service \<Rightarrow> 'x service" where
  "service_setMessageCallback cb sv = sv\<lparr>messageCallback := cb\<rparr>"

definition service_setWriteCompleteCallback :: "'x callback \<Rightarrow> 'x service \<Rightarrow> 'x service" where
  "service_setWriteCompleteCallback cb sv = sv\<lparr>writeCompleteCallback := Some cb\<rparr>"

text \<open>What a connection of the server calls; the server's close callback calls the connection callback.\<close>

definition service_user :: "'x service \<Rightarrow> nat \<Rightarrow> conn_io \<Rightarrow> timestamp \<Rightarrow> 'x conn_user" where
  "service_user sv tid io now =
     \<lparr>on_message = messageCallback sv tid io now,
      on_writeComplete = (case writeCompleteCallback sv of None \<Rightarrow> (\<lambda>w. Inl BadFunctionCall) | Some f \<Rightarrow> f tid io now),
      on_highWater = (\<lambda>n. highWater sv n tid io now),
      on_close = connectionCallback sv tid io now\<rparr>"

record 'x served = "'x table" +
  own_timers :: "unit timerqueue"
  base_server :: tcpserver

type_synonym 'x served_world = "loop_task eventloop \<times> 'x served"

text \<open>From a new loop and its two channels to the entry of \<open>loop()\<close>.\<close>

definition serve :: "nat \<Rightarrow> sys_results \<Rightarrow> inetaddr \<Rightarrow> 'x service \<Rightarrow> channel \<times> channel \<times> loop_task eventloop \<Rightarrow> 'x served_world result" where
  "serve tid sys loc sv = (\<lambda>(tch, wch, l).
     bindR (startInLoop (writeCompleteCallback sv \<noteq> None) tid sys loc l) (\<lambda>(l, srv).
       assertInLoopThread tid l
         (Inr (l\<lparr>quitting := False\<rparr>,
           \<lparr>objs = [], conns = Map.empty, wakeupChnl = wch, timerChnl = tch, acceptChnl = acceptChannel (srv_acceptor srv),
            own_timers = TimerQueue_new, base_server = srv\<rparr>))))"

definition runInThread :: "nat \<Rightarrow> sys_results \<Rightarrow> inetaddr \<Rightarrow> 'x service \<Rightarrow> 'x served_world result" where
  "runInThread tid sys loc sv =
     bindR (EventLoop_new tid (sys_timerfd sys) (sys_eventfd sys) False) (serve tid sys loc sv)"

definition service_on_timer :: "nat \<Rightarrow> round_env \<Rightarrow> 'x served_world \<Rightarrow> 'x served_world result" where
  "service_on_timer tid env w =
     bindR (TimerQueue_handleRead (\<lambda>_ _ v. Inr v) tid (env_now env) (fst w, own_timers (snd w)))
       (\<lambda>(l, q). Inr (l, (snd w)\<lparr>own_timers := q\<rparr>))"

definition service_on_accept :: "nat \<Rightarrow> 'x service \<Rightarrow> round_env \<Rightarrow> 'x served_world \<Rightarrow> 'x served_world result" where
  "service_on_accept tid sv env w =
     (let srv = base_server (snd w) in
      case env_accept env of None \<Rightarrow> Inr w
      | Some (a, fd, addr, stack) \<Rightarrow>
          if fresh a fd w then Acceptor_handleRead tid
                 (Some (\<lambda>connfd loc peer. server_newConnection tid (srv_messageCb srv) (srv_writeCompleteCb srv) (initial sv)
                          (connectionCallback sv tid (bounded (env_io env a)) (env_clock env a)) a connfd loc peer))
                 (srv_acceptor srv) (AcceptOk fd addr) stack w
          else Inr w)"

definition service_handlers :: "nat \<Rightarrow> 'x service \<Rightarrow> round_env \<Rightarrow> ('x, \<lparr>own_timers :: unit timerqueue, base_server :: tcpserver\<rparr>) handlers" where
  "service_handlers tid sv env =
     \<lparr>user_of = (\<lambda>a. service_user sv tid (bounded (env_io env a)) (env_clock env a)),
      io_of = (\<lambda>a. bounded (env_io env a)),
      on_timer = service_on_timer tid env,
      on_timer_task = (\<lambda>t w. bindR (run_tq_task t (fst w, own_timers (snd w))) (\<lambda>(l, q). Inr (l, (snd w)\<lparr>own_timers := q\<rparr>))),
      on_accept = service_on_accept tid sv env, held_by = keeps sv\<rparr>"

text \<open>The threads share nothing but the callbacks: a step is a round of one of them.\<close>

inductive threads_step :: "nat \<Rightarrow> (nat \<Rightarrow> nat) \<Rightarrow> 'x service \<Rightarrow> (nat \<Rightarrow> 'x served_world) \<Rightarrow> (nat \<Rightarrow> 'x served_world) \<Rightarrow> bool"
  for n tids sv where
  round: "i < n \<Longrightarrow> \<not> quitting (fst (s i)) \<Longrightarrow> deliverable (s i) r \<Longrightarrow>
     table_round (tids i) (service_handlers (tids i) sv env) r (s i) = Inr w \<Longrightarrow>
     threads_step n tids sv s (s(i := w))"

definition threads_start :: "nat \<Rightarrow> (nat \<Rightarrow> nat) \<Rightarrow> inetaddr \<Rightarrow> 'x service \<Rightarrow> (nat \<Rightarrow> 'x served_world) \<Rightarrow> bool" where
  "threads_start n tids loc sv s \<longleftrightarrow> (\<forall>i < n. \<exists>sys. sys_ok sys \<and> runInThread (tids i) sys loc sv = Inr (s i))"

subsection \<open>The set-up\<close>

definition served_inv :: "\<lparr>own_timers :: unit timerqueue, base_server :: tcpserver\<rparr> rest \<Rightarrow> bool" where
  "served_inv z \<longleftrightarrow> rest_tasks z = [] \<and> rest_cbs z = [[ReadCb], [ReadCb], [ReadCb]]
     \<and> (\<exists>q srv. rest_more z = \<lparr>own_timers = q, base_server = srv\<rparr> \<and> timers q = [] \<and> srv_messageCb srv)"

lemma served_fields:
  "table.more t = \<lparr>own_timers = q, base_server = srv\<rparr> \<Longrightarrow> own_timers t = q" "table.more t = \<lparr>own_timers = q, base_server = srv\<rparr> \<Longrightarrow> base_server t = srv"
  for t :: "'x served"
  by (cases t; simp)+

lemma served_invD:
  assumes "served_inv (rest_of w)"
  shows "timers (own_timers (snd w)) = []" "srv_messageCb (base_server (snd w))"
  using assms by (auto simp: served_inv_def rest_of_def served_fields)

lemma runInThread_ok:
  assumes "sys_ok sys"
  shows "\<exists>w. runInThread tid sys loc sv = Inr w \<and> table_ok tid w \<and> served_inv (rest_of w) \<and> conns (snd w) = Map.empty
     \<and> pendingJobs (fst w) = [] \<and> \<not> quitting (fst w)
     \<and> (\<forall>a fd. fd \<notin> {sys_timerfd sys, sys_eventfd sys, sys_socket sys} \<longrightarrow> fresh a fd w)"
proof -
  let ?fds = "[sys_timerfd sys, sys_eventfd sys]" and ?sock = "sys_socket sys"
  from startInLoop_ok[OF assms, of "writeCompleteCallback sv \<noteq> None" tid loc ?fds] obtain srv where
    srv: "startInLoop (writeCompleteCallback sv \<noteq> None) tid sys loc (main_loop tid ?fds :: loop_task eventloop) = Inr (main_loop tid (?fds @ [?sock]), srv)"
      "acceptChannel (srv_acceptor srv) = reading_chan ?sock" "srv_messageCb srv" by blast
  have fds: "sys_timerfd sys \<noteq> -1" "sys_eventfd sys \<noteq> -1" "sys_timerfd sys \<noteq> sys_eventfd sys" using sys_okD[OF assms] by simp_all
  let ?l = "main_loop tid (?fds @ [?sock]) :: loop_task eventloop"
  let ?t = "\<lparr>objs = [], conns = Map.empty, wakeupChnl = reading_chan (sys_eventfd sys), timerChnl = reading_chan (sys_timerfd sys),
    acceptChnl = reading_chan ?sock, own_timers = TimerQueue_new, base_server = srv\<rparr> :: 'a served"
  have l: "?l\<lparr>quitting := False\<rparr> = ?l" "pendingJobs ?l = []" "\<not> quitting ?l" by (simp_all add: main_loop_def)
  have "runInThread tid sys loc sv = Inr (?l, ?t)"
    using srv l(1) by (simp add: runInThread_def serve_def EventLoop_new_ok[OF fds])
  moreover have "served_inv (rest_of (?l, ?t))"
    using srv(3) by (simp add: served_inv_def rest_of_def main_loop_def TimerQueue_new_def)
  ultimately show ?thesis using new_table_ok[OF assms, of ?t, simplified] l(2,3)
    by (intro exI[of _ "(?l, ?t)"]) simp
qed

text \<open>Any failing system call of the set-up aborts the program.\<close>

lemma runInThread_aborts:
  assumes "-1 \<in> {sys_timerfd sys, sys_eventfd sys, sys_socket sys, sys_reuseaddr sys, sys_reuseport sys, sys_bind sys, sys_listen sys}"
    "sys_timerfd sys \<noteq> sys_eventfd sys"
  shows "runInThread tid sys loc sv = Inl Aborted"
proof (cases "sys_timerfd sys = -1 \<or> sys_eventfd sys = -1")
  case True
  then show ?thesis by (simp add: runInThread_def EventLoop_new_aborts)
next
  case False
  then have fds: "sys_timerfd sys \<noteq> -1" "sys_eventfd sys \<noteq> -1" by simp_all
  have "startInLoop wcb tid sys loc (main_loop tid l :: loop_task eventloop) = Inl Aborted" for wcb l
    using assms(1) fds by (auto simp: startInLoop_def TcpServer_new_def Acceptor_new_def createSocket_def TcpServer_start_def
        Acceptor_listen_def TcpServer_setMessageCallback_def TcpServer_setWriteCompleteCallback_def Let_def)
  then show ?thesis by (simp add: runInThread_def serve_def EventLoop_new_ok[OF fds assms(2)])
qed

subsection \<open>The contract of the callbacks\<close>

locale service =
  fixes tid :: nat and sv :: "'x service"
  assumes client: "framed_client (service_user sv tid (bounded io) now) tid"
    and up_framed: "framed w (connectionCallback sv tid (bounded io) now w)"
    and up_ok: "conn_ok tid w \<Longrightarrow> state (snd w) = kConnected \<Longrightarrow> ends_in (conn_ok tid) (connectionCallback sv tid (bounded io) now w)"
begin

lemma timer_ok:
  assumes "table_ok tid w" "served_inv (rest_of w)"
  shows "ends_in (\<lambda>w'. table_ok tid w' \<and> table_frame w w' \<and> served_inv (rest_of w')) (service_on_timer tid env w)"
proof -
  have thr: "isInLoopThread tid (fst w)" by (rule table_okD(1)[OF assms(1)])
  have q: "timers (own_timers (snd w)) = []" by (rule served_invD(1)[OF assms(2)])
  obtain q' where q': "service_on_timer tid env w = Inr (fst w, (snd w)\<lparr>own_timers := q'\<rparr>)" "timers q' = []"
    using thr q by (simp add: service_on_timer_def TimerQueue_handleRead_def getExpired_def timerfdRead_def set_below_def set_from_def
        rearm_def Let_def)
  have "table_ok tid (fst w, (snd w)\<lparr>own_timers := q'\<rparr>)"
    using assms(1) by (cases w) (simp add: table_ok_def all_chans_def conn_view_def)
  moreover have "table_frame w (fst w, (snd w)\<lparr>own_timers := q'\<rparr>)" by (simp add: frame_defs fun_eq_iff)
  moreover have "served_inv (rest_of (fst w, (snd w)\<lparr>own_timers := q'\<rparr>))"
    using assms(2) q'(2) by (cases w; cases "snd w") (auto simp: served_inv_def rest_of_def)
  ultimately show ?thesis using q'(1) by simp
qed

lemma accept_ok:
  assumes "table_ok tid w" "served_inv (rest_of w)"
  shows "ends_in (\<lambda>w'. table_ok tid w' \<and> table_frame w w' \<and> rest_of w' = rest_of w) (service_on_accept tid sv env w)"
proof (cases "\<exists>a fd addr stack. env_accept env = Some (a, fd, addr, stack) \<and> fresh a fd w")
  case False
  then show ?thesis using assms(1) by (auto simp: service_on_accept_def Let_def split: option.splits)
next
  case True
  then obtain a fd addr stack where acc: "env_accept env = Some (a, fd, addr, stack)" and f: "fresh a fd w" by blast
  have m: "srv_messageCb (base_server (snd w))" by (rule served_invD(2)[OF assms(2)])
  let ?wcb = "srv_writeCompleteCb (base_server (snd w))" and ?up = "connectionCallback sv tid (bounded (env_io env a)) (env_clock env a)"
  let ?loc = "acc_local (srv_acceptor (base_server (snd w)))"
  let ?peer = "setAddress (sockaddr_of (store_addr 1 addr stack)) (InetAddress_port 0 False)"
  from server_newConnection_ok[OF assms(1) f, of "initial sv" ?wcb ?loc ?peer] obtain l c where
    c: "conn_ok tid (l, c)" "state c = kConnected" and
    new: "\<And>cb. framed (l, c) (cb (l, c)) \<Longrightarrow>
       (case cb (l, c) of Inl e \<Rightarrow> server_newConnection tid True ?wcb (initial sv) cb a fd ?loc ?peer w = Inl e
        | Inr (l', c') \<Rightarrow> conn_ok tid (l', c') \<longrightarrow>
            (\<exists>w'. server_newConnection tid True ?wcb (initial sv) cb a fd ?loc ?peer w = Inr w' \<and> table_ok tid w' \<and> table_frame w w'
               \<and> pendingJobs (fst w') = pendingJobs (fst w) @ map (ConnTask a) (pendingJobs l') \<and> threadId (fst w') = threadId (fst w)
               \<and> rest_of w' = rest_of w \<and> conns (snd w') a = Some c'))" by blast
  have up: "ends_in (conn_ok tid) (?up (l, c))" by (rule up_ok[OF c(1)]) (simp add: c(2))
  have "ends_in (\<lambda>w'. table_ok tid w' \<and> table_frame w w' \<and> rest_of w' = rest_of w)
      (server_newConnection tid True ?wcb (initial sv) ?up a fd ?loc ?peer w)"
    using new[of ?up, OF up_framed] up by (cases "?up (l, c)") auto
  then show ?thesis using acc f m table_okD(1)[OF assms(1)] by (simp add: service_on_accept_def Acceptor_handleRead_def Let_def)
qed

sublocale served: loop_handlers tid "service_handlers tid sv env" served_inv for env
proof (rule loop_handlers.intro)
  show "framed_client (user_of (service_handlers tid sv env) a) tid" for a by (simp add: service_handlers_def client)
  show "io_ok (io_of (service_handlers tid sv env) a)" for a by (simp add: service_handlers_def bounded_ok)
  show "rest_tasks z = [] \<and> rest_cbs z = [[ReadCb], [ReadCb], [ReadCb]]" if "served_inv z" for z using that by (simp add: served_inv_def)
qed (simp_all add: service_handlers_def timer_ok accept_ok)

text \<open>A round in the thread.\<close>

lemma thread_round:
  assumes "table_ok tid w" "served_inv (rest_of w)" "deliverable w r"
  shows "ends_but (closing (service_handlers tid sv env) (reported r)) (\<lambda>w'. table_ok tid w' \<and> served_inv (rest_of w'))
     (table_round tid (service_handlers tid sv env) r w)"
  by (rule ends_but_mono[OF served.round_ok[OF assms]]) simp_all

end

text \<open>Any number of threads, each with its loop.\<close>

definition threads_inv :: "nat \<Rightarrow> (nat \<Rightarrow> nat) \<Rightarrow> 'x service \<Rightarrow> (nat \<Rightarrow> 'x served_world) \<Rightarrow> bool" where
  "threads_inv n tids sv s \<longleftrightarrow> (\<forall>i < n. table_ok (tids i) (s i) \<and> served_inv (rest_of (s i)))"


end
