(* ===== verification/Echo_Service.thy ===== *)
theory Echo_Service
  imports Server_Loop Echo_Loop
begin

text \<open>
  The callbacks of the echo server in a \<open>TcpServerThreaded\<close> with any number of threads, each thread with
  the connections it has accepted. Its map of expiry times, which all threads share, is here the field
  \<open>expiry\<close> of each connection, so that what races there are on the map itself is not followed.
\<close>

definition echo_service :: "int \<Rightarrow> \<lparr>expiry :: timestamp option\<rparr> service" where
  "echo_service timeout =
     service_setWriteCompleteCallback (\<lambda>tid io now. echo_onWriteComplete tid timeout now)
       (service_setMessageCallback (\<lambda>tid io now. echo_onMessage tid io timeout now)
         (service_setConnectionCallback (\<lambda>tid io now. echo_onConnection timeout now)
           (service_new (\<lambda>n tid io now. echo_onHighWaterMark tid timeout now n) in_map \<lparr>expiry = None\<rparr>)))"

lemmas echo_service_defs = echo_service_def service_setWriteCompleteCallback_def service_setMessageCallback_def
  service_setConnectionCallback_def service_new_def

lemma echo_service_user: "service_user (echo_service timeout) tid io now = echo_user tid io timeout now"
  by (simp add: service_user_def echo_service_defs echo_user_def fun_eq_iff)

interpretation echo_service: service tid "echo_service timeout" for tid timeout
proof (rule service.intro)
  fix io now and w :: echo_world
  show "framed_client (service_user (echo_service timeout) tid (bounded io) now) tid"
    by (simp add: echo_service_user echo.framed_client_axioms)
  show "framed w (connectionCallback (echo_service timeout) tid (bounded io) now w)"
    by (simp add: echo_service_defs framed_onConnection)
  show "ends_in (conn_ok tid) (connectionCallback (echo_service timeout) tid (bounded io) now w)"
    if "conn_ok tid w" "state (snd w) = kConnected"
    using echo_onConnection_up[of tid "fst w" "snd w" timeout now] that by (auto simp: echo_service_defs)
qed

end
