(* ===== verification/Chargen_Server.thy ===== *)
theory Chargen_Server
  imports Default_Callbacks Steps
begin

text \<open>
  \<open>examples/ChargenServer.cc\<close>: the message that the constructor builds, and the server's callbacks on
  one connection. The message callback is the default one of \<open>TcpServerThreaded\<close>, which throws the
  input away; no high-water callback is set. The server's counter \<open>transferred_\<close> appears with the
  connection. \<open>std::string::substr\<close> throws when its position is past the end.
\<close>

definition substr :: "byte list \<Rightarrow> nat \<Rightarrow> nat \<Rightarrow> byte list result" where
  "substr s pos n = (if pos > length s then Inl OutOfRange else Inr (take n (drop pos s)))"

definition chargen_line :: "byte list" where
  "chargen_line = (let line = foldl (\<lambda>line i. line @ [word_of_nat i]) [] [33..<127] in line @ line)"

definition chargen_message :: "byte list result" where
  "chargen_message =
     foldR (\<lambda>i message. bindR (substr chargen_line i 72) (\<lambda>s. Inr (message @ s @ [0x0A]))) [0..<127 - 33] []"

text \<open>\<open>Leven chargen server\<close> and a newline, in ASCII.\<close>

definition chargen_greeting :: "byte list" where
  "chargen_greeting = [76, 101, 118, 101, 110, 32, 99, 104, 97, 114, 103, 101, 110, 32, 115, 101, 114, 118, 101, 114, 10]"

record chargen_conn = tcpconn +
  transferred :: "64 word"

type_synonym chargen_world = "conn_task eventloop \<times> chargen_conn"

definition chargen_onConnection :: "nat \<Rightarrow> conn_io \<Rightarrow> conn_io \<Rightarrow> byte list \<Rightarrow> chargen_world \<Rightarrow> chargen_world result" where
  "chargen_onConnection tid io1 io2 message w =
     (if TcpConnection_connected (snd w)
      then bindR (TcpConnection_send tid (io_write io1) chargen_greeting w) (TcpConnection_send tid (io_write io2) message)
      else Inr w)"

definition chargen_onWriteComplete :: "nat \<Rightarrow> conn_io \<Rightarrow> byte list \<Rightarrow> chargen_world \<Rightarrow> chargen_world result" where
  "chargen_onWriteComplete tid io message w =
     bindR (TcpConnection_send tid (io_write io) message w)
       (\<lambda>w1. Inr (fst w1, (snd w1)\<lparr>transferred := transferred (snd w1) + word_of_nat (length message)\<rparr>))"

definition chargen_user :: "nat \<Rightarrow> conn_io \<Rightarrow> byte list \<Rightarrow> (\<lparr>transferred :: 64 word\<rparr>) conn_user" where
  "chargen_user tid io message =
     \<lparr>on_message = defaultMessageCallback,
      on_writeComplete = chargen_onWriteComplete tid io message,
      on_highWater = (\<lambda>n w. Inr w),
      on_close = chargen_onConnection tid io io message\<rparr>"

subsection \<open>The message\<close>

text \<open>
  What the message is, without the loops: line \<open>i\<close> has the 72 characters from the \<open>i\<close>th
  printable one on, around the 94 of them, and a newline.
\<close>

definition chargen_text :: "byte list" where
  "chargen_text = concat (map (\<lambda>i. map (\<lambda>j. word_of_nat (33 + (i + j) mod 94)) [0..<72] @ [0x0A]) [0..<94])"

lemma chargen_line_nth:
  "chargen_line = map (\<lambda>i. word_of_nat (33 + i mod 94)) [0..<188]"
proof -
  have "foldl (\<lambda>line i. line @ [word_of_nat i]) xs is = xs @ map word_of_nat is" for xs :: "byte list" and "is"
    by (induction "is" arbitrary: xs) simp_all
  then have "chargen_line = map word_of_nat [33..<127] @ map word_of_nat [33..<127]"
    by (simp add: chargen_line_def Let_def del: upt_rec_numeral)
  also have "\<dots> = map (\<lambda>i. word_of_nat (33 + i mod 94)) [0..<188]"
    by (rule nth_equalityI) (auto simp: nth_append mod_if simp del: upt_rec_numeral)
  finally show ?thesis .
qed

lemma foldR_collect:
  assumes "\<And>i. i \<in> set is \<Longrightarrow> f i = Inr (g i)"
  shows "foldR (\<lambda>i m. bindR (f i) (\<lambda>s. Inr (m @ s @ e))) is m = Inr (m @ concat (map (\<lambda>i. g i @ e) is))"
  using assms by (induction "is" arbitrary: m) simp_all

lemma chargen_text_length: "length chargen_text = 94 * 73"
proof -
  have "length chargen_text = sum_list (replicate 94 73)"
    by (simp add: chargen_text_def length_concat comp_def map_replicate_const del: upt_rec_numeral)
  then show ?thesis by (simp add: sum_list_replicate)
qed

lemma chargen_message_built: "chargen_message = Inr chargen_text"
proof -
  have sub: "substr chargen_line i 72 = Inr (map (\<lambda>j. word_of_nat (33 + (i + j) mod 94)) [0..<72])" if "i \<in> set [0..<94]" for i
  proof -
    have "take 72 (drop i chargen_line) = map (\<lambda>j. word_of_nat (33 + (i + j) mod 94)) [0..<72]"
      using that by (intro nth_equalityI) (simp_all add: chargen_line_nth del: upt_rec_numeral)
    then show ?thesis using that by (simp add: substr_def chargen_line_nth del: upt_rec_numeral)
  qed
  have "chargen_message = Inr ([] @ chargen_text)"
    unfolding chargen_message_def chargen_text_def diff_numeral_simps by (subst foldR_collect[OF sub]) (simp_all del: upt_rec_numeral)
  then show ?thesis by simp
qed


lemma chargen_text_bounds: "chargen_text \<noteq> []" "length chargen_text \<le> vec_max" "length chargen_greeting \<le> vec_max"
proof -
  note l = chargen_text_length
  show "chargen_text \<noteq> []" using l by auto
  show "length chargen_text \<le> vec_max" "length chargen_greeting \<le> vec_max"
    using vec_max_ge l by (simp_all add: chargen_greeting_def)
qed

end
