(* ===== verification/Chargen_Props.thy ===== *)
theory Chargen_Props
  imports Chargen_Server Conn_Props
begin

text \<open>
  The chargen server on one connection. It fulfils the contract of \<open>conn_client\<close>, so that its rounds
  fail no assertion; and what it sends is the greeting and then the message again and again, one more
  each time the output has been written out.
\<close>

lemma conn_ok_transferred [simp]:
  "conn_ok tid (l, c\<lparr>transferred := x\<rparr>) = conn_ok tid (l, c)" for c :: chargen_conn
  by (simp add: conn_ok_def)

text \<open>
  \<open>sends data w w'\<close>: what \<open>send\<close> does to a connected connection when the kernel does not report it
  broken, as far as the callbacks of the server go.
\<close>

definition sends :: "byte list \<Rightarrow> 'x conn_world \<Rightarrow> 'x conn_world \<Rightarrow> bool" where
  "sends data w w' \<longleftrightarrow> (\<exists>ch b xs. snd w' = (snd w)\<lparr>chan := ch, outputBuffer := b, wire := xs\<rparr>)
     \<and> wire (snd w') @ out (snd w') = wire (snd w) @ out (snd w) @ data
     \<and> (out (snd w') \<noteq> [] \<or> WriteComplete \<in> set (pendingJobs (fst w')))
     \<and> set (pendingJobs (fst w')) \<subseteq> insert WriteComplete (set (pendingJobs (fst w)))"

lemma send_connected:
  assumes "conn_ok tid (l, c)" "state c = kConnected" "wr_ok wr" "length data \<le> vec_max"
  shows "ends_in (\<lambda>w'. conn_ok tid w' \<and> sent_effect wr data (l, c) w') (TcpConnection_send tid wr data (l, c))"
  using sendInLoop_ok[OF assms(1) _ assms(3,4)] assms(2) conn_okD(1)[OF assms(1)] by (simp add: TcpConnection_send_def)

lemma sent_sends:
  assumes "sent_effect wr data (l, c) w'" "data \<noteq> []" "writeCompleteCb c" "\<not> highWaterMarkCb c" "wr_ok wr"
    and "\<not> broken (wr (length data))"
  shows "sends data (l, c) w'"
proof -
  from assms(1) have e: "\<exists>ch b xs. snd w' = c\<lparr>chan := ch, outputBuffer := b, wire := xs\<rparr>"
    "wire (snd w') @ out (snd w') = wire c @ out c @ data" "out c \<noteq> [] \<longrightarrow> wire (snd w') = wire c"
    "out c = [] \<longrightarrow> wire (snd w') = wire c @ take (write_count (wr (length data))) data"
    "pendingJobs (fst w') = pendingJobs l @ (if out c = [] \<and> wr (length data) = WriteOk (length data) then [WriteComplete] else [])"
    using assms(3,4,6) unfolding sent_effect_def Let_def by auto
  have "WriteComplete \<in> set (pendingJobs (fst w'))" if o: "out (snd w') = []"
  proof -
    have c: "out c = []" using e(2,3) o assms(2) by auto
    then have t: "take (write_count (wr (length data))) data = data" using e(2,4) o by simp
    then have "length data \<le> write_count (wr (length data))" by (metis length_take min.cobounded2)
    then have "wr (length data) = WriteOk (length data)"
      using assms(2,5) by (cases "wr (length data)") (auto simp: write_count_def wr_ok_def intro: antisym)
    then show ?thesis using c e(5) by simp
  qed
  then show ?thesis using e(1,2,5) by (auto simp: sends_def split: if_splits)
qed

subsection \<open>The contract\<close>

lemma send_frame:
  assumes "conn_ok tid w" "wr_ok wr" "length data \<le> vec_max"
  shows "ends_in (\<lambda>w'. conn_ok tid w' \<and> cb_frame w w') (TcpConnection_send tid wr data w)"
proof -
  obtain l c where w: "w = (l, c)" by (cases w)
  show ?thesis
  proof (cases "state c = kConnected")
    case False
    then show ?thesis using assms(1) by (simp add: w TcpConnection_send_def)
  next
    case True
    show ?thesis unfolding w
    proof (rule ends_in_mono[OF send_connected[OF assms(1)[unfolded w] True assms(2,3)]])
      fix w' :: "'a conn_world"
      assume s: "conn_ok tid w' \<and> sent_effect wr data (l, c) w'"
      have "live (snd (l, c))" using True by simp
      note k = sent_effect_keeps[OF assms(1)[unfolded w] conjunct1[OF s] this conjunct2[OF s]]
      show "conn_ok tid w' \<and> cb_frame (l, c) w'" using s k(1,2,5) by (simp add: cb_frame_def)
    qed
  qed
qed

interpretation chargen: conn_client "chargen_user tid (bounded io) chargen_text" tid for tid io
proof unfold_locales
  fix w :: chargen_world and n
  have wr: "wr_ok (io_write (bounded io))" by (rule bounded_ok(2))
  show "ends_in (\<lambda>w'. conn_ok tid w' \<and> cb_frame w w') (on_message (chargen_user tid (bounded io) chargen_text) w)"
    if "conn_ok tid w" "live (snd w)"
    using defaultMessageCallback_ok[OF that(1)] by (simp add: chargen_user_def)
  show "ends_in (\<lambda>w'. conn_ok tid w' \<and> cb_frame w w') (on_writeComplete (chargen_user tid (bounded io) chargen_text) w)"
    if "conn_ok tid w"
    using send_frame[OF that wr chargen_text_bounds(2)]
    by (auto simp: chargen_user_def chargen_onWriteComplete_def cb_frame_def intro!: ends_in_bindR)
  show "ends_in (\<lambda>w'. conn_ok tid w' \<and> cb_frame w w') (on_highWater (chargen_user tid (bounded io) chargen_text) n w)"
    if "conn_ok tid w" using that by (simp add: chargen_user_def)
  show "ends_in (\<lambda>w'. conn_ok tid w' \<and> cb_frame w w') (on_close (chargen_user tid (bounded io) chargen_text) w)"
    if "conn_ok tid w" "state (snd w) = kDisconnected"
    using that by (simp add: chargen_user_def chargen_onConnection_def TcpConnection_connected_def)
qed

subsection \<open>What the peer is sent\<close>

text \<open>Results of the system calls that keep the bounds and do not report the connection broken.\<close>

definition io_whole :: "conn_io \<Rightarrow> bool" where
  "io_whole io \<longleftrightarrow> io_ok io \<and> (\<forall>n. \<not> broken (io_write io n))"

inductive chargen_step :: "nat \<Rightarrow> chargen_world \<Rightarrow> chargen_world \<Rightarrow> bool" for tid where
  readable: "live c \<Longrightarrow> io_whole io \<Longrightarrow>
     TcpConnection_handleRead (chargen_user tid io chargen_text) tid (io_read io) (l, c) = Inr w' \<Longrightarrow>
     chargen_step tid (l, c) w'"
| writable: "live c \<Longrightarrow> isWriting (chan c) \<Longrightarrow> io_whole io \<Longrightarrow>
     TcpConnection_handleWrite tid (io_write io) (l, c) = Inr w' \<Longrightarrow> chargen_step tid (l, c) w'"
| hangup: "live c \<Longrightarrow> io_whole io \<Longrightarrow> handleClose (chargen_user tid io chargen_text) tid (l, c) = Inr w' \<Longrightarrow>
     chargen_step tid (l, c) w'"
| task: "pendingJobs l = t # ts \<Longrightarrow> io_whole io \<Longrightarrow>
     run_conn_task (chargen_user tid io chargen_text) tid io t (l\<lparr>pendingJobs := ts\<rparr>, c) = Inr w' \<Longrightarrow>
     chargen_step tid (l, c) w'"

text \<open>
  A connection just established, before and after the connection callback. The constructor of the
  server has counted the first message.
\<close>

definition chargen_fresh :: "nat \<Rightarrow> chargen_world \<Rightarrow> bool" where
  "chargen_fresh tid w \<longleftrightarrow> conn_ok tid w \<and> state (snd w) = kConnected \<and> writeCompleteCb (snd w)
     \<and> \<not> highWaterMarkCb (snd w) \<and> wire (snd w) = [] \<and> out (snd w) = [] \<and> pendingJobs (fst w) = []
     \<and> transferred (snd w) = word_of_nat (length chargen_text)"

definition chargen_start :: "nat \<Rightarrow> chargen_world \<Rightarrow> bool" where
  "chargen_start tid w \<longleftrightarrow> (\<exists>w0 io1 io2. chargen_fresh tid w0 \<and> io_whole io1 \<and> io_whole io2
     \<and> chargen_onConnection tid io1 io2 chargen_text w0 = Inr w)"

definition generated :: "nat \<Rightarrow> byte list" where
  "generated k = chargen_greeting @ concat (replicate k chargen_text)"

definition chargen_inv :: "nat \<Rightarrow> chargen_world \<Rightarrow> bool" where
  "chargen_inv tid w \<longleftrightarrow> conn_ok tid w \<and> (state (snd w) = kConnected \<or> state (snd w) = kDisconnected)
     \<and> writeCompleteCb (snd w) \<and> \<not> highWaterMarkCb (snd w) \<and> set (pendingJobs (fst w)) \<subseteq> {WriteComplete}
     \<and> (\<exists>k. wire (snd w) @ out (snd w) = generated k \<and> (state (snd w) = kConnected \<longrightarrow>
          transferred (snd w) = word_of_nat (k * length chargen_text)
          \<and> (out (snd w) \<noteq> [] \<or> WriteComplete \<in> set (pendingJobs (fst w)))))"

lemma generated_Suc: "generated k @ chargen_text = generated (Suc k)"
proof -
  have "concat (replicate k xs) @ xs = xs @ concat (replicate k xs)" for xs :: "byte list"
    by (induction k) simp_all
  then show ?thesis by (simp add: generated_def)
qed

text \<open>One more message.\<close>

lemma send_message:
  assumes "TcpConnection_send tid (io_write io) data (l, c) = Inr w'" "conn_ok tid (l, c)" "state c = kConnected"
    and "io_whole io" "writeCompleteCb c" "\<not> highWaterMarkCb c" "data \<noteq> []" "length data \<le> vec_max"
  shows "conn_ok tid w' \<and> sends data (l, c) w'"
proof -
  have wr: "wr_ok (io_write io)" "\<not> broken (io_write io (length data))" using assms(4) by (simp_all add: io_whole_def io_ok_def)
  from ends_in_Inr[OF send_connected[OF assms(2,3) wr(1) assms(8)] assms(1)]
  have "conn_ok tid w'" "sent_effect (io_write io) data (l, c) w'" by blast+
  then show ?thesis using sent_sends[OF _ assms(7,5,6) wr(1,2)] by blast
qed

lemma chargen_inv_start:
  assumes "chargen_start tid w"
  shows "chargen_inv tid w"
proof -
  obtain l c io1 io2 where f: "chargen_fresh tid (l, c)" "io_whole io1" "io_whole io2"
    "chargen_onConnection tid io1 io2 chargen_text (l, c) = Inr w" using assms by (auto simp: chargen_start_def)
  then have fr: "conn_ok tid (l, c)" "state c = kConnected" "writeCompleteCb c" "\<not> highWaterMarkCb c" "wire c = []" "out c = []"
    "pendingJobs l = []" "transferred c = word_of_nat (length chargen_text)" by (simp_all add: chargen_fresh_def)
  obtain l1 c1 where s1: "TcpConnection_send tid (io_write io1) chargen_greeting (l, c) = Inr (l1, c1)"
    "TcpConnection_send tid (io_write io2) chargen_text (l1, c1) = Inr w"
    using f(4) fr(2) by (auto simp: chargen_onConnection_def TcpConnection_connected_def bindR_Inr_iff)
  have g: "chargen_greeting \<noteq> []" by (simp add: chargen_greeting_def)
  from send_message[OF s1(1) fr(1,2) f(2) fr(3,4) g chargen_text_bounds(3)]
  have m1: "conn_ok tid (l1, c1)" "sends chargen_greeting (l, c) (l1, c1)" by blast+
  then obtain ch b xs where c1: "c1 = c\<lparr>chan := ch, outputBuffer := b, wire := xs\<rparr>" by (auto simp: sends_def)
  have "state c1 = kConnected" "writeCompleteCb c1" "\<not> highWaterMarkCb c1" using c1 fr by simp_all
  from send_message[OF s1(2) m1(1) this(1) f(3) this(2,3) chargen_text_bounds(1,2)]
  have m2: "conn_ok tid w" "sends chargen_text (l1, c1) w" by blast+
  have "wire (snd w) @ out (snd w) = generated 1"
    using m1(2) m2(2) fr(5,6) by (simp add: sends_def generated_def flip: append_assoc)
  then show ?thesis using m1(2) m2 c1 fr
    unfolding chargen_inv_def sends_def by (auto intro!: exI[of _ "1 :: nat"])
qed

lemma chargen_closes:
  assumes "handleClose (chargen_user tid io chargen_text) tid (l, c) = Inr w'" "conn_ok tid (l, c)" "live c"
  shows "\<exists>l' ch. w' = (l', c\<lparr>state := kDisconnected, chan := ch\<rparr>) \<and> conn_ok tid w' \<and> pendingJobs l' = pendingJobs l"
proof -
  from handleClose_exact[OF assms(2,3)] obtain l' p where h:
    "conn_ok tid (l', c\<lparr>state := kDisconnected, chan := (chan c)\<lparr>events := 0, polling := p\<rparr>\<rparr>)" "pendingJobs l' = pendingJobs l"
    "handleClose (chargen_user tid io chargen_text) tid (l, c)
       = Inr (l', c\<lparr>state := kDisconnected, chan := (chan c)\<lparr>events := 0, polling := p\<rparr>\<rparr>)"
    by (auto simp: chargen_user_def chargen_onConnection_def TcpConnection_connected_def)
  then show ?thesis using assms(1) by auto
qed

lemma chargen_inv_closed:
  assumes "handleClose (chargen_user tid io chargen_text) tid (l, c\<lparr>inputBuffer := b\<rparr>) = Inr w'"
    and "conn_ok tid (l, c\<lparr>inputBuffer := b\<rparr>)" "live c" "chargen_inv tid (l, c)"
  shows "chargen_inv tid w'"
proof -
  from assms(4) obtain k where k: "writeCompleteCb c" "\<not> highWaterMarkCb c" "set (pendingJobs l) \<subseteq> {WriteComplete}"
    "wire c @ out c = generated k" by (auto simp: chargen_inv_def)
  have "live (c\<lparr>inputBuffer := b\<rparr>)" using assms(3) by simp
  from chargen_closes[OF assms(1,2) this] k show ?thesis by (auto simp: chargen_inv_def)
qed

lemma chargen_inv_complete:
  assumes "chargen_inv tid (l, c)" "pendingJobs l = t # ts" "io_whole io"
    and "chargen_onWriteComplete tid io chargen_text (l\<lparr>pendingJobs := ts\<rparr>, c) = Inr w'"
  shows "chargen_inv tid w'"
proof -
  from assms(1) obtain k where k: "conn_ok tid (l, c)" "state c = kConnected \<or> state c = kDisconnected" "writeCompleteCb c"
    "\<not> highWaterMarkCb c" "set (pendingJobs l) \<subseteq> {WriteComplete}" "wire c @ out c = generated k"
    "state c = kConnected \<Longrightarrow> transferred c = word_of_nat (k * length chargen_text)" by (auto simp: chargen_inv_def)
  let ?l = "l\<lparr>pendingJobs := ts\<rparr>"
  have ok: "conn_ok tid (?l, c)" by (rule conn_ok_pop[OF k(1) assms(2)])
  have ts: "set ts \<subseteq> {WriteComplete}" using k(5) assms(2) by simp
  obtain w1 where w1: "TcpConnection_send tid (io_write io) chargen_text (?l, c) = Inr w1"
    "w' = (fst w1, (snd w1)\<lparr>transferred := transferred (snd w1) + word_of_nat (length chargen_text)\<rparr>)"
    using assms(4) by (auto simp: chargen_onWriteComplete_def bindR_Inr_iff)
  show ?thesis
  proof (cases "state c = kConnected")
    case False
    then have "w1 = (?l, c)" using w1(1) by (simp add: TcpConnection_send_def)
    then show ?thesis using w1(2) k(2-4,6) False ok ts by (auto simp: chargen_inv_def)
  next
    case True
    from send_message[OF w1(1) ok True assms(3) k(3,4) chargen_text_bounds(1,2)]
    have m: "conn_ok tid w1" "sends chargen_text (?l, c) w1" by blast+
    then obtain ch b xs where c1: "snd w1 = c\<lparr>chan := ch, outputBuffer := b, wire := xs\<rparr>" by (auto simp: sends_def)
    have "wire (snd w1) @ out (snd w1) = generated (Suc k)"
      using m(2) k(6) by (simp add: sends_def generated_Suc[symmetric] flip: append_assoc)
    moreover have "conn_ok tid w'" using m(1) w1(2) by (cases w1) simp
    moreover have "transferred (snd w') = word_of_nat (Suc k * length chargen_text)"
      using w1(2) c1 k(7) True by simp
    ultimately show ?thesis using m(2) w1(2) c1 k(3,4) True ts
      unfolding chargen_inv_def sends_def by (auto simp: algebra_simps intro!: exI[of _ "Suc k"])
  qed
qed

lemma chargen_inv_step:
  assumes "chargen_inv tid w" "chargen_step tid w w'"
  shows "chargen_inv tid w'"
  using assms(2)
proof (cases rule: chargen_step.cases)
  case (readable c io l)
  have inv: "chargen_inv tid (l, c)" using assms(1) readable(1) by simp
  then have ok: "conn_ok tid (l, c)" by (simp add: chargen_inv_def)
  have "rd_ok (io_read io)" using readable(3) by (simp add: io_whole_def io_ok_def)
  from handleRead_cases[OF readable(4) ok this] obtain b where b: "buf_ok b"
    "w' = (l, c\<lparr>inputBuffer := b\<rparr>) \<or> handleClose (chargen_user tid io chargen_text) tid (l, c\<lparr>inputBuffer := b\<rparr>) = Inr w'
     \<or> on_message (chargen_user tid io chargen_text) (l, c\<lparr>inputBuffer := b\<rparr>) = Inr w'" by blast
  have upd: "chargen_inv tid (l, c\<lparr>inputBuffer := b'\<rparr>)" if "buf_ok b'" for b'
    using inv that by (simp add: chargen_inv_def conn_ok_def)
  from b(2) consider "w' = (l, c\<lparr>inputBuffer := b\<rparr>)"
    | "handleClose (chargen_user tid io chargen_text) tid (l, c\<lparr>inputBuffer := b\<rparr>) = Inr w'"
    | "w' = (l, c\<lparr>inputBuffer := retrieveAll b\<rparr>)"
    by (auto simp: chargen_user_def defaultMessageCallback_def)
  then show ?thesis
  proof cases
    case 1
    then show ?thesis using upd[OF b(1)] by simp
  next
    case 2
    have "conn_ok tid (l, c\<lparr>inputBuffer := b\<rparr>)" using ok b(1) by (simp add: conn_ok_def)
    from chargen_inv_closed[OF 2 this readable(2) inv] show ?thesis .
  next
    case 3
    then show ?thesis using upd[OF retrieveAll_ok(1)[OF b(1)]] by simp
  qed
next
  case (writable c io l)
  have "chargen_inv tid (l, c)" using assms(1) writable(1) by simp
  then obtain k where k: "conn_ok tid (l, c)" "state c = kConnected \<or> state c = kDisconnected" "writeCompleteCb c"
    "\<not> highWaterMarkCb c" "set (pendingJobs l) \<subseteq> {WriteComplete}" "wire c @ out c = generated k"
    "state c = kConnected \<Longrightarrow> transferred c = word_of_nat (k * length chargen_text)" by (auto simp: chargen_inv_def)
  have "out c \<noteq> []" using conn_okD(9)[OF k(1) writable(2)] writable(3) by simp
  have "wr_ok (io_write io)" using writable(4) by (simp add: io_whole_def io_ok_def)
  from handleWrite_ok[OF k(1) writable(2) \<open>out c \<noteq> []\<close> this] writable(5) obtain l' ch b n where w':
    "w' = (l', c\<lparr>chan := ch, outputBuffer := b, wire := wire c @ take n (out c),
       shutdownWr := (shutdownWr c \<or> content b = [] \<and> state c = kDisconnecting)\<rparr>)" "conn_ok tid w'"
    "content b = drop n (out c)"
    "pendingJobs l' = pendingJobs l @ (if content b = [] \<and> writeCompleteCb c then [WriteComplete] else [])" by auto
  have "(wire c @ take n (out c)) @ content b = generated k" using k(6) w'(3) by simp
  then show ?thesis using w'(1,2,4) k(2-5,7) unfolding chargen_inv_def by (auto intro!: exI[of _ k])
next
  case (hangup c io l)
  have inv: "chargen_inv tid (l, c)" using assms(1) hangup(1) by simp
  have "c\<lparr>inputBuffer := inputBuffer c\<rparr> = c" by simp
  then show ?thesis using chargen_inv_closed[of tid io l "inputBuffer c" c w'] hangup(2-4) inv
    by (simp add: chargen_inv_def)
next
  case (task l t ts io c)
  have inv: "chargen_inv tid (l, c)" using assms(1) task(1) by simp
  then have "t = WriteComplete" using task(2) by (auto simp: chargen_inv_def)
  then show ?thesis using chargen_inv_complete[OF inv task(2,3), of w'] task(4) by (simp add: chargen_user_def)
qed

interpretation gen: safe_system "chargen_start tid" "chargen_step tid" "chargen_inv tid" for tid
  by unfold_locales (auto intro: chargen_inv_start chargen_inv_step)


text \<open>A kernel that takes everything, and the first connection of a server.\<close>

definition eager_io :: conn_io where
  "eager_io = \<lparr>io_read = (\<lambda>n. ReadFail EAGAIN), io_write = WriteOk\<rparr>"

lemma eager_whole: "io_whole eager_io"
  by (simp add: eager_io_def io_whole_def io_ok_def wr_ok_def rd_ok_def broken_def)

definition first_conn :: chargen_conn where
  "first_conn = tcpconn.extend (tcpconn.truncate (raw_conn\<lparr>highWaterMarkCb := False\<rparr>))
     \<lparr>transferred = word_of_nat (length chargen_text)\<rparr>"

lemma first_fresh:
  "\<exists>l c. chargen_fresh 1 (l, c)"
proof -
  have f: "chan first_conn = chan raw_conn" "inputBuffer first_conn = empty_buffer" "outputBuffer first_conn = empty_buffer"
    "state first_conn = kConnecting" "messageCb first_conn" "closeCb first_conn" "writeCompleteCb first_conn"
    "\<not> highWaterMarkCb first_conn" "wire first_conn = []" "transferred first_conn = word_of_nat (length chargen_text)"
    by (simp_all add: first_conn_def raw_conn_def tcpconn.defs)
  have s: "loop_sync [chan first_conn] new_loop"
    by (simp add: f loop_sync_def chan_sync_def raw_conn_def new_loop_def Epoller_new_def setCallBack_def Channel_new_def)
  have w: "\<not> isWriting (chan first_conn)"
    by (simp add: f isWriting_def raw_conn_def setCallBack_def Channel_new_def)
  have "isInLoopThread 1 new_loop" by (simp add: isInLoopThread_def new_loop_def)
  from connectEstablished_ok[OF this s] w empty_buffer_ok f obtain l ch where
    "conn_ok 1 (l, first_conn\<lparr>state := kConnected, chan := ch\<rparr>)" "pendingJobs l = pendingJobs new_loop"
    by (auto simp: new_loop_def)
  then show ?thesis using f empty_buffer_ok
    by (intro exI[of _ l] exI[of _ "first_conn\<lparr>state := kConnected, chan := ch\<rparr>"]) (simp add: chargen_fresh_def new_loop_def)
qed

lemma eager_send:
  assumes "conn_ok tid (l, c)" "state c = kConnected" "out c = []" "writeCompleteCb c" "data \<noteq> []" "length data \<le> vec_max"
  shows "TcpConnection_send tid (io_write eager_io) data (l, c) = Inr (queueInLoop tid WriteComplete l, c\<lparr>wire := wire c @ data\<rparr>)"
proof -
  note ok = conn_okD[OF assms(1)]
  have "readableBytes (outputBuffer c) = 0" using readable_content[OF ok(4)] assms(3) by simp
  moreover have "szsub (length data) (length data) = 0" using assms(6) vec_max_size_mod(2) by (simp add: szsub_exact)
  ultimately show ?thesis using ok(1) ok(9) assms(2-4)
    by (simp add: TcpConnection_send_def sendInLoop_def send_direct_def eager_io_def conn_queue_def)
qed


end
