(* ===== verification/Chargen_Main.thy ===== *)
theory Chargen_Main
  imports Server_Loop Chargen_Props
begin

text \<open>
  The program of \<open>examples/ChargenServer.cc\<close>: its callbacks as a \<open>service\<close> of \<open>TcpServerThreaded\<close>, and
  \<open>main\<close>, with one loop. A connection has its share of the server's counter \<open>transferred_\<close>: what the
  constructor put there and what its own write-complete callbacks have added.
\<close>

definition chargen_service :: "byte list \<Rightarrow> \<lparr>transferred :: 64 word\<rparr> service" where
  "chargen_service message =
     service_setWriteCompleteCallback (\<lambda>tid io now. chargen_onWriteComplete tid io message)
       (service_setConnectionCallback (\<lambda>tid io now. chargen_onConnection tid io io message)
         (service_new (\<lambda>n tid io now w. Inr w) (\<lambda>_. False) \<lparr>transferred = 0 + word_of_nat (length message)\<rparr>))"

lemmas chargen_service_defs = chargen_service_def service_setWriteCompleteCallback_def service_setConnectionCallback_def
  service_new_def

lemma chargen_service_user: "service_user (chargen_service message) tid io now = chargen_user tid io message"
  by (simp add: service_user_def chargen_service_defs chargen_user_def)

definition ChargenServer_new :: "\<lparr>transferred :: 64 word\<rparr> service result" where
  "ChargenServer_new = bindR chargen_message (\<lambda>message. Inr (chargen_service message))"

definition chargen_main :: "nat \<Rightarrow> sys_results \<Rightarrow> \<lparr>transferred :: 64 word\<rparr> served_world result" where
  "chargen_main tid sys =
     bindR (EventLoop_new tid (sys_timerfd sys) (sys_eventfd sys) False) (\<lambda>e.
     let addr = InetAddress_port 10011 False in
     bindR ChargenServer_new (\<lambda>sv. serve tid sys addr sv e))"

subsection \<open>The callbacks fulfil the contract\<close>

interpretation chargen: framed_client "chargen_user tid (bounded io) chargen_text" tid for tid io
proof unfold_locales
  fix w :: chargen_world and n
  show "framed w (on_message (chargen_user tid (bounded io) chargen_text) w)"
    by (simp add: chargen_user_def framed_defaultMessageCallback)
  have count: "framed w (bindR r (\<lambda>v. Inr (fst v, (snd v)\<lparr>transferred := f v\<rparr>)))" if "framed w r" for r f
    using that by (cases r) (auto simp: conn_frame_def)
  show "framed w (on_writeComplete (chargen_user tid (bounded io) chargen_text) w)"
    by (simp add: chargen_user_def chargen_onWriteComplete_def count framed_send)
  show "framed w (on_highWater (chargen_user tid (bounded io) chargen_text) n w)"
    by (simp add: chargen_user_def)
  show "framed w (on_close (chargen_user tid (bounded io) chargen_text) w)"
    by (auto simp: chargen_user_def chargen_onConnection_def intro: framed_bindR framed_send)
  show "growing (\<lambda>_ w'. live (snd w')) w (on_message (chargen_user tid (bounded io) chargen_text) w)" if "live (snd w)"
    using that by (simp add: chargen_user_def defaultMessageCallback_def)
qed

interpretation chargen_service: service tid "chargen_service chargen_text" for tid
proof (rule service.intro)
  fix io now and w :: chargen_world
  let ?up = "connectionCallback (chargen_service chargen_text) tid (bounded io) now"
  show "framed_client (service_user (chargen_service chargen_text) tid (bounded io) now) tid"
    by (simp add: chargen_service_user chargen.framed_client_axioms)
  show "framed w (?up w)"
    by (auto simp: chargen_service_defs chargen_onConnection_def intro: framed_bindR framed_send)
  assume w: "conn_ok tid w" and "state (snd w) = kConnected"
  have wr: "wr_ok (io_write (bounded io))" by (rule bounded_ok(2))
  have "ends_in (conn_ok tid) (bindR (TcpConnection_send tid (io_write (bounded io)) chargen_greeting w)
      (TcpConnection_send tid (io_write (bounded io)) chargen_text))"
    by (rule ends_in_bindR[OF send_frame[OF w wr chargen_text_bounds(3)]], rule ends_in_mono[OF send_frame[OF _ wr chargen_text_bounds(2)]]) auto
  then show "ends_in (conn_ok tid) (?up w)" using w by (simp add: chargen_service_defs chargen_onConnection_def)
qed

text \<open>\<open>main\<close> is a server with one thread.\<close>

lemma ChargenServer_new_ok: "ChargenServer_new = Inr (chargen_service chargen_text)"
  unfolding ChargenServer_new_def chargen_message_built by simp

lemma chargen_main_runs: "chargen_main tid sys = runInThread tid sys (InetAddress_port 10011 False) (chargen_service chargen_text)"
  by (simp add: chargen_main_def runInThread_def ChargenServer_new_ok)

text \<open>Two threads of the chargen server, the second of which is about to accept a client.\<close>

definition thread_sys :: "nat \<Rightarrow> sys_results" where
  "thread_sys i = \<lparr>sys_timerfd = 10 * int i + 5, sys_eventfd = 10 * int i + 6, sys_socket = 10 * int i + 7,
     sys_reuseaddr = 0, sys_reuseport = 0, sys_bind = 0, sys_listen = 0\<rparr>"

definition accepting :: round_env where
  "accepting = \<lparr>env_io = (\<lambda>_. \<lparr>io_read = (\<lambda>_. ReadFail 5), io_write = WriteOk\<rparr>), env_clock = (\<lambda>_. 0),
     env_now = 0, env_start = 0, env_accept = Some (9, 30, [], [])\<rparr>"


end
