(* ===== verification/Connector.thy ===== *)
theory Connector
  imports Inet_Address Steps
begin

text \<open>
  \<open>leven/Connector.h\<close> and \<open>Connector.cc\<close>, an unfinished client side: a socket, and \<open>start\<close>, which calls
  \<open>connect\<close> and has no code yet for either outcome. The results of \<open>socket\<close> and \<open>connect\<close> are arguments;
  the destructor says which descriptor it closes.
\<close>

record connector =
  con_peer :: inetaddr
  con_sockfd :: int
  con_connected :: bool
  con_started :: bool

definition Connector_createSocket :: "int \<Rightarrow> int result" where
  "Connector_createSocket ret = (if ret = -1 then Inl Aborted else Inr ret)"

definition Connector_new :: "inetaddr \<Rightarrow> int \<Rightarrow> connector result" where
  "Connector_new peer ret =
     bindR (Connector_createSocket ret) (\<lambda>fd. Inr \<lparr>con_peer = peer, con_sockfd = fd, con_connected = False, con_started = False\<rparr>)"

definition Connector_start :: "int \<Rightarrow> connector \<Rightarrow> connector result" where
  "Connector_start ret c = assertR (\<not> con_started c) (let c1 = c\<lparr>con_started := True\<rparr> in if ret = -1 then Inr c1 else Inr c1)"

definition Connector_delete :: "connector \<Rightarrow> int option" where
  "Connector_delete c = (if \<not> con_connected c then Some (con_sockfd c) else None)"

lemma start_Inr: "Connector_start ret c = Inr c1 \<longleftrightarrow> \<not> con_started c \<and> c1 = c\<lparr>con_started := True\<rparr>"
  by (auto simp: Connector_start_def assertR_Inr_iff)

text \<open>
  What \<open>Connector\<close> promises so far: however often \<open>start\<close> is called and whatever \<open>connect\<close> returns, the first
  call returns and any further one fails its assertion; no result is ever recorded, so the destructor
  closes the socket even when the connection was made.
\<close>

lemma connector_starts_once:
  assumes "Connector_new peer fd = Inr c"
  shows "Connector_start ret c = Inr (c\<lparr>con_started := True\<rparr>)"
    "foldR (\<lambda>ret. Connector_start ret) (ret # ret' # rets) c = Inl AssertFailed"
    "foldR (\<lambda>ret. Connector_start ret) rets c = Inr c' \<Longrightarrow> \<not> con_connected c' \<and> Connector_delete c' = Some fd"
proof -
  have c: "\<not> con_started c" "\<not> con_connected c" "con_sockfd c = fd"
    using assms by (auto simp: Connector_new_def Connector_createSocket_def split: if_splits)
  then show "Connector_start ret c = Inr (c\<lparr>con_started := True\<rparr>)"
    "foldR (\<lambda>ret. Connector_start ret) (ret # ret' # rets) c = Inl AssertFailed"
    by (simp_all add: Connector_start_def)
  have keep: "con_connected c' = con_connected c \<and> con_sockfd c' = con_sockfd c"
    if "foldR (\<lambda>ret. Connector_start ret) rets c = Inr c'" for rets c c'
    using that
  proof (induction rets arbitrary: c)
    case (Cons r rets)
    then have "foldR (\<lambda>ret. Connector_start ret) rets (c\<lparr>con_started := True\<rparr>) = Inr c'"
      by (auto simp: bindR_Inr_iff start_Inr)
    from Cons.IH[OF this] show ?case by simp
  qed simp
  show "foldR (\<lambda>ret. Connector_start ret) rets c = Inr c' \<Longrightarrow> \<not> con_connected c' \<and> Connector_delete c' = Some fd"
    using keep c by (auto simp: Connector_delete_def)
qed

end
