(* ===== verification/Spec2Isabelle.thy ===== *)
theory Spec2Isabelle
  imports Buffer_Calls Loop_Threads Timer_Callbacks Conn_Failures Tcp_Server Thread_Pool Server_Stop Logger
    Echo_Run Echo_Service Chargen_Main Connector
begin

text \<open>
  \<^bold>\<open>Leven, a C++ network library on epoll.\<close> A program makes an \<open>EventLoop\<close> per thread. The loop
  waits in \<open>epoll_wait\<close> for its \<open>Channel\<close>s (one per descriptor), calls their callbacks, and then
  runs the tasks that other threads or callbacks have queued. A \<open>TcpServer\<close> has an \<open>Acceptor\<close>, whose
  channel delivers new sockets; each becomes a \<open>TcpConnection\<close> with an input and an output \<open>Buffer\<close>.
  Timers are a \<open>TimerQueue\<close> behind a timer descriptor. \<open>TcpServerThreaded\<close> runs one server in each of
  several threads, \<open>ThreadPool\<close> is a bounded queue of tasks with worker threads, and \<open>Logger\<close> writes
  the log lines. \<open>examples/\<close> has an echo and a chargen server.

  \<^bold>\<open>Conventions\<close> (\<open>Prelude\<close>, \<open>Steps\<close>). An operation that can fail returns \<open>error + 'a\<close>: \<open>AssertFailed\<close>
  (the build does not define \<open>NDEBUG\<close>), \<open>ChannelInUse\<close> for the assertion of \<open>~Channel\<close>, \<open>Aborted\<close> for the fatal log macros, \<open>LengthError\<close> and
  \<open>OutOfRange\<close> for exceptions of the standard library, \<open>BadFunctionCall\<close> for an unset callback, and
  \<open>UndefinedBehaviour\<close> for a freed object or an access outside its array. \<open>ends_in P r\<close> says that
  \<open>r\<close> returns with \<open>P\<close> or a vector had to exceed its maximal size, and nothing else; \<open>ends_but b P r\<close> that it may
  also end in \<open>ChannelInUse\<close>, if \<open>b\<close>. Object state is a
  record that each method returns updated; \<open>size_t\<close> is \<open>nat\<close> with its wrap-around written out
  (\<open>szadd\<close>, \<open>szsub\<close>), event masks and the integers on the wire are words. Results of system calls,
  the clock, the thread id and addresses from \<open>new\<close> are arguments. Where threads interleave, the
  program is an inductive step relation whose states hold a program counter per thread.

  \<^bold>\<open>Theories.\<close>
  \<^item> \<open>Endian\<close>, \<open>Decimal\<close>: byte order of words, and decimal text, with their round trips.
  \<^item> \<open>Byte_Stream\<close>, \<open>Buffer\<close>: \<open>util/Buffer.h\<close>, \<open>Buffer.cc\<close>, every method. \<open>buf_ok\<close> is the invariant of
    the two indices; \<open>Buffer_Calls\<close> has all methods together and when each fails an assertion. The locale \<open>byte_fifo\<close> is the contract of a byte queue with an abstraction
    \<open>content\<close>, interpreted on the buffer.
  \<^item> \<open>Channel\<close>, \<open>Epoller\<close>, \<open>EventLoop\<close>: \<open>Channel.h/.cc\<close>, \<open>Epoller.h/.cc\<close>, \<open>EventLoop.h/.cc\<close> run by one
    thread; \<open>loop_sync\<close> says that epoll's interest list and the channels agree. \<open>Loop_Threads\<close>: the same
    loop while other threads post tasks and quit it; its steps are the critical sections of the code.
  \<^item> \<open>Ordered_Set\<close>, \<open>Timer\<close>, \<open>TimerQueue\<close>, \<open>Timer_Callbacks\<close>: \<open>Timer.h\<close>, \<open>util/Timestamp.h\<close>,
    \<open>TimerQueue.h/.cc\<close> and the timer methods of \<open>EventLoop\<close>. The locale \<open>ordered_set\<close> states what the
    queue needs of \<open>std::set\<close>, interpreted on sorted lists; \<open>timer_client\<close> is the contract of the timer callbacks; timers live in a heap by address.
    A queue works on any further state its callbacks need, and on any kind of task of the loop.
  \<^item> \<open>Inet_Address\<close>: \<open>InetAddress.h/.cc\<close>.
  \<^item> \<open>Tcp_Connection\<close>: \<open>TcpConnection.h/.cc\<close>, every method. \<open>Conn_Invariant\<close>: \<open>conn_ok\<close> and what each
    operation does to it. \<open>Conn_Client\<close>: the locale \<open>conn_client\<close>, the contract of the user's callbacks,
    under which no event and no task of a connection fails an assertion. \<open>Conn_Props\<close>: sending and the
    stream up to the FIN. \<open>Conn_Failures\<close>: executions in which the code does fail.
  \<^item> \<open>Echo_Server\<close>, \<open>Echo_Props\<close>, \<open>Chargen_Server\<close>, \<open>Chargen_Props\<close>: the servers of \<open>examples/\<close>; each
    fulfils \<open>conn_client\<close>. \<open>Default_Callbacks\<close>: \<open>Callbacks.cc\<close>.
  \<^item> \<open>Part\<close>, \<open>Conn_Frame\<close>, \<open>Conn_Lifetime\<close>, \<open>Loop_Conns\<close>, \<open>Loop_Table\<close>, \<open>Loop_Safe\<close>: many connections on one loop. An operation of
    one connection leaves the others alone (\<open>conn_frame\<close>, the locale \<open>framed_client\<close>), so that it acts on
    the whole through its part (the locales \<open>part\<close> and \<open>part_channel\<close>, interpreted on a connection among
    those of a loop). \<open>Conn_Lifetime\<close> has who holds a connection and what becomes of it when it lets itself go in the
    middle of an event, \<open>Loop_Table\<close> the invariant of the whole and the destruction of closed connections; the locale \<open>loop_handlers\<close> has what the handlers of the timer and the acceptor must
    fulfil, and a round is safe under it (\<open>round_ok\<close>), or not (\<open>round_aborts\<close>). \<open>Server_Conns\<close> has the new connection that
    any server puts into its loop.
  \<^item> \<open>Echo_Loop\<close>, \<open>Echo_Main\<close>, \<open>Shutdown_Clock\<close>, \<open>Echo_Run\<close>: the program of \<open>EchoServer.cc\<close> as a whole. \<open>Echo_Loop\<close>
    has a new connection and the idle check over all of them, \<open>Echo_Main\<close> defines \<open>main\<close>, the closures of
    its timers, its rounds and its end. \<open>Shutdown_Clock\<close> abstracts the timers to a clock that waits, counts
    and stops (\<open>phase_tick\<close>), and shows that the rounds refine it; \<open>Echo_Run\<close> interprets \<open>loop_handlers\<close>
    and \<open>safe_system\<close> on the program and proves its safety, its return and its end.
    \<open>Timer_Threads\<close>: a timer that one thread deletes while another still holds its address.
  \<^item> \<open>Server_Setup\<close>, \<open>Server_Loop\<close>, \<open>Echo_Service\<close>, \<open>Chargen_Main\<close>: what one thread of
    \<open>TcpServerThreaded\<close> runs, from the construction of its loop to its rounds. \<open>service\<close> is the record of
    the callbacks of a server and, as a locale, the contract that they fulfil (a sublocale of \<open>loop_handlers\<close>); it is
    interpreted on the callbacks of both examples. \<open>Chargen_Main\<close> has \<open>main\<close> of \<open>ChargenServer.cc\<close>.
  \<^item> \<open>Acceptor\<close>, \<open>Tcp_Server\<close>: \<open>Acceptor.h/.cc\<close>, \<open>TcpServer.h/.cc\<close>, with the shared pointers that keep a
    connection alive counted as in the code.
  \<^item> \<open>Server_Threads\<close>, \<open>Server_Start\<close>, \<open>Server_Stop\<close>: \<open>TcpServerThreaded.h/.cc\<close>, the model with its
    invariants, the start-up handshake, and the destructor.
  \<^item> \<open>Thread_Pool\<close>: \<open>util/ThreadPool.h/.cc\<close>. \<open>Logger\<close>: \<open>util/Logger.h\<close>, \<open>Logger.c\<close>. \<open>Connector\<close>:
    \<open>Connector.h/.cc\<close>, an unfinished class that nothing uses.
  \<^item> \<open>Steps\<close>: reachability, the locale \<open>safe_system\<close> (invariants) and the locale \<open>progress\<close> (a goal is
    reached because some step lowers a measure), interpreted on each of the step relations.

  \<^bold>\<open>Bounds.\<close> No definition uses fuel. \<open>EventLoop_loop\<close> runs over the list of results that \<open>epoll_wait\<close>
  delivers and says whether the loop returned or waits for the next one, as does \<open>prog_loop\<close>, which also
  takes what else the outside decides in each round; all other loops of the code
  are structural recursions. Lengths are bounded by \<open>vec_max\<close> (\<open>PTRDIFF_MAX\<close>) where a vector grows.

  \<^bold>\<open>Not modelled.\<close> \<open>Callbacks.h\<close> and \<open>noncopyable.h\<close> declare types only; \<open>Proxy.cc\<close> is empty; \<open>tests/\<close>
  are programs that print. Log calls are left out of the operations that make them. The opaque
  \<open>context_\<close> of a connection and the callback that a thread pool runs in each new thread are left out.
  The counter \<open>transferred_\<close> of the chargen server is kept as the share of each connection, without the
  sum that the threads update. In the models with many connections on a loop \<open>accept4\<close> succeeds, and only the
  loop's thread calls the methods of its connections; an \<open>accept4\<close> that fails, and the tasks of other
  threads that hold no pointer to their connection, are subjects of \<open>Tcp_Server\<close>. Events that the kernel reports for a closed
  connection, registered again by \<open>startRead\<close>, are left out there as well (\<open>Conn_Failures\<close> has what they do).
\<close>

end
